(* ===== verification/Prelude.thy ===== *)
theory Prelude
  imports Main "HOL-Library.List_Lexorder" "HOL-Library.Char_ord" "HOL-Library.Word"
begin

text \<open>
  What the components share: the model of Rust strings and byte vectors, ordered maps
  (\<open>BTreeMap\<close>, and \<open>serde_json\<close>'s \<open>Map\<close>, which is one in this build), decimal and
  hexadecimal printing, and the generic list lemmas the component theories use.

  A Rust \<open>str\<close> is modelled by its UTF-8 bytes, so \<open>len()\<close> is \<open>length\<close>, byte
  offsets are list positions and \<open>Ord\<close> is the lexicographic order on bytes; what counts
  code points (\<open>chars()\<close>, \<open>char_indices()\<close>) goes through \<open>chars\<close>.
\<close>

section \<open>Types\<close>

type_synonym str = string
type_synonym bytes = string

section \<open>Ordered maps\<close>

text \<open>
  A \<open>BTreeMap\<close> is the list of its entries in key order. \<open>bt_ok\<close> is the
  representation invariant; lookup is \<open>map_of\<close>.
\<close>

abbreviation bt_get :: "('k \<times> 'v) list \<Rightarrow> 'k \<Rightarrow> 'v option" where
  "bt_get m k \<equiv> map_of m k"

definition bt_ok :: "('k::linorder \<times> 'v) list \<Rightarrow> bool" where
  "bt_ok m \<longleftrightarrow> sorted_wrt (<) (map fst m)"

fun bt_insert :: "'k::linorder \<Rightarrow> 'v \<Rightarrow> ('k \<times> 'v) list \<Rightarrow> ('k \<times> 'v) list" where
  "bt_insert k v [] = [(k, v)]"
| "bt_insert k v ((a, b) # m) =
     (if k < a then (k, v) # (a, b) # m
      else if k = a then (k, v) # m
      else (a, b) # bt_insert k v m)"

fun bt_remove :: "'k::linorder \<Rightarrow> ('k \<times> 'v) list \<Rightarrow> ('k \<times> 'v) list" where
  "bt_remove k [] = []"
| "bt_remove k ((a, b) # m) = (if a = k then m else (a, b) # bt_remove k m)"

lemma bt_ok_Nil [simp]: "bt_ok []"
  by (simp add: bt_ok_def)

lemma bt_ok_Cons: "bt_ok ((k, v) # m) \<longleftrightarrow> (\<forall>k' \<in> fst ` set m. k < k') \<and> bt_ok m"
  by (auto simp: bt_ok_def)

lemma bt_ok_distinct: "bt_ok m \<Longrightarrow> distinct (map fst m)"
  by (simp add: bt_ok_def strict_sorted_iff)

lemma bt_keys_insert [simp]: "fst ` set (bt_insert k v m) = insert k (fst ` set m)"
  by (induction k v m rule: bt_insert.induct) auto

lemma bt_ok_insert [simp]: "bt_ok m \<Longrightarrow> bt_ok (bt_insert k v m)"
  by (induction k v m rule: bt_insert.induct) (auto simp: bt_ok_Cons)

lemma bt_get_insert [simp]: "bt_get (bt_insert k v m) = (bt_get m)(k \<mapsto> v)"
  by (induction k v m rule: bt_insert.induct) auto

lemma bt_keys_remove_subset: "fst ` set (bt_remove k m) \<subseteq> fst ` set m"
  by (induction k m rule: bt_remove.induct) auto

lemma bt_set_remove_subset: "set (bt_remove k m) \<subseteq> set m"
  by (induction k m rule: bt_remove.induct) auto

lemma bt_set_insert_subset: "set (bt_insert k v m) \<subseteq> insert (k, v) (set m)"
  by (induction k v m rule: bt_insert.induct) auto

lemma bt_ok_remove [simp]: "bt_ok m \<Longrightarrow> bt_ok (bt_remove k m)"
  by (induction k m rule: bt_remove.induct)
     (use bt_keys_remove_subset in \<open>fastforce simp: bt_ok_Cons\<close>)+

lemma bt_get_remove [simp]: "bt_ok m \<Longrightarrow> bt_get (bt_remove k m) = (bt_get m)(k := None)"
  by (induction k m rule: bt_remove.induct)
     (auto simp: bt_ok_Cons fun_eq_iff map_of_eq_None_iff)

text \<open>Two ordered maps with the same lookups are the same map.\<close>

lemma bt_eqI: "bt_ok m \<Longrightarrow> bt_ok m' \<Longrightarrow> bt_get m = bt_get m' \<Longrightarrow> m = m'"
proof (induction m arbitrary: m')
  case Nil
  then show ?case by (cases m') (auto simp: fun_eq_iff split: if_splits)
next
  case (Cons e m)
  obtain k v where e: "e = (k, v)" by (cases e)
  from Cons.prems(3) have get_k: "bt_get m' k = Some v"
    by (simp add: e fun_eq_iff) metis
  then obtain e' n where m': "m' = e' # n" by (cases m') auto
  obtain k' v' where e': "e' = (k', v')" by (cases e')
  have "bt_get (e # m) k' = Some v'" by (subst Cons.prems(3)) (simp add: m' e')
  then have "k' \<in> insert k (fst ` set m)"
    by (auto simp: e split: if_splits dest: map_of_SomeD intro: rev_image_eqI)
  moreover have "k \<in> insert k' (fst ` set n)"
    using get_k by (auto simp: m' e' split: if_splits dest: map_of_SomeD intro: rev_image_eqI)
  ultimately have k: "k' = k"
    using Cons.prems(1,2) by (force simp: m' e e' bt_ok_Cons)
  with get_k have v: "v' = v" by (simp add: m' e')
  have "bt_get m = bt_get n"
  proof
    fix x
    have "(if x = k then Some v else bt_get m x) = (if x = k then Some v else bt_get n x)"
      using Cons.prems(3) by (simp add: m' e e' k v fun_eq_iff)
    moreover have "bt_get m k = None" "bt_get n k = None"
      using Cons.prems(1,2) by (auto simp: e m' e' k bt_ok_Cons map_of_eq_None_iff)
    ultimately show "bt_get m x = bt_get n x" by (cases "x = k") auto
  qed
  with Cons show ?case by (simp add: m' e e' k v bt_ok_Cons)
qed

text \<open>Inserting a key above every other appends it: how a map built in key order looks.\<close>

lemma bt_insert_append: "\<forall>k' \<in> fst ` set m. k' < k \<Longrightarrow> bt_insert k v m = m @ [(k, v)]"
  by (induction k v m rule: bt_insert.induct) auto

lemma bt_get_in_set: "bt_ok m \<Longrightarrow> bt_get m k = Some v \<longleftrightarrow> (k, v) \<in> set m"
  by (simp add: map_of_eq_Some_iff bt_ok_distinct)

section \<open>Code points\<close>

definition is_cont :: "char \<Rightarrow> bool" where
  "is_cont c \<longleftrightarrow> 128 \<le> (of_char c :: nat) \<and> (of_char c :: nat) < 192"

text \<open>The code points of a string, each as its own UTF-8 bytes.\<close>

function chars :: "str \<Rightarrow> str list" where
  "chars [] = []"
| "chars (c # cs) = (c # takeWhile is_cont cs) # chars (dropWhile is_cont cs)"
  by pat_completeness auto
termination
  by (relation "measure length") (auto simp: le_imp_less_Suc length_dropWhile_le)

lemma concat_chars [simp]: "concat (chars s) = s"
  by (induction s rule: chars.induct) auto

lemma chars_eq_Nil [simp]: "chars s = [] \<longleftrightarrow> s = []"
  by (cases s) auto

definition take_chars :: "nat \<Rightarrow> str \<Rightarrow> str" where
  "take_chars n s = concat (take n (chars s))"

lemma length_take_chars: "length (take_chars n s) \<le> length s"
proof -
  have "s = concat (take n (chars s)) @ concat (drop n (chars s))"
    by (simp flip: concat_append)
  then have "length s = length (take_chars n s) + length (concat (drop n (chars s)))"
    unfolding take_chars_def by (metis length_append)
  then show ?thesis by simp
qed

text \<open>
  \<open>char::is_whitespace\<close>: the code points with the Unicode property \<open>White_Space\<close>, by
  their UTF-8 bytes, and \<open>str::trim\<close>.
\<close>

definition ws_bytes :: "nat list list" where
  "ws_bytes = [[9], [10], [11], [12], [13], [32], [194, 133], [194, 160], [225, 154, 128],
     [226, 128, 128], [226, 128, 129], [226, 128, 130], [226, 128, 131], [226, 128, 132],
     [226, 128, 133], [226, 128, 134], [226, 128, 135], [226, 128, 136], [226, 128, 137],
     [226, 128, 138], [226, 128, 168], [226, 128, 169], [226, 128, 175], [226, 129, 159],
     [227, 128, 128]]"

definition is_whitespace :: "str \<Rightarrow> bool" where
  "is_whitespace ch \<longleftrightarrow> map of_char ch \<in> set ws_bytes"

definition trim :: "str \<Rightarrow> str" where
  "trim s = concat (rev (dropWhile is_whitespace (rev (dropWhile is_whitespace (chars s)))))"

section \<open>Decimal and hexadecimal text\<close>

definition digits :: str where
  "digits = ''0123456789abcdef''"

fun show_nat :: "nat \<Rightarrow> str" where
  "show_nat n = (if n < 10 then [digits ! n] else show_nat (n div 10) @ [digits ! (n mod 10)])"

declare show_nat.simps [simp del]

definition show_int :: "int \<Rightarrow> str" where
  "show_int i = (if i < 0 then ''-'' @ show_nat (nat (- i)) else show_nat (nat i))"

lemma digits_distinct: "distinct digits" and digits_length [simp]: "length digits = 16"
  by (simp_all add: digits_def)

lemma digits_inj: "m < 16 \<Longrightarrow> n < 16 \<Longrightarrow> digits ! m = digits ! n \<longleftrightarrow> m = n"
  by (simp add: nth_eq_iff_index_eq digits_distinct)

definition is_digit :: "char \<Rightarrow> bool" where
  "is_digit c \<longleftrightarrow> c \<in> set ''0123456789''"

lemma is_digit_nth: "n < 10 \<Longrightarrow> is_digit (digits ! n)"
proof -
  assume "n < 10"
  then have "digits ! n = take 10 digits ! n" "n < length (take 10 digits)" by simp_all
  then have "digits ! n \<in> set (take 10 digits)" using nth_mem by metis
  then show ?thesis by (simp add: is_digit_def digits_def)
qed

lemma show_nat_nonempty [simp]: "show_nat n \<noteq> []"
  by (subst show_nat.simps) simp

lemma show_nat_digits: "c \<in> set (show_nat n) \<Longrightarrow> is_digit c"
proof (induction n rule: show_nat.induct)
  case (1 n)
  then show ?case
    by (cases "n < 10") (auto simp: show_nat.simps [of n] is_digit_nth)
qed

lemma show_nat_inj: "show_nat m = show_nat n \<Longrightarrow> m = n"
proof (induction m arbitrary: n rule: show_nat.induct)
  case (1 m)
  have len1: "length (show_nat k) = 1 \<longleftrightarrow> k < 10" for k
    by (subst show_nat.simps) (use show_nat_nonempty in \<open>auto simp: Suc_lessI\<close>)
  show ?case
  proof (cases "m < 10")
    case True
    with 1(2) have "n < 10" using len1 by metis
    with True 1(2) show ?thesis by (simp add: show_nat.simps digits_inj)
  next
    case False
    with 1(2) have n: "\<not> n < 10" using len1 by metis
    from 1(2) False n have eqs: "show_nat (m div 10) = show_nat (n div 10)"
      "digits ! (m mod 10) = digits ! (n mod 10)"
      by (simp_all add: show_nat.simps [of m] show_nat.simps [of n])
    then have "m mod 10 = n mod 10" by (subst (asm) digits_inj) simp_all
    moreover have "m div 10 = n div 10" using 1(1) False eqs(1) by blast
    ultimately show ?thesis by (metis div_mult_mod_eq)
  qed
qed

lemma digit_neq_minus: "is_digit c \<Longrightarrow> c \<noteq> CHR ''-''"
  by (auto simp: is_digit_def)

lemma show_int_inj: "show_int i = show_int j \<Longrightarrow> i = j"
proof -
  assume eq: "show_int i = show_int j"
  have no_minus: "show_nat n \<noteq> CHR ''-'' # xs" for n xs
    by (metis digit_neq_minus list.set_intros(1) show_nat_digits)
  from eq no_minus no_minus [symmetric] show ?thesis
    by (auto simp: show_int_def split: if_splits dest!: show_nat_inj)
qed

lemma show_int_chars: "c \<in> set (show_int i) \<Longrightarrow> is_digit c \<or> c = CHR ''-''"
  by (auto simp: show_int_def split: if_splits dest: show_nat_digits)

text \<open>\<open>crypto::digest::hex\<close>: two lowercase digits a byte.\<close>

fun hex :: "bytes \<Rightarrow> str" where
  "hex [] = []"
| "hex (b # bs) =
     digits ! (of_char b div 16) # digits ! (of_char b mod 16) # hex bs"

lemma of_char_lt_256: "(of_char c :: nat) < 256"
  using of_char_mod_256 [of c, where 'a = nat] by (metis mod_less_divisor zero_less_numeral)

lemma length_hex [simp]: "length (hex bs) = 2 * length bs"
  by (induction bs) auto

lemma hex_inj: "hex bs = hex cs \<Longrightarrow> bs = cs"
proof (induction bs arbitrary: cs)
  case Nil
  then show ?case by (cases cs) auto
next
  case (Cons b bs)
  then obtain c cs' where cs: "cs = c # cs'" by (cases cs) auto
  have lt: "(of_char x :: nat) div 16 < 16" for x :: char
    using of_char_lt_256 [of x] by (simp add: less_mult_imp_div_less)
  from Cons.prems have "(of_char b :: nat) div 16 = of_char c div 16"
    "(of_char b :: nat) mod 16 = of_char c mod 16"
    by (simp_all add: cs digits_inj lt)
  then have "(of_char b :: nat) = of_char c" by (metis div_mult_mod_eq)
  then have "b = c" by simp
  with Cons show ?case by (simp add: cs)
qed

end
