(* ===== verification/Json.thy ===== *)
theory Json
  imports Prelude
begin

text \<open>
  \<open>serde_json::Value\<close>. An object is a \<open>Map<String, Value>\<close>: in this build (no
  \<open>preserve_order\<close> feature in \<open>Cargo.lock\<close>) an ordered map, so \<open>wf_json\<close>
  demands keys in strictly increasing order at every level. A number is an integer
  (\<open>u64\<close>/\<open>i64\<close>) or a float, the float held as the text \<open>Number::to_string\<close> prints
  for it; \<open>number_ok\<close> says which texts that can be.
\<close>

datatype number = NInt int | NFloat str

datatype json =
    JNull
  | JBool bool
  | JNum number
  | JStr str
  | JArr "json list"
  | JObj "(str \<times> json) list"

lemma json_entry_size [termination_simp]:
  "kv \<in> set m \<Longrightarrow> size (snd kv) < Suc (size_list (size_prod (\<lambda>_. 0) size) m)"
  by (induction m) (auto simp: less_Suc_eq_le)

lemma json_entry_size_pair [termination_simp]:
  "(k, v) \<in> set m \<Longrightarrow> size v < Suc (size_list (size_prod (\<lambda>_. 0) size) m)"
  by (drule json_entry_size) simp

lemma json_induct [case_names Null Bool Num Str Arr Obj]:
  assumes "P JNull" "\<And>b. P (JBool b)" "\<And>n. P (JNum n)" "\<And>s. P (JStr s)"
    and "\<And>xs. (\<And>x. x \<in> set xs \<Longrightarrow> P x) \<Longrightarrow> P (JArr xs)"
    and "\<And>m. (\<And>k v. (k, v) \<in> set m \<Longrightarrow> P v) \<Longrightarrow> P (JObj m)"
  shows "P v"
proof (induction v rule: json.induct)
  case (JObj m)
  show ?case by (rule assms(6)) (use JObj in \<open>force simp: snds.simps\<close>)
qed (use assms in auto)

fun number_text :: "number \<Rightarrow> str" where
  "number_text (NInt i) = show_int i"
| "number_text (NFloat t) = t"

definition number_char :: "char \<Rightarrow> bool" where
  "number_char c \<longleftrightarrow> c \<in> set ''0123456789-+.eE''"

fun number_ok :: "number \<Rightarrow> bool" where
  "number_ok (NInt i) = True"
| "number_ok (NFloat t) =
     (t \<noteq> [] \<and> (is_digit (hd t) \<or> hd t = CHR ''-'')
      \<and> list_all number_char t \<and> (\<exists>c \<in> set t. \<not> is_digit c \<and> c \<noteq> CHR ''-''))"

fun wf_json :: "json \<Rightarrow> bool" where
  "wf_json (JNum n) = number_ok n"
| "wf_json (JArr xs) = (\<forall>x \<in> set xs. wf_json x)"
| "wf_json (JObj m) = (bt_ok m \<and> (\<forall>kv \<in> set m. wf_json (snd kv)))"
| "wf_json _ = True"

fun is_object :: "json \<Rightarrow> bool" where
  "is_object (JObj _) = True"
| "is_object _ = False"

fun is_array :: "json \<Rightarrow> bool" where
  "is_array (JArr _) = True"
| "is_array _ = False"

fun as_str :: "json \<Rightarrow> str option" where
  "as_str (JStr s) = Some s"
| "as_str _ = None"

text \<open>The entries of an object; none for any other value.\<close>

fun entries :: "json \<Rightarrow> (str \<times> json) list" where
  "entries (JObj m) = m"
| "entries _ = []"

text \<open>\<open>Value::get\<close> with a string key: a member of an object, \<open>None\<close> on anything else.\<close>

definition get_member :: "json \<Rightarrow> str \<Rightarrow> json option" where
  "get_member v k = bt_get (entries v) k"

lemma get_member_JObj [simp]: "get_member (JObj m) k = bt_get m k"
  by (simp add: get_member_def)

text \<open>Collecting an iterator of entries into a \<open>Map\<close>.\<close>

definition bt_collect :: "('k::linorder \<times> 'v) list \<Rightarrow> ('k \<times> 'v) list" where
  "bt_collect kvs = fold (\<lambda>kv. bt_insert (fst kv) (snd kv)) kvs []"

lemma bt_ok_fold_insert: "bt_ok m \<Longrightarrow> bt_ok (fold (\<lambda>kv. bt_insert (fst kv) (snd kv)) kvs m)"
  by (induction kvs arbitrary: m) auto

lemma bt_ok_collect [simp]: "bt_ok (bt_collect kvs)"
  by (simp add: bt_collect_def bt_ok_fold_insert)

lemma bt_fold_append:
  "bt_ok kvs \<Longrightarrow> \<forall>k \<in> fst ` set m. \<forall>k' \<in> fst ` set kvs. k < k' \<Longrightarrow>
   fold (\<lambda>kv. bt_insert (fst kv) (snd kv)) kvs m = m @ kvs"
proof (induction kvs arbitrary: m)
  case Nil
  then show ?case by simp
next
  case (Cons e kvs)
  obtain k v where e: "e = (k, v)" by (cases e)
  have "bt_insert k v m = m @ [(k, v)]"
    using Cons.prems(2) by (intro bt_insert_append) (auto simp: e)
  moreover have "fold (\<lambda>kv. bt_insert (fst kv) (snd kv)) kvs (m @ [(k, v)]) = (m @ [(k, v)]) @ kvs"
    using Cons.prems by (intro Cons.IH) (auto simp: e bt_ok_Cons)
  ultimately show ?case by (simp add: e)
qed

lemma bt_collect_id: "bt_ok m \<Longrightarrow> bt_collect m = m"
  by (simp add: bt_collect_def bt_fold_append)

lemma bt_ok_filter: "bt_ok m \<Longrightarrow> bt_ok (filter P m)"
  by (induction m) (auto simp: bt_ok_Cons split: prod.splits)

lemma bt_ok_map_values: "bt_ok m \<Longrightarrow> bt_ok (map (\<lambda>kv. (fst kv, f (snd kv))) m)"
  by (simp add: bt_ok_def o_def)

lemma bt_get_map_values: "bt_get (map (\<lambda>kv. (fst kv, f (snd kv))) m) k = map_option f (bt_get m k)"
  by (induction m) auto

lemma bt_get_filter_values:
  "bt_ok m \<Longrightarrow> bt_get (filter (\<lambda>kv. P (snd kv)) m) k =
     (case bt_get m k of Some v \<Rightarrow> if P v then Some v else None | None \<Rightarrow> None)"
  by (induction m)
     (auto simp: bt_ok_Cons map_of_eq_None_iff split: option.splits, force+)

lemma wf_json_entry: "wf_json v \<Longrightarrow> bt_get (entries v) k = Some w \<Longrightarrow> wf_json w"
  by (cases v) (force dest: map_of_SomeD)+

lemma bt_ok_entries: "wf_json v \<Longrightarrow> bt_ok (entries v)"
  by (cases v) auto

text \<open>\<open>scalar_text\<close> of \<open>selector/path.rs\<close>: a scalar as the text a selector compares.\<close>

definition bool_text :: "bool \<Rightarrow> str" where
  "bool_text b = (if b then ''true'' else ''false'')"

fun scalar_text :: "json \<Rightarrow> str option" where
  "scalar_text (JStr s) = Some s"
| "scalar_text (JNum n) = Some (number_text n)"
| "scalar_text (JBool b) = Some (bool_text b)"
| "scalar_text JNull = None"
| "scalar_text (JArr _) = None"
| "scalar_text (JObj _) = None"

end
