(* ===== verification/Canonical.thy ===== *)
theory Canonical
  imports Json
begin

text \<open>
  \<open>canonical_string\<close> of \<open>crates/core/src/merge.rs\<close>, with \<open>serde_json\<close>'s string
  escaping written out. The desired-state hash is taken over this text, so what matters is
  that it determines the document: \<open>canonical_inj\<close>.
\<close>

section \<open>The code\<close>

text \<open>\<open>serde_json\<close>'s compact string encoding: one byte at a time.\<close>

definition escape_char :: "char \<Rightarrow> str" where
  "escape_char c =
     (if c = CHR 0x22 then [CHR 0x5C, CHR 0x22]
      else if c = CHR 0x5C then [CHR 0x5C, CHR 0x5C]
      else if c = CHR 0x08 then [CHR 0x5C, CHR ''b'']
      else if c = CHR 0x09 then [CHR 0x5C, CHR ''t'']
      else if c = CHR 0x0A then [CHR 0x5C, CHR ''n'']
      else if c = CHR 0x0C then [CHR 0x5C, CHR ''f'']
      else if c = CHR 0x0D then [CHR 0x5C, CHR ''r'']
      else if (of_char c :: nat) < 32
        then [CHR 0x5C, CHR ''u'', CHR ''0'', CHR ''0'',
              digits ! (of_char c div 16), digits ! (of_char c mod 16)]
      else [c])"

definition quote_str :: "str \<Rightarrow> str" where
  "quote_str s = CHR 0x22 # concat (map escape_char s) @ [CHR 0x22]"

text \<open>The separator loop of the array and object cases: a comma before every item but the first.\<close>

fun comma_sep :: "str list \<Rightarrow> str" where
  "comma_sep [] = []"
| "comma_sep [x] = x"
| "comma_sep (x # y # xs) = x @ CHR '','' # comma_sep (y # xs)"

fun canonical_string :: "json \<Rightarrow> str" where
  "canonical_string JNull = ''null''"
| "canonical_string (JBool b) = bool_text b"
| "canonical_string (JNum n) = number_text n"
| "canonical_string (JStr s) = quote_str s"
| "canonical_string (JArr xs) = CHR ''['' # comma_sep (map canonical_string xs) @ '']''"
| "canonical_string (JObj m) =
     CHR ''{'' # comma_sep (map (\<lambda>kv. quote_str (fst kv) @ CHR '':'' # canonical_string (snd kv))
                             (sort_key fst m)) @ ''}''"

section \<open>Strings\<close>

lemma digits_char: "n < 16 \<Longrightarrow> digits ! n \<in> set ''0123456789abcdef''"
  by (metis digits_def digits_length nth_mem)

text \<open>Reading one escaped byte back.\<close>

definition hexval :: "char \<Rightarrow> nat" where
  "hexval d = length (takeWhile (\<lambda>x. x \<noteq> d) digits)"

fun unescape :: "str \<Rightarrow> (char \<times> str) option" where
  "unescape [] = None"
| "unescape (c # r) =
     (if c \<noteq> CHR 0x5C then Some (c, r)
      else case r of
          [] \<Rightarrow> None
        | d # q \<Rightarrow>
            if d = CHR ''b'' then Some (CHR 0x08, q)
            else if d = CHR ''t'' then Some (CHR 0x09, q)
            else if d = CHR ''n'' then Some (CHR 0x0A, q)
            else if d = CHR ''f'' then Some (CHR 0x0C, q)
            else if d = CHR ''r'' then Some (CHR 0x0D, q)
            else if d = CHR ''u''
              then Some (char_of (16 * hexval (q ! 2) + hexval (q ! 3)), drop 4 q)
            else Some (d, q))"

lemma hexval_digits: "n < 16 \<Longrightarrow> hexval (digits ! n) = n"
proof -
  assume n: "n < 16"
  have "takeWhile (\<lambda>x. x \<noteq> digits ! n) digits = take n digits"
    using n by (intro takeWhile_eq_take_P_nth) (auto simp: digits_inj)
  with n show ?thesis by (simp add: hexval_def)
qed

lemma escape_char_cases:
  obtains (special) "c \<in> {CHR 0x22, CHR 0x5C, CHR 0x08, CHR 0x09, CHR 0x0A, CHR 0x0C, CHR 0x0D}"
  | (control) "(of_char c :: nat) < 32"
      "escape_char c = [CHR 0x5C, CHR ''u'', CHR ''0'', CHR ''0'',
         digits ! (of_char c div 16), digits ! (of_char c mod 16)]"
  | (plain) "c \<noteq> CHR 0x5C" "c \<noteq> CHR 0x22" "escape_char c = [c]"
proof (cases "c \<in> {CHR 0x22, CHR 0x5C, CHR 0x08, CHR 0x09, CHR 0x0A, CHR 0x0C, CHR 0x0D}")
  case True
  then show thesis by (rule that(1))
next
  case False
  then have ne: "c \<noteq> CHR 0x22" "c \<noteq> CHR 0x5C" "c \<noteq> CHR 0x08" "c \<noteq> CHR 0x09" "c \<noteq> CHR 0x0A"
    "c \<noteq> CHR 0x0C" "c \<noteq> CHR 0x0D" by blast+
  have esc: "escape_char c = (if (of_char c :: nat) < 32
      then [CHR 0x5C, CHR ''u'', CHR ''0'', CHR ''0'',
            digits ! (of_char c div 16), digits ! (of_char c mod 16)] else [c])"
    unfolding escape_char_def by (simp only: ne if_False)
  show thesis
  proof (cases "(of_char c :: nat) < 32")
    case True
    then show thesis using that(2) esc by simp
  next
    case False
    then show thesis using that(3) ne esc by simp
  qed
qed

lemma unescape_escape: "unescape (escape_char c @ r) = Some (c, r)"
proof (cases c rule: escape_char_cases)
  case special
  then show ?thesis by (elim insertE emptyE) (simp_all add: escape_char_def)
next
  case control
  then show ?thesis by (simp add: hexval_digits mult.commute)
qed simp

lemma escape_inj: "escape_char c @ r = escape_char d @ r' \<Longrightarrow> c = d \<and> r = r'"
  by (metis unescape_escape option.inject prod.inject)

lemma escape_first: "\<exists>e es. escape_char c = e # es \<and> e \<noteq> CHR 0x22"
proof (cases c rule: escape_char_cases)
  case special
  then show ?thesis by (elim insertE emptyE) (simp_all add: escape_char_def)
qed simp_all

lemma escapes_inj:
  "concat (map escape_char s) @ CHR 0x22 # r = concat (map escape_char t) @ CHR 0x22 # r' \<Longrightarrow>
   s = t \<and> r = r'"
proof (induction s arbitrary: t)
  case Nil
  then show ?case
  proof (cases t)
    case (Cons d t')
    obtain e es where "escape_char d = e # es" "e \<noteq> CHR 0x22" using escape_first by blast
    with Nil Cons show ?thesis by simp
  qed simp
next
  case (Cons c s)
  show ?case
  proof (cases t)
    case Nil
    obtain e es where "escape_char c = e # es" "e \<noteq> CHR 0x22" using escape_first by blast
    with Cons.prems Nil show ?thesis by simp
  next
    case (Cons d t')
    with Cons.prems have
      "escape_char c @ (concat (map escape_char s) @ CHR 0x22 # r) =
       escape_char d @ (concat (map escape_char t') @ CHR 0x22 # r')" by simp
    note this [THEN escape_inj]
    with Cons.IH [of t'] Cons show ?thesis by simp
  qed
qed

lemma quote_str_inj: "quote_str s @ r = quote_str t @ r' \<Longrightarrow> s = t \<and> r = r'"
  using escapes_inj [of s r t r'] by (simp add: quote_str_def)

section \<open>Values\<close>

text \<open>What may follow a value inside a document, or at its end.\<close>

definition stop :: "str \<Rightarrow> bool" where
  "stop r \<longleftrightarrow> r = [] \<or> hd r \<in> set '',]}''"

lemma stop_simps [simp]:
  "stop []" "stop (CHR '','' # r)" "stop (CHR '']'' # r)" "stop (CHR ''}'' # r)"
  by (simp_all add: stop_def)

text \<open>The first byte tells the kind of value.\<close>

fun first_ok :: "json \<Rightarrow> char \<Rightarrow> bool" where
  "first_ok JNull c = (c = CHR ''n'')"
| "first_ok (JBool b) c = (c = (if b then CHR ''t'' else CHR ''f''))"
| "first_ok (JNum n) c = (is_digit c \<or> c = CHR ''-'')"
| "first_ok (JStr s) c = (c = CHR 0x22)"
| "first_ok (JArr xs) c = (c = CHR ''['')"
| "first_ok (JObj m) c = (c = CHR ''{'')"

lemma number_text_nonempty: "number_ok n \<Longrightarrow> number_text n \<noteq> []"
  by (cases n) (auto simp: show_int_def)

lemma number_text_first: "number_ok n \<Longrightarrow> is_digit (hd (number_text n)) \<or> hd (number_text n) = CHR ''-''"
proof (cases n)
  case (NInt i)
  then have "hd (number_text n) \<in> set (show_int i)" by (simp add: show_int_def)
  with NInt show ?thesis using show_int_chars by simp
qed auto

lemma number_text_chars: "number_ok n \<Longrightarrow> c \<in> set (number_text n) \<Longrightarrow> number_char c"
proof (cases n)
  case (NInt i)
  assume "c \<in> set (number_text n)"
  with NInt have "is_digit c \<or> c = CHR ''-''" using show_int_chars by simp
  then show ?thesis by (auto simp: number_char_def is_digit_def)
qed (auto simp: list_all_iff)

lemma canonical_first:
  "wf_json v \<Longrightarrow> \<exists>c cs. canonical_string v = c # cs \<and> first_ok v c"
proof (cases v)
  case (JNum n)
  assume "wf_json v"
  then show ?thesis using JNum number_text_nonempty [of n] number_text_first [of n]
    by (cases "number_text n") auto
qed (auto simp: bool_text_def quote_str_def)

lemma first_ok_kind:
  "first_ok v c \<Longrightarrow> first_ok w c \<Longrightarrow>
   (case v of JNull \<Rightarrow> w = JNull | JBool b \<Rightarrow> w = JBool b | JNum _ \<Rightarrow> (\<exists>n. w = JNum n)
    | JStr _ \<Rightarrow> (\<exists>s. w = JStr s) | JArr _ \<Rightarrow> (\<exists>xs. w = JArr xs) | JObj _ \<Rightarrow> (\<exists>m. w = JObj m))"
  by (cases v; cases w) (auto simp: is_digit_def split: if_splits)

lemma first_not_stop: "first_ok v c \<Longrightarrow> c \<notin> set '',]}''"
  by (cases v) (auto simp: is_digit_def split: if_splits)

lemma number_text_inj: "number_ok m \<Longrightarrow> number_ok n \<Longrightarrow> number_text m = number_text n \<Longrightarrow> m = n"
  by (cases m; cases n) (use show_int_chars in \<open>auto dest: show_int_inj\<close>)

lemma number_prefix:
  assumes "number_ok m" "number_ok n" "stop r" "stop r'"
    and "number_text m @ r = number_text n @ r'"
  shows "m = n \<and> r = r'"
proof -
  have stopr: "takeWhile number_char (number_text k @ q) = number_text k"
    if "number_ok k" "stop q" for k q
  proof -
    have "takeWhile number_char q = []"
      using that(2) by (cases q) (auto simp: stop_def number_char_def)
    then show ?thesis using number_text_chars [OF that(1)] by (simp add: takeWhile_append2)
  qed
  from assms stopr [of m r] stopr [of n r'] have "number_text m = number_text n" by simp
  with assms number_text_inj show ?thesis by auto
qed

text \<open>
  Sequences: items that can be told apart, each followed by a separator or the closing
  bracket, can be told apart as a sequence.
\<close>

lemma comma_sep_Cons: "comma_sep (x # xs) = x @ (if xs = [] then [] else CHR '','' # comma_sep xs)"
  by (cases xs) auto

lemma comma_sep_inj:
  assumes item: "\<And>x y r r'. x \<in> set xs \<Longrightarrow> y \<in> set ys \<Longrightarrow> stop r \<Longrightarrow> stop r' \<Longrightarrow>
      f x @ r = f y @ r' \<Longrightarrow> x = y \<and> r = r'"
    and first: "\<And>x. x \<in> set xs \<union> set ys \<Longrightarrow> \<exists>c cs. f x = c # cs \<and> c \<notin> set '',]}''"
    and close: "e \<in> set '']}''"
    and eq: "comma_sep (map f xs) @ e # r = comma_sep (map f ys) @ e # r'"
  shows "xs = ys \<and> r = r'"
  using item first eq
proof (induction xs arbitrary: ys)
  case Nil
  show ?case
  proof (cases ys)
    case Nil
    with Nil.prems show ?thesis by simp
  next
    case (Cons y ys')
    then obtain c cs where "f y = c # cs" "c \<notin> set '',]}''" using Nil.prems(2) [of y] by auto
    with Nil.prems(3) Cons close show ?thesis by (auto simp: comma_sep_Cons)
  qed
next
  case (Cons x xs)
  show ?case
  proof (cases ys)
    case Nil
    obtain c cs where "f x = c # cs" "c \<notin> set '',]}''" using Cons.prems(2) [of x] by auto
    with Cons.prems(3) Nil close show ?thesis by (auto simp: comma_sep_Cons)
  next
    case ys: (Cons y ys')
    let ?tail = "\<lambda>zs q. if zs = [] then e # q else CHR '','' # comma_sep (map f zs) @ e # q"
    have stop_tail: "stop (?tail zs q)" for zs q using close by (auto simp: stop_def)
    from Cons.prems(3) have "f x @ ?tail xs r = f y @ ?tail ys' r'"
      by (auto simp: ys comma_sep_Cons split: if_splits)
    then have xy: "x = y" and tails: "?tail xs r = ?tail ys' r'"
      using Cons.prems(1) [of x y "?tail xs r" "?tail ys' r'"] stop_tail by (auto simp: ys)
    from tails close have "comma_sep (map f xs) @ e # r = comma_sep (map f ys') @ e # r'"
      and emp: "xs = [] \<longleftrightarrow> ys' = []"
      by (auto split: if_splits)
    then have "xs = ys' \<and> r = r'"
      using Cons.prems(1,2) by (intro Cons.IH) (auto simp: ys)
    with xy ys show ?thesis by simp
  qed
qed

lemma sort_key_bt_ok: "bt_ok m \<Longrightarrow> sort_key fst m = m"
  by (rule sort_key_id_if_sorted) (simp add: bt_ok_def strict_sorted_iff)

lemma canonical_prefix:
  "wf_json v \<Longrightarrow> wf_json w \<Longrightarrow> stop r \<Longrightarrow> stop r' \<Longrightarrow>
   canonical_string v @ r = canonical_string w @ r' \<Longrightarrow> v = w \<and> r = r'"
proof (induction v arbitrary: w r r' rule: json_induct)
  case Null
  then show ?case using canonical_first [of w] first_ok_kind [of JNull _ w] by fastforce
next
  case (Bool b)
  obtain c cs where "canonical_string w = c # cs" "first_ok w c"
    using canonical_first [OF Bool.prems(2)] by blast
  with Bool.prems(5) have "first_ok (JBool b) c" by (auto simp: bool_text_def split: if_splits)
  with \<open>first_ok w c\<close> have "w = JBool b" using first_ok_kind [of "JBool b" c w] by simp
  with Bool.prems(5) show ?case by simp
next
  case (Num n)
  obtain c cs where c: "canonical_string w = c # cs" "first_ok w c"
    using canonical_first [OF Num.prems(2)] by blast
  obtain d ds where d: "canonical_string (JNum n) = d # ds" "first_ok (JNum n) d"
    using canonical_first [OF Num.prems(1)] by blast
  from c d Num.prems(5) have "first_ok (JNum n) c" by simp
  with c obtain k where "w = JNum k" using first_ok_kind [of "JNum n" c w] by auto
  with Num.prems show ?case using number_prefix [of n k r r'] by simp
next
  case (Str s)
  obtain c cs where c: "canonical_string w = c # cs" "first_ok w c"
    using canonical_first [OF Str.prems(2)] by blast
  from c Str.prems(5) have "first_ok (JStr s) c" by (simp add: quote_str_def)
  with c obtain t where "w = JStr t" using first_ok_kind [of "JStr s" c w] by auto
  with Str.prems(5) show ?case using quote_str_inj [of s r t r'] by simp
next
  case (Arr xs)
  obtain c cs where c: "canonical_string w = c # cs" "first_ok w c"
    using canonical_first [OF Arr.prems(2)] by blast
  from c Arr.prems(5) have "first_ok (JArr xs) c" by simp
  with c obtain ys where w: "w = JArr ys" using first_ok_kind [of "JArr xs" c w] by auto
  have "xs = ys \<and> r = r'"
  proof (rule comma_sep_inj [where f = canonical_string and e = "CHR '']''"])
    show "canonical_string x @ q = canonical_string y @ q' \<Longrightarrow> x = y \<and> q = q'"
      if "x \<in> set xs" "y \<in> set ys" "stop q" "stop q'" for x y q q'
      using Arr.IH [OF that(1)] that Arr.prems(1,2) w by auto
    show "\<exists>c cs. canonical_string x = c # cs \<and> c \<notin> set '',]}''" if "x \<in> set xs \<union> set ys" for x
      using canonical_first [of x] first_not_stop that Arr.prems(1,2) w by (metis UnE wf_json.simps(2))
  qed (use Arr.prems(5) w in auto)
  with w show ?case by simp
next
  case (Obj m)
  obtain c cs where c: "canonical_string w = c # cs" "first_ok w c"
    using canonical_first [OF Obj.prems(2)] by blast
  from c Obj.prems(5) have "first_ok (JObj m) c" by simp
  with c obtain n where w: "w = JObj n" using first_ok_kind [of "JObj m" c w] by auto
  let ?f = "\<lambda>kv. quote_str (fst kv) @ CHR '':'' # canonical_string (snd kv)"
  have "m = n \<and> r = r'"
  proof (rule comma_sep_inj [where f = ?f and e = "CHR ''}''"])
    show "?f x @ q = ?f y @ q' \<Longrightarrow> x = y \<and> q = q'"
      if "x \<in> set m" "y \<in> set n" "stop q" "stop q'" for x y q q'
    proof -
      assume "?f x @ q = ?f y @ q'"
      then have "fst x = fst y" "canonical_string (snd x) @ q = canonical_string (snd y) @ q'"
        using quote_str_inj [of "fst x" "CHR '':'' # canonical_string (snd x) @ q" "fst y"
            "CHR '':'' # canonical_string (snd y) @ q'"] by auto
      moreover have "(fst x, snd x) \<in> set m" using that(1) by simp
      ultimately show ?thesis
        using Obj.IH [of "fst x" "snd x" "snd y" q q'] that Obj.prems(1,2) w
        by (auto simp: prod_eq_iff)
    qed
    show "\<exists>c cs. ?f x = c # cs \<and> c \<notin> set '',]}''" for x by (simp add: quote_str_def)
  qed (use Obj.prems w in \<open>auto simp: sort_key_bt_ok\<close>)
  with w show ?case by simp
qed

text \<open>
  C38: the canonical text determines the document: two values with the same text are the
  same value, so hashing the text distinguishes whatever the documents distinguish.
\<close>

theorem canonical_inj:
  assumes "wf_json v" and "wf_json w" and "canonical_string v = canonical_string w"
  shows "v = w"
  using canonical_prefix [of v w "[]" "[]"] assms by simp

theorem canonical_inj_witness:
  "JObj [(''a'', JNum (NInt 2)), (''z'', JArr [JStr ''x,y'', JNull])]
     = JObj [(''a'', JNum (NInt 2)), (''z'', JArr [JStr ''x,y'', JNull])]
   \<and> canonical_string (JObj [(''a'', JNum (NInt 2)), (''z'', JArr [JStr ''x,y'', JNull])])
     = [CHR ''{'', CHR 0x22, CHR ''a'', CHR 0x22, CHR '':'', CHR ''2'', CHR '','',
        CHR 0x22, CHR ''z'', CHR 0x22, CHR '':'', CHR ''['', CHR 0x22, CHR ''x'', CHR '','',
        CHR ''y'', CHR 0x22, CHR '','', CHR ''n'', CHR ''u'', CHR ''l'', CHR ''l'',
        CHR '']'', CHR ''}'']"
  by (rule conjI, rule canonical_inj)
     (simp_all add: bt_ok_def quote_str_def escape_char_def show_int_def show_nat.simps digits_def
       sort_key_bt_ok)

text \<open>The text does not depend on the order in which an object's members are stored.\<close>

lemma canonical_key_order:
  "distinct (map fst m) \<Longrightarrow> set m' = set m \<Longrightarrow> distinct (map fst m') \<Longrightarrow>
   canonical_string (JObj m) = canonical_string (JObj m')"
proof -
  assume d: "distinct (map fst m)" and s: "set m' = set m" and d': "distinct (map fst m')"
  have "sort_key fst m = sort_key fst m'"
  proof (rule map_sorted_distinct_set_unique)
    show "inj_on fst (set (sort_key fst m) \<union> set (sort_key fst m'))"
      using d s by (simp add: distinct_map)
    have "distinct (map fst (sort_key fst xs))" if "distinct (map fst xs)" for xs :: "(str \<times> json) list"
      using that by (metis distinct_map distinct_sort set_sort)
    with d d' show "distinct (map fst (sort_key fst m))" "distinct (map fst (sort_key fst m'))" by auto
  qed (use s in auto)
  then show ?thesis by simp
qed

end
