(* ===== verification/Merge.thy ===== *)
theory Merge
  imports Json
begin

text \<open>
  \<open>crates/core/src/merge.rs\<close>: JSON Merge Patch. \<open>merge_patch\<close> and
  \<open>strip_nulls\<close> are the code's functions; \<open>rfc_merge\<close> is the algorithm of RFC 7396
  section 2, with the undefined target as \<open>None\<close>.
\<close>

section \<open>The code\<close>

fun strip_nulls :: "json \<Rightarrow> json" where
  "strip_nulls (JObj m) =
     JObj (bt_collect (map (\<lambda>kv. (fst kv, strip_nulls (snd kv)))
                           (filter (\<lambda>kv. snd kv \<noteq> JNull) m)))"
| "strip_nulls v = v"

fun merge_patch :: "json \<Rightarrow> json \<Rightarrow> json"
and merge_entries :: "(str \<times> json) list \<Rightarrow> (str \<times> json) list \<Rightarrow> (str \<times> json) list" where
  "merge_patch t (JObj pm) = JObj (merge_entries (if is_object t then entries t else []) pm)"
| "merge_patch t p = p"
| "merge_entries tm [] = tm"
| "merge_entries tm ((k, v) # pm) =
     merge_entries
       (if v = JNull then bt_remove k tm
        else case bt_get tm k of
            Some e \<Rightarrow> bt_insert k (merge_patch e v) tm
          | None \<Rightarrow> bt_insert k (strip_nulls v) tm)
       pm"

section \<open>RFC 7396, section 2\<close>

fun rfc_merge :: "json option \<Rightarrow> json \<Rightarrow> json"
and rfc_entries :: "(str \<times> json) list \<Rightarrow> (str \<times> json) list \<Rightarrow> (str \<times> json) list" where
  "rfc_merge t (JObj pm) =
     JObj (rfc_entries (case t of Some (JObj tm) \<Rightarrow> tm | _ \<Rightarrow> []) pm)"
| "rfc_merge t p = p"
| "rfc_entries tm [] = tm"
| "rfc_entries tm ((k, v) # pm) =
     rfc_entries
       (if v = JNull then bt_remove k tm else bt_insert k (rfc_merge (bt_get tm k) v) tm)
       pm"

section \<open>Lookup in a merged object\<close>

lemma entries_if_object [simp]: "(if is_object t then entries t else []) = entries t"
  by (cases t) auto

lemma bt_ok_merge_entries [simp]: "bt_ok tm \<Longrightarrow> bt_ok (merge_entries tm pm)"
  by (induction pm arbitrary: tm) (auto split: option.splits)

lemma merge_entries_lookup:
  "bt_ok tm \<Longrightarrow> bt_ok pm \<Longrightarrow>
   bt_get (merge_entries tm pm) k =
     (case bt_get pm k of
        None \<Rightarrow> bt_get tm k
      | Some v \<Rightarrow> if v = JNull then None
          else Some (case bt_get tm k of Some e \<Rightarrow> merge_patch e v | None \<Rightarrow> strip_nulls v))"
proof (induction pm arbitrary: tm)
  case Nil
  then show ?case by simp
next
  case (Cons e pm)
  obtain k' v where e: "e = (k', v)" by (cases e)
  have notin: "bt_get pm k' = None"
    using Cons.prems(2) by (auto simp: e bt_ok_Cons map_of_eq_None_iff)
  let ?tm = "if v = JNull then bt_remove k' tm
        else case bt_get tm k' of
            Some e \<Rightarrow> bt_insert k' (merge_patch e v) tm
          | None \<Rightarrow> bt_insert k' (strip_nulls v) tm"
  have "bt_ok ?tm" using Cons.prems(1) by (auto split: option.splits)
  moreover have "bt_ok pm" using Cons.prems(2) by (simp add: e bt_ok_Cons)
  ultimately have IH: "bt_get (merge_entries ?tm pm) k =
     (case bt_get pm k of
        None \<Rightarrow> bt_get ?tm k
      | Some v \<Rightarrow> if v = JNull then None
          else Some (case bt_get ?tm k of Some e \<Rightarrow> merge_patch e v | None \<Rightarrow> strip_nulls v))"
    by (rule Cons.IH)
  show ?case
  proof (cases "k = k'")
    case True
    with IH notin Cons.prems(1) show ?thesis
      by (cases "v = JNull"; cases "bt_get tm k'") (simp_all add: e)
  next
    case False
    then have same: "bt_get ?tm k = bt_get tm k"
      using Cons.prems(1) by (auto split: option.splits)
    have step: "merge_entries tm (e # pm) = merge_entries ?tm pm" by (simp add: e)
    show ?thesis unfolding step IH same using False by (simp add: e)
  qed
qed

lemma strip_nulls_lookup:
  "bt_ok m \<Longrightarrow> bt_get (entries (strip_nulls (JObj m))) k =
     (case bt_get m k of
        Some v \<Rightarrow> if v = JNull then None else Some (strip_nulls v)
      | None \<Rightarrow> None)"
  by (simp add: bt_collect_id bt_ok_map_values bt_ok_filter bt_get_map_values
      bt_get_filter_values [where P = "\<lambda>v. v \<noteq> JNull"] split: option.splits)

text \<open>A fresh insertion is a merge into nothing: both drop every null member.\<close>

lemma strip_nulls_eq_merge: "wf_json v \<Longrightarrow> strip_nulls v = merge_patch JNull v"
proof (cases v)
  case (JObj m)
  assume "wf_json v"
  then have ok: "bt_ok m" by (simp add: JObj)
  have "bt_collect (map (\<lambda>kv. (fst kv, strip_nulls (snd kv)))
      (filter (\<lambda>kv. snd kv \<noteq> JNull) m)) = merge_entries [] m"
  proof (rule bt_eqI)
    show "bt_get (bt_collect (map (\<lambda>kv. (fst kv, strip_nulls (snd kv)))
        (filter (\<lambda>kv. snd kv \<noteq> JNull) m))) = bt_get (merge_entries [] m)" (is "?l = ?r")
    proof
      fix k
      have "?l k = (case bt_get m k of
          Some v \<Rightarrow> if v = JNull then None else Some (strip_nulls v) | None \<Rightarrow> None)"
        using strip_nulls_lookup [OF ok, of k] by simp
      also have "\<dots> = ?r k" by (subst merge_entries_lookup [OF _ ok]) (auto split: option.splits)
      finally show "?l k = ?r k" .
    qed
  qed auto
  then show ?thesis by (simp add: JObj)
qed auto

text \<open>The effect of one member of a patch.\<close>

lemma merge_lookup:
  assumes "wf_json t" "wf_json (JObj pm)"
  shows "get_member (merge_patch t (JObj pm)) k =
     (case bt_get pm k of
        None \<Rightarrow> get_member t k
      | Some v \<Rightarrow> if v = JNull then None
          else Some (merge_patch (case get_member t k of Some e \<Rightarrow> e | None \<Rightarrow> JNull) v))"
proof -
  have "wf_json v" if "bt_get pm k = Some v" for v
    using that assms(2) by (metis entries.simps(1) wf_json_entry)
  then show ?thesis
    using assms
    by (simp add: get_member_def merge_entries_lookup bt_ok_entries
        strip_nulls_eq_merge split: option.splits)
qed

section \<open>Well-formedness\<close>

lemma strip_nulls_wf: "wf_json v \<Longrightarrow> wf_json (strip_nulls v)"
proof (induction v rule: json_induct)
  case (Obj m)
  then have "bt_ok (map (\<lambda>kv. (fst kv, strip_nulls (snd kv))) (filter (\<lambda>kv. snd kv \<noteq> JNull) m))"
    by (intro bt_ok_map_values bt_ok_filter) simp
  with Obj show ?case by (auto simp: bt_collect_id)
qed auto

lemma merge_wf_aux:
  "wf_json t \<Longrightarrow> wf_json p \<Longrightarrow> wf_json (merge_patch t p)"
  "wf_json (JObj tm) \<Longrightarrow> \<forall>kv \<in> set pm. wf_json (snd kv) \<Longrightarrow> wf_json (JObj (merge_entries tm pm))"
proof (induction t p and tm pm rule: merge_patch_merge_entries.induct)
  case (1 t pm)
  have "wf_json (JObj (entries t))" using "1.prems"(1) by (cases t) auto
  with 1 show ?case by simp
next
  case (4 tm k v pm)
  let ?tm = "if v = JNull then bt_remove k tm
        else case bt_get tm k of
            Some e \<Rightarrow> bt_insert k (merge_patch e v) tm
          | None \<Rightarrow> bt_insert k (strip_nulls v) tm"
  have v: "wf_json v" using "4.prems"(2) by simp
  have "wf_json (JObj ?tm)"
  proof -
    have sub: "wf_json (JObj (bt_insert k w tm))" if "wf_json w" for w
      using that "4.prems"(1) bt_set_insert_subset [of k w tm] by fastforce
    have rem: "wf_json (JObj (bt_remove k tm))"
      using "4.prems"(1) bt_set_remove_subset [of k tm] by auto
    have "wf_json (merge_patch e v)" if "v \<noteq> JNull" "bt_get tm k = Some e" for e
      using that v "4.IH"(1) "4.prems"(1) wf_json_entry [of "JObj tm" k e] by simp
    with sub [OF this] sub [OF strip_nulls_wf [OF v]] rem show ?thesis
      by (cases "v = JNull"; cases "bt_get tm k") (simp_all only: if_True if_False option.case sub simp_thms)
  qed
  with "4.IH"(2) "4.prems"(2) show ?case by simp
qed auto

lemmas merge_wf = merge_wf_aux(1)

section \<open>Properties\<close>

lemma rfc_entries_eq:
  "(\<And>k v. (k, v) \<in> set pm \<Longrightarrow> wf_json v) \<Longrightarrow>
   (\<And>k v t. (k, v) \<in> set pm \<Longrightarrow> rfc_merge t v = merge_patch (case t of Some e \<Rightarrow> e | None \<Rightarrow> JNull) v) \<Longrightarrow>
   rfc_entries tm pm = merge_entries tm pm"
proof (induction pm arbitrary: tm)
  case (Cons e pm)
  obtain k v where e: "e = (k, v)" by (cases e)
  have "wf_json v" using Cons.prems(1) [of k v] by (simp add: e)
  moreover have "rfc_merge t v = merge_patch (case t of Some e \<Rightarrow> e | None \<Rightarrow> JNull) v" for t
    using Cons.prems(2) [of k v] by (simp add: e)
  moreover have "rfc_entries tm pm = merge_entries tm pm" for tm
    by (rule Cons.IH) (rule Cons.prems; force)+
  ultimately show ?case by (simp add: e strip_nulls_eq_merge split: option.splits)
qed simp

lemma rfc_merge_eq_aux:
  "wf_json p \<Longrightarrow> rfc_merge t p = merge_patch (case t of Some e \<Rightarrow> e | None \<Rightarrow> JNull) p"
proof (induction p arbitrary: t rule: json_induct)
  case (Obj pm)
  have "rfc_entries tm pm = merge_entries tm pm" for tm
  proof (rule rfc_entries_eq)
    fix k v assume kv: "(k, v) \<in> set pm"
    then show "wf_json v" using Obj.prems by auto
    then show "rfc_merge t v = merge_patch (case t of Some e \<Rightarrow> e | None \<Rightarrow> JNull) v" for t
      by (rule Obj.IH [OF kv])
  qed
  moreover have "(case t of Some (JObj tm) \<Rightarrow> tm | _ \<Rightarrow> []) =
      entries (case t of Some e \<Rightarrow> e | None \<Rightarrow> JNull)"
    by (auto split: option.splits json.splits)
  ultimately show ?case by simp
qed auto

text \<open>
  C37: \<open>merge_patch\<close> is the MergePatch algorithm of RFC 7396 for every target and every
  patch document, although it treats a member the target lacks by \<open>strip_nulls\<close> instead
  of a recursive merge into an undefined target.
\<close>

theorem merge_patch_is_rfc7396:
  assumes "wf_json p"
  shows "merge_patch t p = rfc_merge (Some t) p"
  by (simp add: rfc_merge_eq_aux assms)

theorem merge_patch_is_rfc7396_witness:
  "merge_patch (JObj []) (JObj [(''a'', JObj [(''bb'', JObj [(''ccc'', JNull)])])]) =
     rfc_merge (Some (JObj [])) (JObj [(''a'', JObj [(''bb'', JObj [(''ccc'', JNull)])])])
   \<and> merge_patch (JObj []) (JObj [(''a'', JObj [(''bb'', JObj [(''ccc'', JNull)])])]) =
     JObj [(''a'', JObj [(''bb'', JObj [])])]"
  by (rule conjI, rule merge_patch_is_rfc7396) (simp_all add: bt_ok_def bt_collect_def)

lemma merge_idem_aux:
  "wf_json p \<Longrightarrow> wf_json t \<Longrightarrow> merge_patch (merge_patch t p) p = merge_patch t p"
proof (induction p arbitrary: t rule: json_induct)
  case (Obj pm)
  let ?m = "merge_patch t (JObj pm)"
  have wf: "wf_json ?m" "wf_json (merge_patch ?m (JObj pm))"
    using Obj.prems by (blast intro: merge_wf)+
  have "get_member (merge_patch ?m (JObj pm)) k = get_member ?m k" for k
  proof (cases "bt_get pm k")
    case None
    then show ?thesis using merge_lookup [OF wf(1) Obj.prems(1), of k] by simp
  next
    case (Some v)
    then have v: "wf_json v" "(k, v) \<in> set pm"
      using Obj.prems(1) by (auto dest!: map_of_SomeD)
    have IH: "merge_patch (merge_patch t' v) v = merge_patch t' v" if "wf_json t'" for t'
      by (rule Obj.IH [OF v(2) v(1) that])
    have wfe: "wf_json (case get_member t k of Some e \<Rightarrow> e | None \<Rightarrow> JNull)"
      using Obj.prems(2) by (auto simp: get_member_def dest: wf_json_entry split: option.splits)
    show ?thesis
      using merge_lookup [OF wf(1) Obj.prems(1), of k]
        merge_lookup [OF Obj.prems(2) Obj.prems(1), of k] IH [OF wfe] Some
      by auto
  qed
  moreover obtain a b where ab: "merge_patch ?m (JObj pm) = JObj a" "?m = JObj b" by simp
  moreover have "bt_ok a" "bt_ok b"
    using wf [THEN bt_ok_entries] ab by (metis entries.simps(1))+
  ultimately have "a = b" by (intro bt_eqI) (auto simp: get_member_def fun_eq_iff)
  with ab show ?case by simp
qed auto

text \<open>
  Applying the same patch twice is applying it once, so a poll that re-applies a layer
  it has already applied changes nothing.
\<close>

theorem merge_patch_idempotent:
  assumes "wf_json t" and "wf_json p"
  shows "merge_patch (merge_patch t p) p = merge_patch t p"
  using assms by (rule merge_idem_aux [rotated])

theorem merge_patch_idempotent_witness:
  "merge_patch (merge_patch (JObj [(''a'', JStr ''x''), (''b'', JNull)])
       (JObj [(''a'', JNull), (''c'', JObj [(''d'', JNum (NInt 1)), (''e'', JNull)])]))
     (JObj [(''a'', JNull), (''c'', JObj [(''d'', JNum (NInt 1)), (''e'', JNull)])])
   = merge_patch (JObj [(''a'', JStr ''x''), (''b'', JNull)])
       (JObj [(''a'', JNull), (''c'', JObj [(''d'', JNum (NInt 1)), (''e'', JNull)])])"
  by (rule merge_patch_idempotent) (simp_all add: bt_ok_def)

end
