(* ===== verification/Fact_Path.thy ===== *)
theory Fact_Path
  imports Json
begin

text \<open>
  \<open>crates/core/src/selector/path.rs\<close>: a dotted path into a facts document. \<open>parse\<close>
  is the code's loop, with the remaining text as its state; \<open>child\<close> and
  \<open>pick_path\<close> are the two functions that spell a path, and \<open>resolve\<close> reads one.
  Errors are the code's texts.
\<close>

section \<open>The code\<close>

definition MAX_FACT_PATH_LEN :: nat where
  "MAX_FACT_PATH_LEN = 512"

record segment =
  seg_key :: str
  seg_ids :: "str list"

record fact_path =
  raw :: str
  segments :: "segment list"

definition is_delim :: "char \<Rightarrow> bool" where
  "is_delim c \<longleftrightarrow> c \<in> set ''.[]''"

definition not_close :: "char \<Rightarrow> bool" where
  "not_close c \<longleftrightarrow> c \<noteq> CHR '']''"

text \<open>The inner loop: the bracketed ids after a key.\<close>

function parse_ids :: "str \<Rightarrow> str + (str list \<times> str)" where
  "parse_ids rest =
     (case rest of
        [] \<Rightarrow> Inr ([], rest)
      | c # after \<Rightarrow>
          if c \<noteq> CHR ''['' then Inr ([], rest)
          else if dropWhile not_close after = [] then Inl ''unclosed [''
          else if takeWhile not_close after = [] then Inl ''empty [id]''
          else case parse_ids (tl (dropWhile not_close after)) of
              Inl e \<Rightarrow> Inl e
            | Inr (ids, r) \<Rightarrow> Inr (takeWhile not_close after # ids, r))"
  by pat_completeness auto
termination
  by (relation "measure length")
     (auto simp: less_Suc_eq_le intro: le_trans [OF diff_le_self length_dropWhile_le])

declare parse_ids.simps [simp del]

lemma parse_ids_stop: "rest = [] \<or> hd rest \<noteq> CHR ''['' \<Longrightarrow> parse_ids rest = Inr ([], rest)"
  by (subst parse_ids.simps) (auto split: list.splits)

lemma parse_ids_open:
  "parse_ids (CHR ''['' # after) =
     (if dropWhile not_close after = [] then Inl ''unclosed [''
      else if takeWhile not_close after = [] then Inl ''empty [id]''
      else case parse_ids (tl (dropWhile not_close after)) of
          Inl e \<Rightarrow> Inl e
        | Inr (ids, r) \<Rightarrow> Inr (takeWhile not_close after # ids, r))"
  by (subst parse_ids.simps) (simp only: list.case simp_thms if_False)

lemma parse_ids_openE:
  assumes "parse_ids (CHR ''['' # after) = Inr (ids, r)"
  obtains ids' where "dropWhile not_close after \<noteq> []" "takeWhile not_close after \<noteq> []"
    "parse_ids (tl (dropWhile not_close after)) = Inr (ids', r)"
    "ids = takeWhile not_close after # ids'"
  using assms by (auto simp only: parse_ids_open split: if_splits sum.splits prod.splits)

lemma parse_ids_rest: "parse_ids rest = Inr (ids, r) \<Longrightarrow> length r \<le> length rest"
proof (induction rest arbitrary: ids r rule: parse_ids.induct)
  case (1 rest)
  show ?case
  proof (cases "rest = [] \<or> hd rest \<noteq> CHR ''[''")
    case True
    with "1.prems" show ?thesis using parse_ids_stop [OF True] by simp
  next
    case False
    then obtain after where rest: "rest = CHR ''['' # after" by (cases rest) auto
    with "1.prems" obtain ids' where ids: "dropWhile not_close after \<noteq> []"
      "takeWhile not_close after \<noteq> []" "parse_ids (tl (dropWhile not_close after)) = Inr (ids', r)"
      by (auto elim: parse_ids_openE)
    then have "length r \<le> length (tl (dropWhile not_close after))"
      using "1.IH" [OF rest] by simp
    also have "\<dots> \<le> length after" by (simp add: le_trans [OF diff_le_self length_dropWhile_le])
    finally show ?thesis by (simp add: rest)
  qed
qed

text \<open>The outer loop: one segment, then a dot or the end.\<close>

function parse_segments :: "str \<Rightarrow> str + segment list" where
  "parse_segments rest =
     (let key = takeWhile (\<lambda>c. \<not> is_delim c) rest in
      if key = [] then Inl ''empty key''
      else case parse_ids (dropWhile (\<lambda>c. \<not> is_delim c) rest) of
          Inl e \<Rightarrow> Inl e
        | Inr (ids, r) \<Rightarrow>
            (case r of
               [] \<Rightarrow> Inr [\<lparr>seg_key = key, seg_ids = ids\<rparr>]
             | c # r' \<Rightarrow>
                 if c = CHR ''.'' then
                   (case parse_segments r' of
                      Inl e \<Rightarrow> Inl e
                    | Inr segs \<Rightarrow> Inr (\<lparr>seg_key = key, seg_ids = ids\<rparr> # segs))
                 else Inl ''expected . after ]''))"
  by pat_completeness auto
termination
proof (relation "measure length", simp_all only: in_measure wf_measure)
  fix rest key :: str and x ids c r'
  assume "parse_ids (dropWhile (\<lambda>c. \<not> is_delim c) rest) = Inr x"
    and "(ids, c # r') = x"
  then have "length (c # r') \<le> length (dropWhile (\<lambda>c. \<not> is_delim c) rest)"
    using parse_ids_rest by blast
  also have "\<dots> \<le> length rest" by (rule length_dropWhile_le)
  finally show "length r' < length rest" by simp
qed

declare parse_segments.simps [simp del]

definition parse :: "str \<Rightarrow> str + fact_path" where
  "parse path =
     (if path = [] then Inl ''empty''
      else case parse_segments path of
          Inl e \<Rightarrow> Inl e
        | Inr segs \<Rightarrow> Inr \<lparr>raw = path, segments = segs\<rparr>)"

text \<open>\<open>TryFrom<String>\<close>: what deserializing a path does.\<close>

definition fact_path_try_from :: "str \<Rightarrow> str + fact_path" where
  "fact_path_try_from s =
     (if length s > MAX_FACT_PATH_LEN then Inl ''fact path too long''
      else case parse s of Inl e \<Rightarrow> Inl (''bad fact path: '' @ e) | Inr p \<Rightarrow> Inr p)"

definition child :: "str \<Rightarrow> str \<Rightarrow> bool \<Rightarrow> str option" where
  "child parent key in_record =
     (if key = [] then None
      else let path =
          (if \<exists>c \<in> set key. is_delim c then
             (if parent = [] \<or> in_record \<or> CHR '']'' \<in> set key then None
              else Some (parent @ ''['' @ key @ '']''))
           else if parent = [] then Some key
           else Some (parent @ ''.'' @ key))
        in case path of
            None \<Rightarrow> None
          | Some p \<Rightarrow> if length p \<le> MAX_FACT_PATH_LEN then Some p else None)"

definition pick_path :: "str \<Rightarrow> str \<Rightarrow> str option" where
  "pick_path parent rid =
     (if parent = [] \<or> rid = [] \<or> CHR '']'' \<in> set rid then None
      else if length (parent @ ''['' @ rid @ '']'') \<le> MAX_FACT_PATH_LEN
        then Some (parent @ ''['' @ rid @ '']'') else None)"

text \<open>\<open>[id]\<close> applied to one value: the free function \<open>pick\<close>.\<close>

fun pick :: "json \<Rightarrow> str \<Rightarrow> json list" where
  "pick (JArr items) rid = filter (\<lambda>i. Option.bind (get_member i ''id'') as_str = Some rid) items"
| "pick (JObj m) rid = (case bt_get m rid of Some v \<Rightarrow> [v] | None \<Rightarrow> [])"
| "pick _ rid = []"

text \<open>A key stepped into: a map's entry, or the entry of every record of a list.\<close>

fun step_key :: "str \<Rightarrow> json \<Rightarrow> json list" where
  "step_key k (JObj m) = (case bt_get m k of Some v \<Rightarrow> [v] | None \<Rightarrow> [])"
| "step_key k (JArr items) = List.map_filter (\<lambda>i. get_member i k) items"
| "step_key k _ = []"

definition resolve_segment :: "segment \<Rightarrow> json list \<Rightarrow> json list" where
  "resolve_segment seg current =
     fold (\<lambda>rid vs. concat (map (\<lambda>v. pick v rid) vs)) (seg_ids seg)
       (concat (map (step_key (seg_key seg)) current))"

definition resolve :: "fact_path \<Rightarrow> json \<Rightarrow> json list" where
  "resolve p doc = fold resolve_segment (segments p) [doc]"

section \<open>Printing, and the round trips\<close>

definition id_text :: "str \<Rightarrow> str" where
  "id_text i = ''['' @ i @ '']''"

definition segment_text :: "segment \<Rightarrow> str" where
  "segment_text s = seg_key s @ concat (map id_text (seg_ids s))"

fun path_text :: "segment list \<Rightarrow> str" where
  "path_text [] = []"
| "path_text [s] = segment_text s"
| "path_text (s # t # ss) = segment_text s @ CHR ''.'' # path_text (t # ss)"

definition id_ok :: "str \<Rightarrow> bool" where
  "id_ok i \<longleftrightarrow> i \<noteq> [] \<and> CHR '']'' \<notin> set i"

definition segment_ok :: "segment \<Rightarrow> bool" where
  "segment_ok s \<longleftrightarrow> seg_key s \<noteq> [] \<and> (\<forall>c \<in> set (seg_key s). \<not> is_delim c) \<and> list_all id_ok (seg_ids s)"

lemma path_text_Cons:
  "path_text (s # ss) = segment_text s @ (if ss = [] then [] else CHR ''.'' # path_text ss)"
  by (cases ss) auto

lemma takeWhile_stop: "\<forall>x \<in> set xs. P x \<Longrightarrow> \<not> P y \<Longrightarrow> takeWhile P (xs @ y # ys) = xs"
  by (induction xs) auto

lemma dropWhile_stop: "\<forall>x \<in> set xs. P x \<Longrightarrow> \<not> P y \<Longrightarrow> dropWhile P (xs @ y # ys) = y # ys"
  by (induction xs) auto

lemma span_stop:
  "\<forall>x \<in> set xs. P x \<Longrightarrow> q = [] \<or> \<not> P (hd q) \<Longrightarrow>
   takeWhile P (xs @ q) = xs \<and> dropWhile P (xs @ q) = q"
  by (induction xs) (cases q, auto)

lemma parse_ids_print:
  "list_all id_ok ids \<Longrightarrow> r = [] \<or> hd r \<noteq> CHR ''['' \<Longrightarrow>
   parse_ids (concat (map id_text ids) @ r) = Inr (ids, r)"
proof (induction ids)
  case Nil
  then show ?case using parse_ids_stop [of r] by simp
next
  case (Cons i ids)
  have i: "i \<noteq> []" "\<forall>c \<in> set i. not_close c"
    using Cons.prems(1) by (auto simp: id_ok_def not_close_def)
  have close: "\<not> not_close (CHR '']'')" by (simp add: not_close_def)
  let ?q = "concat (map id_text ids) @ r"
  have "concat (map id_text (i # ids)) @ r = CHR ''['' # i @ CHR '']'' # ?q"
    by (simp add: id_text_def)
  moreover have "takeWhile not_close (i @ CHR '']'' # ?q) = i"
    "dropWhile not_close (i @ CHR '']'' # ?q) = CHR '']'' # ?q"
    using takeWhile_stop [OF i(2) close] dropWhile_stop [OF i(2) close] by blast+
  moreover have "parse_ids ?q = Inr (ids, r)" using Cons by simp
  ultimately show ?case using i(1) by (simp only: parse_ids_open) simp
qed

lemma print_parse_ids:
  "parse_ids rest = Inr (ids, r) \<Longrightarrow>
   rest = concat (map id_text ids) @ r \<and> list_all id_ok ids \<and> (r = [] \<or> hd r \<noteq> CHR ''['')"
proof (induction rest arbitrary: ids r rule: parse_ids.induct)
  case (1 rest)
  show ?case
  proof (cases "rest = [] \<or> hd rest \<noteq> CHR ''[''")
    case True
    with "1.prems" show ?thesis using parse_ids_stop [OF True] by auto
  next
    case False
    then obtain after where rest: "rest = CHR ''['' # after" by (cases rest) auto
    let ?id = "takeWhile not_close after" and ?tail = "dropWhile not_close after"
    from "1.prems" obtain ids' where tail: "?tail \<noteq> []" and nonempty: "?id \<noteq> []"
      and rec: "parse_ids (tl ?tail) = Inr (ids', r)" and ids: "ids = ?id # ids'"
      unfolding rest by (rule parse_ids_openE)
    have "hd ?tail = CHR '']''" using hd_dropWhile [OF tail] by (simp add: not_close_def)
    then have "?tail = CHR '']'' # tl ?tail" using tail by (metis list.collapse)
    then have after: "after = ?id @ CHR '']'' # tl ?tail" by (metis takeWhile_dropWhile_id)
    have IH: "tl ?tail = concat (map id_text ids') @ r \<and> list_all id_ok ids' \<and> (r = [] \<or> hd r \<noteq> CHR ''['')"
      using "1.IH" [OF rest _ tail nonempty rec] by simp
    have "id_ok ?id" using nonempty by (auto simp: id_ok_def not_close_def dest: set_takeWhileD)
    moreover have "rest = concat (map id_text ids) @ r"
      using after IH by (simp add: rest ids id_text_def)
    ultimately show ?thesis using IH by (simp add: ids)
  qed
qed

lemma segment_eta: "\<lparr>seg_key = seg_key s, seg_ids = seg_ids s\<rparr> = s"
  by simp

lemma parse_print_segments:
  "ss \<noteq> [] \<Longrightarrow> list_all segment_ok ss \<Longrightarrow> parse_segments (path_text ss) = Inr ss"
proof (induction ss)
  case (Cons s ss)
  have s: "seg_key s \<noteq> []" "\<forall>c \<in> set (seg_key s). \<not> is_delim c" "list_all id_ok (seg_ids s)"
    using Cons.prems(2) by (auto simp: segment_ok_def)
  let ?r = "if ss = [] then [] else CHR ''.'' # path_text ss"
  let ?q = "concat (map id_text (seg_ids s)) @ ?r"
  have spelled: "path_text (s # ss) = seg_key s @ ?q"
    by (simp add: path_text_Cons segment_text_def)
  have "?q = [] \<or> is_delim (hd ?q)"
    by (cases "seg_ids s") (auto simp: id_text_def is_delim_def)
  then have key: "takeWhile (\<lambda>c. \<not> is_delim c) (seg_key s @ ?q) = seg_key s"
    "dropWhile (\<lambda>c. \<not> is_delim c) (seg_key s @ ?q) = ?q"
    using span_stop [of "seg_key s" "\<lambda>c. \<not> is_delim c" ?q] s(2) by blast+
  have ids: "parse_ids ?q = Inr (seg_ids s, ?r)"
    using s(3) by (intro parse_ids_print) auto
  have step: "parse_segments (path_text (s # ss)) =
      (case ?r of
         [] \<Rightarrow> Inr [s]
       | c # r' \<Rightarrow>
           if c = CHR ''.'' then
             (case parse_segments r' of Inl e \<Rightarrow> Inl e | Inr segs \<Rightarrow> Inr (s # segs))
           else Inl ''expected . after ]'')"
    unfolding spelled
    by (subst parse_segments.simps) (simp only: key ids Let_def s(1) if_False sum.case prod.case segment_eta)
  show ?case
  proof (cases "ss = []")
    case True
    have "parse_segments (path_text (s # ss)) = Inr [s]" unfolding step by (simp add: True)
    then show ?thesis by (simp add: True)
  next
    case False
    then show ?thesis using Cons unfolding step by simp
  qed
qed simp

lemma print_parse_segments:
  "parse_segments rest = Inr ss \<Longrightarrow> path_text ss = rest \<and> ss \<noteq> [] \<and> list_all segment_ok ss"
proof (induction rest arbitrary: ss rule: parse_segments.induct)
  case (1 rest)
  let ?key = "takeWhile (\<lambda>c. \<not> is_delim c) rest" and ?q = "dropWhile (\<lambda>c. \<not> is_delim c) rest"
  from "1.prems" obtain ids r where key: "?key \<noteq> []" and ids: "parse_ids ?q = Inr (ids, r)"
    by (subst (asm) parse_segments.simps) (auto simp: Let_def split: if_splits sum.splits)
  let ?s = "\<lparr>seg_key = ?key, seg_ids = ids\<rparr>"
  have q: "?q = concat (map id_text ids) @ r" and ok: "list_all id_ok ids"
    using print_parse_ids [OF ids] by auto
  have rest: "rest = ?key @ concat (map id_text ids) @ r" using q by (metis takeWhile_dropWhile_id)
  have sok: "segment_ok ?s" using key ok by (auto simp: segment_ok_def dest: set_takeWhileD)
  show ?case
  proof (cases r)
    case Nil
    with "1.prems" key ids have "ss = [?s]"
      by (subst (asm) parse_segments.simps) (auto simp: Let_def)
    with sok rest Nil show ?thesis by (simp add: segment_text_def)
  next
    case (Cons c r')
    with "1.prems" key ids obtain ss' where c: "c = CHR ''.''"
      and rec: "parse_segments r' = Inr ss'" and ss: "ss = ?s # ss'"
      by (subst (asm) parse_segments.simps) (auto simp: Let_def split: if_splits sum.splits)
    have "path_text ss' = r' \<and> ss' \<noteq> [] \<and> list_all segment_ok ss'"
      by (rule "1.IH" [OF refl key ids refl Cons c rec])
    with sok rest Cons c ss show ?thesis by (simp add: path_text_Cons segment_text_def)
  qed
qed

lemma path_text_nonempty: "ss \<noteq> [] \<Longrightarrow> list_all segment_ok ss \<Longrightarrow> path_text ss \<noteq> []"
  by (cases ss) (auto simp: path_text_Cons segment_text_def segment_ok_def)

lemma parse_iff_path_text:
  "(\<exists>p. parse s = Inr p \<and> segments p = ss) \<longleftrightarrow>
   (s = path_text ss \<and> ss \<noteq> [] \<and> list_all segment_ok ss)"
proof
  assume "\<exists>p. parse s = Inr p \<and> segments p = ss"
  then have "parse_segments s = Inr ss"
    by (auto simp: parse_def split: if_splits sum.splits)
  then show "s = path_text ss \<and> ss \<noteq> [] \<and> list_all segment_ok ss"
    using print_parse_segments by blast
next
  assume "s = path_text ss \<and> ss \<noteq> [] \<and> list_all segment_ok ss"
  then show "\<exists>p. parse s = Inr p \<and> segments p = ss"
    using path_text_nonempty by (auto simp: parse_def parse_print_segments)
qed

text \<open>
  C40: parsing is the exact inverse of spelling: a path that parses is the spelling of its
  segments, and every list of well-formed segments parses back from its spelling.
\<close>

theorem fact_path_roundtrip:
  "(\<exists>p. parse s = Inr p \<and> segments p = ss) \<longleftrightarrow>
   (s = path_text ss \<and> ss \<noteq> [] \<and> list_all segment_ok ss)"
  by (rule parse_iff_path_text)

lemma parse_segmentsD:
  assumes "parse s = Inr p"
  shows "s = path_text (segments p)" "segments p \<noteq> []" "list_all segment_ok (segments p)"
  using parse_iff_path_text [of s "segments p"] assms by auto

lemma parse_path_text:
  "ss \<noteq> [] \<Longrightarrow> list_all segment_ok ss \<Longrightarrow>
   parse (path_text ss) = Inr \<lparr>raw = path_text ss, segments = ss\<rparr>"
  using path_text_nonempty by (auto simp: parse_def parse_print_segments)

section \<open>Spelling a path\<close>

text \<open>The segments with one more id on the last of them: what \<open>parent[id]\<close> means.\<close>

definition add_id :: "segment list \<Rightarrow> str \<Rightarrow> segment list" where
  "add_id ss i = butlast ss @ [(last ss)\<lparr>seg_ids := seg_ids (last ss) @ [i]\<rparr>]"

lemma path_text_snoc:
  "path_text (ss @ [s]) = path_text ss @ (if ss = [] then [] else ''.'') @ segment_text s"
  by (induction ss) (auto simp: path_text_Cons)

lemma path_text_add_id: "ss \<noteq> [] \<Longrightarrow> path_text (add_id ss i) = path_text ss @ id_text i"
proof -
  assume "ss \<noteq> []"
  then have "path_text ss = path_text (butlast ss @ [last ss])" by simp
  then show ?thesis
    by (simp only: add_id_def path_text_snoc) (simp add: segment_text_def)
qed

lemma segment_ok_add_id:
  "ss \<noteq> [] \<Longrightarrow> list_all segment_ok ss \<Longrightarrow> id_ok i \<Longrightarrow> list_all segment_ok (add_id ss i)"
  by (auto simp: add_id_def list_all_iff segment_ok_def dest: in_set_butlastD)

lemma resolve_snoc:
  "fold resolve_segment (ss @ [\<lparr>seg_key = k, seg_ids = []\<rparr>]) vs =
     concat (map (step_key k) (fold resolve_segment ss vs))"
  by (simp add: resolve_segment_def)

lemma resolve_add_id:
  "ss \<noteq> [] \<Longrightarrow> fold resolve_segment (add_id ss i) vs =
     concat (map (\<lambda>v. pick v i) (fold resolve_segment ss vs))"
proof -
  assume "ss \<noteq> []"
  then have "fold resolve_segment ss vs = fold resolve_segment (butlast ss @ [last ss]) vs" by simp
  then show ?thesis by (simp only: fold_append add_id_def o_apply) (simp add: resolve_segment_def)
qed

lemma childE:
  assumes "child parent key in_record = Some p"
  obtains (plain) "key \<noteq> []" "\<forall>c \<in> set key. \<not> is_delim c" "length p \<le> MAX_FACT_PATH_LEN"
      "p = parent @ (if parent = [] then [] else ''.'') @ key"
  | (bracket) "parent \<noteq> []" "\<not> in_record" "id_ok key" "length p \<le> MAX_FACT_PATH_LEN"
      "p = parent @ id_text key"
  using assms
  by (auto simp: child_def Let_def id_ok_def id_text_def split: if_splits option.splits)

lemma child_top_parses:
  assumes "child [] key in_record = Some p"
  shows "parse p = Inr \<lparr>raw = p, segments = [\<lparr>seg_key = key, seg_ids = []\<rparr>]\<rparr>"
  using assms parse_path_text [of "[\<lparr>seg_key = key, seg_ids = []\<rparr>]"]
  by (elim childE) (auto simp: segment_ok_def segment_text_def)

lemma child_parses:
  assumes "parse parent = Inr P" and "child parent key in_record = Some p"
  shows "(parse p = Inr \<lparr>raw = p, segments = segments P @ [\<lparr>seg_key = key, seg_ids = []\<rparr>]\<rparr>)
    \<or> (\<not> in_record \<and> parse p = Inr \<lparr>raw = p, segments = add_id (segments P) key\<rparr>)"
  using assms(2)
proof (cases rule: childE)
  case plain
  note P = parse_segmentsD [OF assms(1)]
  have "parent \<noteq> []" using assms(1) by (auto simp: parse_def)
  then have "p = path_text (segments P @ [\<lparr>seg_key = key, seg_ids = []\<rparr>])"
    using plain P by (simp add: path_text_snoc segment_text_def)
  with P plain parse_path_text [of "segments P @ [\<lparr>seg_key = key, seg_ids = []\<rparr>]"] show ?thesis
    by (simp add: segment_ok_def)
next
  case bracket
  note P = parse_segmentsD [OF assms(1)]
  have "p = path_text (add_id (segments P) key)"
    using bracket P by (simp add: path_text_add_id)
  with P bracket parse_path_text [of "add_id (segments P) key"] show ?thesis
    by (simp add: segment_ok_add_id) (simp add: add_id_def)
qed

lemma pick_parses:
  assumes "parse parent = Inr P" and "pick_path parent i = Some p"
  shows "parse p = Inr \<lparr>raw = p, segments = add_id (segments P) i\<rparr>"
proof -
  note P = parse_segmentsD [OF assms(1)]
  have i: "id_ok i" "p = parent @ id_text i"
    using assms(2) by (auto simp: pick_path_def id_ok_def id_text_def split: if_splits)
  then have "p = path_text (add_id (segments P) i)" using P by (simp add: path_text_add_id)
  with P i parse_path_text [of "add_id (segments P) i"] show ?thesis
    by (simp add: segment_ok_add_id) (simp add: add_id_def)
qed

lemma pick_path_length: "pick_path parent i = Some p \<Longrightarrow> length p \<le> MAX_FACT_PATH_LEN"
  by (auto simp: pick_path_def split: if_splits)

lemma child_length: "child parent key r = Some p \<Longrightarrow> length p \<le> MAX_FACT_PATH_LEN"
  by (elim childE) auto

lemma pick_object: "is_object v \<Longrightarrow> pick v k = step_key k v"
  by (cases v) auto

lemma child_resolves:
  assumes "parse parent = Inr P"
    and "child parent key in_record = Some p"
    and "in_record \<or> (\<forall>v \<in> set (resolve P doc). is_object v)"
  shows "\<exists>Q. fact_path_try_from p = Inr Q \<and>
     resolve Q doc = concat (map (step_key key) (resolve P doc))"
proof -
  have len: "\<not> length p > MAX_FACT_PATH_LEN" using child_length [OF assms(2)] by simp
  from child_parses [OF assms(1,2)] show ?thesis
  proof
    assume "parse p = Inr \<lparr>raw = p, segments = segments P @ [\<lparr>seg_key = key, seg_ids = []\<rparr>]\<rparr>"
    then show ?thesis
      using len by (simp add: fact_path_try_from_def resolve_def) (simp add: resolve_segment_def)
  next
    assume add: "\<not> in_record \<and> parse p = Inr \<lparr>raw = p, segments = add_id (segments P) key\<rparr>"
    have "concat (map (\<lambda>v. pick v key) (resolve P doc)) = concat (map (step_key key) (resolve P doc))"
      using assms(3) add by (intro arg_cong [of _ _ concat] map_cong) (auto simp: pick_object)
    then show ?thesis
      using len add resolve_add_id [OF parse_segmentsD(2) [OF assms(1)]]
      by (simp add: fact_path_try_from_def resolve_def)
  qed
qed

text \<open>
  A path spelled by \<open>child\<close> reads back to the key it was spelled for: it is accepted
  by the parser, is short enough to be stored, and reaches exactly what stepping into
  \<open>key\<close> from the parent's values reaches, for a field of listed records as well as for
  the entries of maps.
\<close>

theorem child_reads_back:
  assumes "parse parent = Inr P"
    and "child parent key in_record = Some p"
    and "in_record \<or> (\<forall>v \<in> set (resolve P doc). is_object v)"
  shows "\<exists>Q. fact_path_try_from p = Inr Q \<and>
     resolve Q doc = concat (map (step_key key) (resolve P doc))"
  using assms by (rule child_resolves)

theorem child_reads_back_witness:
  "child ''services'' ''a.b'' False = Some ''services[a.b]'' \<and>
   (\<exists>Q. fact_path_try_from ''services[a.b]'' = Inr Q \<and>
     resolve Q (JObj [(''services'', JObj [(''a.b'', JStr ''x'')])]) = [JStr ''x''])"
proof -
  let ?doc = "JObj [(''services'', JObj [(''a.b'', JStr ''x'')])]"
  let ?P = "\<lparr>raw = ''services'', segments = [\<lparr>seg_key = ''services'', seg_ids = []\<rparr>]\<rparr>"
  have P: "parse ''services'' = Inr ?P"
    using parse_path_text [of "[\<lparr>seg_key = ''services'', seg_ids = []\<rparr>]"]
    by (simp add: segment_ok_def segment_text_def is_delim_def)
  have c: "child ''services'' ''a.b'' False = Some ''services[a.b]''"
    by (simp add: child_def is_delim_def MAX_FACT_PATH_LEN_def)
  have r: "resolve ?P ?doc = [JObj [(''a.b'', JStr ''x'')]]"
    by (simp add: resolve_def resolve_segment_def)
  have "False \<or> (\<forall>v \<in> set (resolve ?P ?doc). is_object v)" by (simp add: r)
  from child_reads_back [OF P c this] c show ?thesis by (simp add: r)
qed

lemma as_str_Some: "as_str v = Some s \<longleftrightarrow> v = JStr s"
  by (cases v) auto

lemma pick_resolves:
  assumes "parse parent = Inr P"
    and "pick_path parent i = Some p"
    and "resolve P doc = [JArr items]"
  shows "\<exists>Q. fact_path_try_from p = Inr Q \<and>
     resolve Q doc = filter (\<lambda>r. get_member r ''id'' = Some (JStr i)) items"
proof -
  have len: "\<not> length p > MAX_FACT_PATH_LEN" using pick_path_length [OF assms(2)] by simp
  have "(Option.bind (get_member r ''id'') as_str = Some i) = (get_member r ''id'' = Some (JStr i))" for r
    by (cases "get_member r ''id''") (auto split: option.splits simp: as_str_Some)
  then show ?thesis
    using len pick_parses [OF assms(1,2)] assms(3) resolve_add_id [OF parse_segmentsD(2) [OF assms(1)]]
    by (simp add: fact_path_try_from_def resolve_def)
qed

text \<open>
  A path spelled by \<open>pick\<close> reads back to the record it was spelled for: on a list it
  reaches exactly the records whose \<open>id\<close> is the given one.
\<close>

theorem pick_reads_back:
  assumes "parse parent = Inr P"
    and "pick_path parent i = Some p"
    and "resolve P doc = [JArr items]"
  shows "\<exists>Q. fact_path_try_from p = Inr Q \<and>
     resolve Q doc = filter (\<lambda>r. get_member r ''id'' = Some (JStr i)) items"
  using assms by (rule pick_resolves)

theorem pick_reads_back_witness:
  "pick_path ''installed'' ''bash'' = Some ''installed[bash]'' \<and>
   (\<exists>Q. fact_path_try_from ''installed[bash]'' = Inr Q \<and>
     resolve Q (JObj [(''installed'', JArr [JObj [(''id'', JStr ''awk'')], JObj [(''id'', JStr ''bash'')]])])
       = [JObj [(''id'', JStr ''bash'')]])"
proof -
  let ?items = "[JObj [(''id'', JStr ''awk'')], JObj [(''id'', JStr ''bash'')]]"
  let ?P = "\<lparr>raw = ''installed'', segments = [\<lparr>seg_key = ''installed'', seg_ids = []\<rparr>]\<rparr>"
  have P: "parse ''installed'' = Inr ?P"
    using parse_path_text [of "[\<lparr>seg_key = ''installed'', seg_ids = []\<rparr>]"]
    by (simp add: segment_ok_def segment_text_def is_delim_def)
  have c: "pick_path ''installed'' ''bash'' = Some ''installed[bash]''"
    by (simp add: pick_path_def MAX_FACT_PATH_LEN_def)
  have "resolve ?P (JObj [(''installed'', JArr ?items)]) = [JArr ?items]"
    by (simp add: resolve_def resolve_segment_def)
  from pick_reads_back [OF P c this] c show ?thesis by simp
qed

end
