(* ===== verification/Selector.thy ===== *)
theory Selector
  imports Fact_Path
begin

text \<open>
  \<open>crates/core/src/selector\<close>: tags and the sources they come from (\<open>tags.rs\<close>), the
  selector tree, its validation and its evaluation (\<open>expr.rs\<close>), and
  \<open>facts::valid_source\<close>, which validation calls. A \<open>HashMap\<close> is a finite map used by
  lookup only.
\<close>

section \<open>Tags\<close>

definition MAX_KEY_LEN :: nat where "MAX_KEY_LEN = 128"
definition MAX_VALUE_LEN :: nat where "MAX_VALUE_LEN = 256"
definition MAX_TAGS_PER_HOST :: nat where "MAX_TAGS_PER_HOST = 128"

datatype tag_source = Manual | Agent

definition tag_source_as_str :: "tag_source \<Rightarrow> str" where
  "tag_source_as_str s = (case s of Manual \<Rightarrow> ''manual'' | Agent \<Rightarrow> ''agent'')"

definition tag_source_from_db :: "str \<Rightarrow> tag_source" where
  "tag_source_from_db s = (if s = ''manual'' then Manual else Agent)"

datatype source_filter = FManual | FAgent | FAny

fun accepts :: "source_filter \<Rightarrow> tag_source \<Rightarrow> bool" where
  "accepts FManual s = (s = Manual)"
| "accepts FAgent s = (s = Agent)"
| "accepts FAny s = True"

definition filter_is_host_controlled :: "source_filter \<Rightarrow> bool" where
  "filter_is_host_controlled f \<longleftrightarrow> f = FAgent \<or> f = FAny"

record tag_value =
  tag_text :: str
  tag_src :: tag_source

type_synonym host_tags = "str \<rightharpoonup> tag_value list"
type_synonym host_facts = "str \<rightharpoonup> json"

text \<open>\<open>matching\<close> of \<open>path.rs\<close>: the values under a key a filter accepts.\<close>

definition matching :: "host_tags \<Rightarrow> str \<Rightarrow> source_filter \<Rightarrow> tag_value list" where
  "matching tags key src =
     filter (\<lambda>t. accepts src (tag_src t)) (case tags key of None \<Rightarrow> [] | Some vs \<Rightarrow> vs)"

section \<open>Sources of facts documents\<close>

definition AGENT_SOURCE :: str where "AGENT_SOURCE = ''agent''"
definition MAX_SOURCE_LEN :: nat where "MAX_SOURCE_LEN = 64"

definition is_lower :: "char \<Rightarrow> bool" where
  "is_lower c \<longleftrightarrow> CHR ''a'' \<le> c \<and> c \<le> CHR ''z''"

definition valid_source :: "str \<Rightarrow> bool" where
  "valid_source s \<longleftrightarrow>
     s \<noteq> [] \<and> length s \<le> MAX_SOURCE_LEN \<and> is_lower (hd s)
     \<and> (\<forall>c \<in> set s. is_lower c \<or> is_digit c \<or> c \<in> set ''_.:-'')"

section \<open>The selector tree\<close>

definition MAX_NODES :: nat where "MAX_NODES = 64"
definition MAX_DEPTH :: nat where "MAX_DEPTH = 8"
definition MAX_IN_VALUES :: nat where "MAX_IN_VALUES = 64"

datatype fact_test_t = TExists | TEq str | TIn "str list" | THas str

datatype expr =
    Fact str fact_path fact_test_t
  | Eq str str source_filter
  | In str "str list" source_filter
  | Exists str source_filter
  | Not expr
  | And "expr list"
  | Or "expr list"

record selector =
  clauses :: "expr list"

datatype selector_error =
    TooManyNodes | TooDeep | TooManyInValues | KeyTooLong | ValueTooLong | EmptyKey
  | EmptyCompound | BadFactsSource str | BadFactPath str

subsection \<open>Validation\<close>

definition check_key :: "str \<Rightarrow> selector_error + unit" where
  "check_key key =
     (if key = [] then Inl EmptyKey
      else if length key > MAX_KEY_LEN then Inl KeyTooLong
      else Inr ())"

definition check_values :: "str list \<Rightarrow> selector_error + unit" where
  "check_values values =
     (if length values > MAX_IN_VALUES then Inl TooManyInValues
      else if \<exists>v \<in> set values. length v > MAX_VALUE_LEN then Inl ValueTooLong
      else Inr ())"

definition check_value :: "str \<Rightarrow> selector_error + unit" where
  "check_value v = (if length v > MAX_VALUE_LEN then Inl ValueTooLong else Inr ())"

fun check_test :: "fact_test_t \<Rightarrow> selector_error + unit" where
  "check_test TExists = Inr ()"
| "check_test (TEq v) = check_value v"
| "check_test (THas v) = check_value v"
| "check_test (TIn vs) = check_values vs"

definition check_fact :: "str \<Rightarrow> fact_path \<Rightarrow> fact_test_t \<Rightarrow> selector_error + unit" where
  "check_fact facts path test =
     (if \<not> valid_source facts then Inl (BadFactsSource facts)
      else if length (raw path) > MAX_FACT_PATH_LEN then Inl (BadFactPath ''too long'')
      else check_test test)"

text \<open>The node counter \<open>nodes\<close> is threaded through; a result carries its new value.\<close>

fun validate_expr :: "expr \<Rightarrow> nat \<Rightarrow> nat \<Rightarrow> selector_error + nat"
and validate_exprs :: "expr list \<Rightarrow> nat \<Rightarrow> nat \<Rightarrow> selector_error + nat" where
  "validate_expr e depth nodes =
     (if depth > MAX_DEPTH then Inl TooDeep
      else if nodes + 1 > MAX_NODES then Inl TooManyNodes
      else case e of
          Eq key v _ \<Rightarrow>
            (case check_key key of Inl x \<Rightarrow> Inl x | Inr _ \<Rightarrow>
              (case check_value v of Inl x \<Rightarrow> Inl x | Inr _ \<Rightarrow> Inr (nodes + 1)))
        | In key vs _ \<Rightarrow>
            (case check_key key of Inl x \<Rightarrow> Inl x | Inr _ \<Rightarrow>
              (case check_values vs of Inl x \<Rightarrow> Inl x | Inr _ \<Rightarrow> Inr (nodes + 1)))
        | Exists key _ \<Rightarrow>
            (case check_key key of Inl x \<Rightarrow> Inl x | Inr _ \<Rightarrow> Inr (nodes + 1))
        | Fact facts path test \<Rightarrow>
            (case check_fact facts path test of Inl x \<Rightarrow> Inl x | Inr _ \<Rightarrow> Inr (nodes + 1))
        | Not x \<Rightarrow> validate_expr x (depth + 1) (nodes + 1)
        | And xs \<Rightarrow>
            (if xs = [] then Inl EmptyCompound else validate_exprs xs (depth + 1) (nodes + 1))
        | Or xs \<Rightarrow>
            (if xs = [] then Inl EmptyCompound else validate_exprs xs (depth + 1) (nodes + 1)))"
| "validate_exprs [] depth nodes = Inr nodes"
| "validate_exprs (x # xs) depth nodes =
     (case validate_expr x depth nodes of
        Inl e \<Rightarrow> Inl e
      | Inr n \<Rightarrow> validate_exprs xs depth n)"

declare validate_expr.simps [simp del]

definition validate :: "selector \<Rightarrow> selector_error + unit" where
  "validate s = (case validate_exprs (clauses s) 1 0 of Inl e \<Rightarrow> Inl e | Inr _ \<Rightarrow> Inr ())"

subsection \<open>Evaluation\<close>

fun fact_test :: "fact_test_t \<Rightarrow> json \<Rightarrow> bool" where
  "fact_test TExists v = (v \<noteq> JNull)"
| "fact_test (TEq value) v = (scalar_text v = Some value)"
| "fact_test (TIn values) v =
     (case scalar_text v of Some s \<Rightarrow> s \<in> set values | None \<Rightarrow> False)"
| "fact_test (THas value) v =
     (case v of
        JArr items \<Rightarrow>
          (\<exists>item \<in> set items. case item of
             JObj record \<Rightarrow> Option.bind (bt_get record ''id'') as_str = Some value
           | other \<Rightarrow> scalar_text other = Some value)
      | JObj m \<Rightarrow> bt_get m value \<noteq> None
      | _ \<Rightarrow> False)"

fun eval :: "expr \<Rightarrow> host_tags \<Rightarrow> host_facts \<Rightarrow> bool" where
  "eval (Eq key value src) tags facts = (\<exists>t \<in> set (matching tags key src). tag_text t = value)"
| "eval (In key values src) tags facts =
     (\<exists>t \<in> set (matching tags key src). tag_text t \<in> set values)"
| "eval (Exists key src) tags facts = (matching tags key src \<noteq> [])"
| "eval (Fact source path test) tags facts =
     (case facts source of
        None \<Rightarrow> False
      | Some doc \<Rightarrow> \<exists>v \<in> set (resolve path doc). fact_test test v)"
| "eval (Not x) tags facts = (\<not> eval x tags facts)"
| "eval (And xs) tags facts = (\<forall>x \<in> set xs. eval x tags facts)"
| "eval (Or xs) tags facts = (\<exists>x \<in> set xs. eval x tags facts)"

definition matches :: "selector \<Rightarrow> host_tags \<Rightarrow> host_facts \<Rightarrow> bool" where
  "matches s tags facts = (if clauses s = [] then True else \<forall>c \<in> set (clauses s). eval c tags facts)"

subsection \<open>What a selector reads\<close>

fun expr_fact_sources :: "expr \<Rightarrow> str set" where
  "expr_fact_sources (Fact facts _ _) = {facts}"
| "expr_fact_sources (Not x) = expr_fact_sources x"
| "expr_fact_sources (And xs) = (\<Union>x \<in> set xs. expr_fact_sources x)"
| "expr_fact_sources (Or xs) = (\<Union>x \<in> set xs. expr_fact_sources x)"
| "expr_fact_sources _ = {}"

definition fact_sources :: "selector \<Rightarrow> str set" where
  "fact_sources s = (\<Union>c \<in> set (clauses s). expr_fact_sources c)"

fun expr_is_host_controlled :: "expr \<Rightarrow> bool" where
  "expr_is_host_controlled (Eq _ _ src) = filter_is_host_controlled src"
| "expr_is_host_controlled (In _ _ src) = filter_is_host_controlled src"
| "expr_is_host_controlled (Exists _ src) = filter_is_host_controlled src"
| "expr_is_host_controlled (Fact facts _ _) = (facts = AGENT_SOURCE)"
| "expr_is_host_controlled (Not x) = expr_is_host_controlled x"
| "expr_is_host_controlled (And xs) = (\<exists>x \<in> set xs. expr_is_host_controlled x)"
| "expr_is_host_controlled (Or xs) = (\<exists>x \<in> set xs. expr_is_host_controlled x)"

definition is_host_controlled :: "selector \<Rightarrow> bool" where
  "is_host_controlled s \<longleftrightarrow> (\<exists>c \<in> set (clauses s). expr_is_host_controlled c)"

section \<open>A host cannot talk its way into a group\<close>

text \<open>
  What a host cannot change: the operator's own tags, and every document but the agent's.
\<close>

definition operator_tags :: "host_tags \<Rightarrow> str \<Rightarrow> str list" where
  "operator_tags tags key = map tag_text (matching tags key FManual)"

definition same_for_operator :: "host_tags \<Rightarrow> host_facts \<Rightarrow> host_tags \<Rightarrow> host_facts \<Rightarrow> bool" where
  "same_for_operator tags facts tags' facts' \<longleftrightarrow>
     (\<forall>key. operator_tags tags key = operator_tags tags' key)
     \<and> (\<forall>source. source \<noteq> AGENT_SOURCE \<longrightarrow> facts source = facts' source)"

lemma not_host_controlled_filter: "\<not> filter_is_host_controlled f \<longleftrightarrow> f = FManual"
  by (cases f) (auto simp: filter_is_host_controlled_def)

lemma same_for_operator_tags:
  "same_for_operator tags facts tags' facts' \<Longrightarrow>
   tag_text ` set (matching tags key FManual) = tag_text ` set (matching tags' key FManual)"
  by (metis same_for_operator_def operator_tags_def set_map)

lemma eval_host_independent:
  "same_for_operator tags facts tags' facts' \<Longrightarrow> \<not> expr_is_host_controlled e \<Longrightarrow>
   eval e tags facts = eval e tags' facts'"
proof (induction e)
  case (Fact source path test)
  then show ?case by (simp add: same_for_operator_def)
next
  case (Eq key v src)
  then have "src = FManual" by (simp add: not_host_controlled_filter)
  moreover have "(\<exists>t \<in> set (matching ts key FManual). tag_text t = v) \<longleftrightarrow>
      v \<in> tag_text ` set (matching ts key FManual)" for ts by blast
  ultimately show ?case using same_for_operator_tags [OF Eq.prems(1), of key] by simp
next
  case (In key vs src)
  then have "src = FManual" by (simp add: not_host_controlled_filter)
  moreover have "(\<exists>t \<in> set (matching ts key FManual). tag_text t \<in> set vs) \<longleftrightarrow>
      set vs \<inter> tag_text ` set (matching ts key FManual) \<noteq> {}" for ts by blast
  ultimately show ?case using same_for_operator_tags [OF In.prems(1), of key] by simp
next
  case (Exists key src)
  then have "src = FManual" by (simp add: not_host_controlled_filter)
  then show ?case using same_for_operator_tags [OF Exists.prems(1), of key]
    by (metis eval.simps(3) image_is_empty set_empty)
qed auto

lemma matches_independent:
  assumes "\<not> is_host_controlled s"
    and "same_for_operator tags facts tags' facts'"
  shows "matches s tags facts = matches s tags' facts'"
  using assms eval_host_independent [OF assms(2)]
  by (auto simp: matches_def is_host_controlled_def)

text \<open>
  C31: membership in a group whose selector is not flagged host-controlled does not depend on
  anything the host says about itself: two states that agree on the operator's tags and on
  the imported documents give the same answer, whatever the agent's tags and document are.
\<close>

theorem matches_host_independent:
  assumes "\<not> is_host_controlled s"
    and "same_for_operator tags facts tags' facts'"
  shows "matches s tags facts = matches s tags' facts'"
  using assms by (rule matches_independent)

theorem matches_host_independent_witness:
  "matches \<lparr>clauses = [Eq ''role'' ''web'' FManual]\<rparr> [''role'' \<mapsto> [\<lparr>tag_text = ''sql'', tag_src = Manual\<rparr>]] Map.empty
   = matches \<lparr>clauses = [Eq ''role'' ''web'' FManual]\<rparr>
       [''role'' \<mapsto> [\<lparr>tag_text = ''sql'', tag_src = Manual\<rparr>, \<lparr>tag_text = ''web'', tag_src = Agent\<rparr>]]
       [''agent'' \<mapsto> JObj []]"
  by (rule matches_host_independent)
     (simp_all add: is_host_controlled_def filter_is_host_controlled_def same_for_operator_def
       operator_tags_def matching_def AGENT_SOURCE_def)

text \<open>
  The flag is tight for a leaf: a leaf on agent values can be satisfied by the host whatever
  the operator set.
\<close>

lemma host_controlled_leaf:
  assumes "filter_is_host_controlled src"
  shows "\<exists>tags' facts'. same_for_operator tags facts tags' facts' \<and> eval (Eq key value src) tags' facts'"
proof -
  let ?t = "\<lparr>tag_text = value, tag_src = Agent\<rparr>"
  let ?tags = "tags(key \<mapsto> (case tags key of None \<Rightarrow> [] | Some vs \<Rightarrow> vs) @ [?t])"
  have "accepts src Agent" using assms by (cases src) (auto simp: filter_is_host_controlled_def)
  then have "eval (Eq key value src) ?tags facts" by (auto simp: matching_def)
  moreover have "same_for_operator tags facts ?tags facts"
    by (auto simp: same_for_operator_def operator_tags_def matching_def split: option.splits)
  ultimately show ?thesis by blast
qed

section \<open>Loading only the documents a selector names\<close>

lemma eval_fact_sources:
  "(\<And>s. s \<in> expr_fact_sources e \<Longrightarrow> facts s = facts' s) \<Longrightarrow> eval e tags facts = eval e tags facts'"
  by (induction e) auto

text \<open>
  Evaluation reads no document but the ones \<open>fact_sources\<close> names, so a caller that
  loads only those gets the answer it would get with all of them.
\<close>

theorem matches_reads_fact_sources:
  assumes "fact_sources s \<subseteq> loaded"
  shows "matches s tags (facts |` loaded) = matches s tags facts"
proof -
  have "eval c tags (facts |` loaded) = eval c tags facts" if "c \<in> set (clauses s)" for c
    using assms that by (intro eval_fact_sources) (auto simp: fact_sources_def)
  then show ?thesis by (simp add: matches_def)
qed

theorem matches_reads_fact_sources_witness:
  "matches \<lparr>clauses = [Fact ''import:cmdb'' \<lparr>raw = ''a'', segments = [\<lparr>seg_key = ''a'', seg_ids = []\<rparr>]\<rparr> (TEq ''x'')]\<rparr>
     Map.empty ([''agent'' \<mapsto> JNull, ''import:cmdb'' \<mapsto> JObj [(''a'', JStr ''x'')]] |` {''import:cmdb''})
   = matches \<lparr>clauses = [Fact ''import:cmdb'' \<lparr>raw = ''a'', segments = [\<lparr>seg_key = ''a'', seg_ids = []\<rparr>]\<rparr> (TEq ''x'')]\<rparr>
     Map.empty [''agent'' \<mapsto> JNull, ''import:cmdb'' \<mapsto> JObj [(''a'', JStr ''x'')]]"
  by (rule matches_reads_fact_sources) (simp add: fact_sources_def)

section \<open>What validation guarantees\<close>

text \<open>The shape limits, stated without the counter.\<close>

fun nodes_of :: "expr \<Rightarrow> nat" where
  "nodes_of (Not x) = 1 + nodes_of x"
| "nodes_of (And xs) = 1 + sum_list (map nodes_of xs)"
| "nodes_of (Or xs) = 1 + sum_list (map nodes_of xs)"
| "nodes_of _ = 1"

fun fits_depth :: "nat \<Rightarrow> expr \<Rightarrow> bool" where
  "fits_depth d e \<longleftrightarrow> 0 < d \<and>
     (case e of
        Not x \<Rightarrow> fits_depth (d - 1) x
      | And xs \<Rightarrow> (\<forall>x \<in> set xs. fits_depth (d - 1) x)
      | Or xs \<Rightarrow> (\<forall>x \<in> set xs. fits_depth (d - 1) x)
      | _ \<Rightarrow> True)"

declare fits_depth.simps [simp del]

fun leaves_ok :: "expr \<Rightarrow> bool" where
  "leaves_ok (Eq key v _) = (check_key key = Inr () \<and> length v \<le> MAX_VALUE_LEN)"
| "leaves_ok (In key vs _) = (check_key key = Inr () \<and> check_values vs = Inr ())"
| "leaves_ok (Exists key _) = (check_key key = Inr ())"
| "leaves_ok (Fact facts path test) = (check_fact facts path test = Inr ())"
| "leaves_ok (Not x) = leaves_ok x"
| "leaves_ok (And xs) = (xs \<noteq> [] \<and> (\<forall>x \<in> set xs. leaves_ok x))"
| "leaves_ok (Or xs) = (xs \<noteq> [] \<and> (\<forall>x \<in> set xs. leaves_ok x))"

lemma sum_unit: "(x = Inr ()) = (\<forall>e. x \<noteq> Inl e)"
  by (cases x) auto

lemma validate_spec:
  "d \<le> MAX_DEPTH + 1 \<Longrightarrow>
   validate_expr e d n = Inr m \<longleftrightarrow>
     fits_depth (MAX_DEPTH + 1 - d) e \<and> leaves_ok e \<and> m = n + nodes_of e \<and> m \<le> MAX_NODES"
  "d \<le> MAX_DEPTH + 1 \<Longrightarrow> n \<le> MAX_NODES \<Longrightarrow>
   validate_exprs es d n = Inr m \<longleftrightarrow>
     (\<forall>x \<in> set es. fits_depth (MAX_DEPTH + 1 - d) x \<and> leaves_ok x)
     \<and> m = n + sum_list (map nodes_of es) \<and> m \<le> MAX_NODES"
proof (induction e d n and es d n arbitrary: m and m rule: validate_expr_validate_exprs.induct)
  case (1 e d n)
  show ?case
  proof (cases "d > MAX_DEPTH \<or> n + 1 > MAX_NODES")
    case True
    have "nodes_of e \<ge> 1" by (cases e) auto
    with True 1 show ?thesis
      by (subst validate_expr.simps) (auto simp: fits_depth.simps [of _ e])
  next
    case False
    then have d: "d + 1 \<le> MAX_DEPTH + 1" "MAX_DEPTH + 1 - (d + 1) = MAX_DEPTH + 1 - d - 1"
      and gd: "\<not> d > MAX_DEPTH" and gn: "\<not> n + 1 > MAX_NODES" by auto
    have fd: "fits_depth (MAX_DEPTH + 1 - d) e \<longleftrightarrow>
        (case e of Not x \<Rightarrow> fits_depth (MAX_DEPTH + 1 - d - 1) x
         | And xs \<Rightarrow> (\<forall>x \<in> set xs. fits_depth (MAX_DEPTH + 1 - d - 1) x)
         | Or xs \<Rightarrow> (\<forall>x \<in> set xs. fits_depth (MAX_DEPTH + 1 - d - 1) x)
         | _ \<Rightarrow> True)"
      using gd by (subst fits_depth.simps) simp
    show ?thesis
    proof (cases e)
      case (Not x)
      with False d "1.IH"(1) [OF gd gn Not d(1), of m] show ?thesis
        unfolding fd by (subst validate_expr.simps) simp
    next
      case (And xs)
      with False d "1.IH"(2) [OF gd gn And _ d(1), of m] show ?thesis
        unfolding fd by (subst validate_expr.simps) auto
    next
      case (Or xs)
      with False d "1.IH"(3) [OF gd gn Or _ d(1), of m] show ?thesis
        unfolding fd by (subst validate_expr.simps) auto
    next
      case (Eq key v c)
      with False show ?thesis
        unfolding fd by (subst validate_expr.simps) (auto simp: check_value_def split: sum.splits)
    next
      case (In key vs c)
      with False show ?thesis
        unfolding fd by (subst validate_expr.simps) (auto split: sum.splits)
    next
      case (Exists key c)
      with False show ?thesis
        unfolding fd by (subst validate_expr.simps) (auto split: sum.splits)
    next
      case (Fact facts path test)
      with False show ?thesis
        unfolding fd by (subst validate_expr.simps) (auto split: sum.splits)
    qed
  qed
next
  case (2 d n)
  then show ?case by auto
next
  case (3 x xs d n)
  show ?case
  proof (cases "validate_expr x d n")
    case (Inl e)
    with "3.IH"(1) [OF "3.prems"(1), of "n + nodes_of x"] show ?thesis by auto
  next
    case (Inr k)
    then have k: "fits_depth (MAX_DEPTH + 1 - d) x" "leaves_ok x" "k = n + nodes_of x" "k \<le> MAX_NODES"
      using "3.IH"(1) [OF "3.prems"(1)] by auto
    with "3.IH"(2) [OF Inr "3.prems"(1) k(4), of m] Inr show ?thesis by (auto simp: add.assoc)
  qed
qed

text \<open>
  A selector is accepted exactly when it is within the shape limits: at most 64 nodes in
  all, nested at most 8 deep, no empty \<open>and\<close>/\<open>or\<close>, and every leaf within the key, value
  and path limits.
\<close>

theorem validate_accepts_iff:
  "validate s = Inr () \<longleftrightarrow>
     sum_list (map nodes_of (clauses s)) \<le> 64
     \<and> list_all (\<lambda>c. fits_depth 8 c \<and> leaves_ok c) (clauses s)"
proof -
  have "validate s = Inr () \<longleftrightarrow> (\<exists>m. validate_exprs (clauses s) 1 0 = Inr m)"
    by (auto simp: validate_def split: sum.splits)
  also have "\<dots> \<longleftrightarrow> sum_list (map nodes_of (clauses s)) \<le> 64
     \<and> (\<forall>c \<in> set (clauses s). fits_depth 8 c \<and> leaves_ok c)"
    by (auto simp: validate_spec(2) MAX_DEPTH_def MAX_NODES_def)
  finally show ?thesis by (simp add: list_all_iff)
qed

text \<open>The counter never passes its limit and the recursion is bounded by the depth limit.\<close>

lemma validate_expr_too_deep: "d > MAX_DEPTH \<Longrightarrow> validate_expr e d n = Inl TooDeep"
  by (subst validate_expr.simps) simp

end
