(* ===== verification/Facts.thy ===== *)
theory Facts
  imports Selector
begin

text \<open>
  \<open>crates/core/src/facts/mod.rs\<close>: the check of an uploaded facts document
  (\<open>parse_upload\<close>) and the difference of two documents (\<open>Differ\<close>). The deserializer of
  the upload's envelope and SHA-256 are library code: parameters \<open>from_slice\<close> and
  \<open>sha256\<close>. \<open>Differ\<close> is a record threaded through the walk.
\<close>

section \<open>Uploads\<close>

definition MAX_COLLECTED_AT_LEN :: nat where "MAX_COLLECTED_AT_LEN = 64"

definition is_hexdigit :: "char \<Rightarrow> bool" where
  "is_hexdigit c \<longleftrightarrow> is_digit c \<or> c \<in> set ''abcdefABCDEF''"

definition lower_hexdigit :: "char \<Rightarrow> char" where
  "lower_hexdigit c =
     (case map_of (zip ''ABCDEF'' ''abcdef'') c of Some l \<Rightarrow> l | None \<Rightarrow> c)"

text \<open>\<open>to_ascii_lowercase\<close>, which is only ever applied to hex digits here.\<close>

definition normalize_hash :: "str \<Rightarrow> str option" where
  "normalize_hash h =
     (if length h = 64 \<and> list_all is_hexdigit h then Some (map lower_hexdigit h) else None)"

record facts_upload =
  up_hash :: str
  up_collected_at :: "str option"
  up_facts :: bytes

datatype upload_error =
    Malformed str | BadHash | NotAnObject str | HashMismatch str

fun declared_hash :: "upload_error \<Rightarrow> str option" where
  "declared_hash (NotAnObject h) = Some h"
| "declared_hash (HashMismatch h) = Some h"
| "declared_hash (Malformed _) = None"
| "declared_hash BadHash = None"

record raw_upload =
  raw_facts_hash :: str
  raw_collected_at :: "str option"
  raw_facts :: bytes

definition sha256_hex :: "(bytes \<Rightarrow> bytes) \<Rightarrow> bytes \<Rightarrow> str" where
  "sha256_hex sha256 b = hex (sha256 b)"

definition parse_upload ::
  "(bytes \<Rightarrow> str + raw_upload) \<Rightarrow> (bytes \<Rightarrow> bytes) \<Rightarrow> bytes \<Rightarrow> upload_error + facts_upload" where
  "parse_upload from_slice sha256 body =
     (case from_slice body of
        Inl e \<Rightarrow> Inl (Malformed e)
      | Inr r \<Rightarrow>
         (case normalize_hash (raw_facts_hash r) of
            None \<Rightarrow> Inl BadHash
          | Some facts_hash \<Rightarrow>
              if take 1 (raw_facts r) \<noteq> ''{'' then Inl (NotAnObject facts_hash)
              else if sha256_hex sha256 (raw_facts r) \<noteq> facts_hash then Inl (HashMismatch facts_hash)
              else Inr \<lparr>up_hash = facts_hash,
                     up_collected_at =
                       (case raw_collected_at r of
                          None \<Rightarrow> None
                        | Some c \<Rightarrow>
                            let t = take_chars MAX_COLLECTED_AT_LEN (trim c)
                            in if t = [] then None else Some t),
                     up_facts = raw_facts r\<rparr>))"

section \<open>The difference of two documents\<close>

datatype change_kind = Added | Removed | Changed

record fact_change =
  ch_path :: str
  ch_kind :: change_kind
  ch_old :: "json option"
  ch_new :: "json option"

record facts_diff =
  changes :: "fact_change list"
  truncated :: nat

definition diff_is_empty :: "facts_diff \<Rightarrow> bool" where
  "diff_is_empty d \<longleftrightarrow> changes d = [] \<and> truncated d = 0"

definition MAX_SHOWN_STRING :: nat where "MAX_SHOWN_STRING = 200"
definition MAX_SHOWN_LIST :: nat where "MAX_SHOWN_LIST = 16"

text \<open>
  \<open>Value\<close>'s \<open>==\<close>. It is structural but for the two float zeros, which are equal as floats
  and print differently.
\<close>

definition float_zeros :: "str list" where "float_zeros = [''0.0'', ''-0.0'']"

fun same_number :: "number \<Rightarrow> number \<Rightarrow> bool" where
  "same_number (NInt i) (NInt j) = (i = j)"
| "same_number (NFloat s) (NFloat t) = (s = t \<or> (s \<in> set float_zeros \<and> t \<in> set float_zeros))"
| "same_number _ _ = False"

fun same :: "json \<Rightarrow> json \<Rightarrow> bool" and same_opt :: "json option \<Rightarrow> json option \<Rightarrow> bool" where
  "same JNull JNull = True"
| "same (JBool a) (JBool b) = (a = b)"
| "same (JNum a) (JNum b) = same_number a b"
| "same (JStr a) (JStr b) = (a = b)"
| "same (JArr xs) (JArr ys) = list_all2 same xs ys"
| "same (JObj m) (JObj n) = list_all2 (\<lambda>a b. fst a = fst b \<and> same (snd a) (snd b)) m n"
| "same _ _ = False"
| "same_opt None None = True"
| "same_opt (Some a) (Some b) = same a b"
| "same_opt _ _ = False"

text \<open>\<open>clip\<close>: cut to a number of characters, the cut marked with an ellipsis (U+2026).\<close>

definition ellipsis :: str where "ellipsis = map char_of [226::nat, 128, 166]"

definition clip_to :: "str \<Rightarrow> nat \<Rightarrow> str" where
  "clip_to s cap =
     (if length (chars s) \<le> cap then s else take_chars cap s @ ellipsis)"

definition clip :: "str \<Rightarrow> str" where
  "clip s = clip_to s MAX_SHOWN_STRING"

fun clip_scalar :: "json \<Rightarrow> json" where
  "clip_scalar (JStr s) = JStr (clip s)"
| "clip_scalar v = v"

fun shown :: "json \<Rightarrow> json option" where
  "shown (JStr s) = Some (JStr (clip s))"
| "shown (JArr a) =
     (if length a \<le> MAX_SHOWN_LIST \<and> (\<forall>x \<in> set a. \<not> is_object x \<and> \<not> is_array x)
      then Some (JArr (map clip_scalar a)) else None)"
| "shown (JObj _) = None"
| "shown v = Some v"

text \<open>The ids of a list of records, or \<open>None\<close> if this is not one.\<close>

fun record_ids_from :: "json list \<Rightarrow> str set \<Rightarrow> str list option" where
  "record_ids_from [] seen = Some []"
| "record_ids_from (v # vs) seen =
     (case v of
        JObj m \<Rightarrow>
          (case Option.bind (bt_get m ''id'') as_str of
             None \<Rightarrow> None
           | Some i \<Rightarrow>
               if i \<in> seen then None
               else map_option (Cons i) (record_ids_from vs (insert i seen)))
      | _ \<Rightarrow> None)"

definition record_ids :: "json list \<Rightarrow> str list option" where
  "record_ids vs = record_ids_from vs {}"

record differ =
  out :: facts_diff
  at_parent :: "str set"

definition push ::
  "nat \<Rightarrow> str \<Rightarrow> change_kind \<Rightarrow> json option \<Rightarrow> json option \<Rightarrow> differ \<Rightarrow> differ" where
  "push cap path kind old new d =
     (if length (changes (out d)) \<ge> cap
      then d\<lparr>out := (out d)\<lparr>truncated := truncated (out d) + 1\<rparr>\<rparr>
      else d\<lparr>out := (out d)\<lparr>changes := changes (out d) @
             [\<lparr>ch_path = path, ch_kind = kind,
               ch_old = Option.bind old shown, ch_new = Option.bind new shown\<rparr>]\<rparr>\<rparr>)"

definition changed_beneath :: "nat \<Rightarrow> str \<Rightarrow> differ \<Rightarrow> differ" where
  "changed_beneath cap path d =
     (if path \<in> at_parent d then d
      else push cap path Changed None None (d\<lparr>at_parent := insert path (at_parent d)\<rparr>))"

text \<open>The distinct keys of two maps, in order: the \<open>BTreeSet\<close> of \<open>object\<close>.\<close>

definition both_keys :: "(str \<times> json) list \<Rightarrow> (str \<times> json) list \<Rightarrow> str list" where
  "both_keys old new = map fst (bt_collect (old @ new))"

function diff_value :: "nat \<Rightarrow> str \<Rightarrow> json \<Rightarrow> json \<Rightarrow> differ \<Rightarrow> differ"
and diff_object ::
  "nat \<Rightarrow> str \<Rightarrow> (str \<times> json) list \<Rightarrow> (str \<times> json) list \<Rightarrow> differ \<Rightarrow> differ"
and diff_records ::
  "nat \<Rightarrow> str \<Rightarrow> json list \<Rightarrow> str list \<Rightarrow> json list \<Rightarrow> str list \<Rightarrow> differ \<Rightarrow> differ" where
  "diff_value cap path old new d =
     (case old of
        JObj m \<Rightarrow>
          (case new of
             JObj n \<Rightarrow> diff_object cap path m n d
           | _ \<Rightarrow> push cap path Changed (Some old) (Some new) d)
      | JArr xs \<Rightarrow>
          (case new of
             JArr ys \<Rightarrow>
               (case record_ids xs of
                  Some xi \<Rightarrow>
                    (case record_ids ys of
                       Some yi \<Rightarrow> diff_records cap path xs xi ys yi d
                     | None \<Rightarrow> if same old new then d
                              else push cap path Changed (Some old) (Some new) d)
                | None \<Rightarrow> if same old new then d
                         else push cap path Changed (Some old) (Some new) d)
           | _ \<Rightarrow> push cap path Changed (Some old) (Some new) d)
      | _ \<Rightarrow> if same old new then d else push cap path Changed (Some old) (Some new) d)"
| "diff_object cap path m n d =
     fold (\<lambda>k d.
        case child path k False of
          None \<Rightarrow> if same_opt (bt_get m k) (bt_get n k) then d else changed_beneath cap path d
        | Some p \<Rightarrow>
            (case bt_get m k of
               Some u \<Rightarrow>
                 (case bt_get n k of
                    Some v \<Rightarrow> diff_value cap p u v d
                  | None \<Rightarrow> push cap p Removed (Some u) None d)
             | None \<Rightarrow> push cap p Added None (bt_get n k) d))
      (both_keys m n) d"
| "diff_records cap path xs xi ys yi d =
     fold (\<lambda>iv d.
        case pick_path path (fst iv) of
          None \<Rightarrow> if same_opt (map_of (zip xi xs) (fst iv)) (Some (snd iv)) then d
                  else changed_beneath cap path d
        | Some p \<Rightarrow>
            (case map_of (zip xi xs) (fst iv) of
               Some u \<Rightarrow> diff_value cap p u (snd iv) d
             | None \<Rightarrow> push cap p Added None (Some (snd iv)) d))
      (zip yi ys)
      (fold (\<lambda>iv d.
          if fst iv \<in> set yi then d
          else case pick_path path (fst iv) of
              Some p \<Rightarrow> push cap p Removed (Some (snd iv)) None d
            | None \<Rightarrow> changed_beneath cap path d)
        (zip xi xs) d)"
  by pat_completeness auto
termination
proof (relation "measure (\<lambda>a. case a of
      Inl (cap, path, old, new, d) \<Rightarrow> 2 * size old
    | Inr (Inl (cap, path, m, n, d)) \<Rightarrow> 2 * size (JObj m) - 1
    | Inr (Inr (cap, path, xs, xi, ys, yi, d)) \<Rightarrow> 2 * size (JArr xs) - 1)")
  show "((Inl (cap, p, u, v, d)), Inr (Inl (cap', path, m, n, d'))) \<in> measure (\<lambda>a. case a of
      Inl (cap, path, old, new, d) \<Rightarrow> 2 * size old
    | Inr (Inl (cap, path, m, n, d)) \<Rightarrow> 2 * size (JObj m) - 1
    | Inr (Inr (cap, path, xs, xi, ys, yi, d)) \<Rightarrow> 2 * size (JArr xs) - 1)"
    if "bt_get m k = Some u" for cap cap' p path u v d d' m n k
    using json_entry_size_pair [OF map_of_SomeD [OF that]] by simp
next
  show "((Inl (cap, p, u, v, d)), Inr (Inr (cap', path, xs, xi, ys, yi, d'))) \<in> measure (\<lambda>a. case a of
      Inl (cap, path, old, new, d) \<Rightarrow> 2 * size old
    | Inr (Inl (cap, path, m, n, d)) \<Rightarrow> 2 * size (JObj m) - 1
    | Inr (Inr (cap, path, xs, xi, ys, yi, d)) \<Rightarrow> 2 * size (JArr xs) - 1)"
    if "map_of (zip xi xs) k = Some u" for cap cap' p path u v d d' xs xi ys yi k
  proof -
    have "u \<in> set xs" using map_of_SomeD [OF that] by (rule set_zip_rightD)
    then have "size u \<le> size_list size xs" by (rule size_list_estimation') simp
    then show ?thesis by simp
  qed
qed auto

declare diff_value.simps [simp del] diff_object.simps [simp del] diff_records.simps [simp del]

definition diff :: "json \<Rightarrow> json \<Rightarrow> nat \<Rightarrow> facts_diff" where
  "diff old new max_changes =
     out (diff_value max_changes [] old new
           \<lparr>out = \<lparr>changes = [], truncated = 0\<rparr>, at_parent = {}\<rparr>)"

section \<open>What a difference says is true\<close>

lemma list_all2_bt_get:
  "list_all2 (\<lambda>a b. fst a = fst b \<and> R (snd a) (snd b)) m n \<Longrightarrow> rel_option R (bt_get m k) (bt_get n k)"
  by (induction rule: list_all2_induct) auto

lemma same_opt_iff: "same_opt a b = rel_option same a b"
  by (cases a; cases b) auto

lemma same_JObjD: "same (JObj m) (JObj n) \<Longrightarrow> same_opt (bt_get m k) (bt_get n k)"
  by (simp add: same_opt_iff list_all2_bt_get)

lemma same_JStr: "same (JStr s) v \<longleftrightarrow> v = JStr s" "same v (JStr s) \<longleftrightarrow> v = JStr s"
  by (cases v, auto)+

lemma same_as_str: "same u v \<Longrightarrow> as_str u = as_str v"
  by (cases u; cases v) auto

lemma same_member_str:
  "same_opt a b \<Longrightarrow> Option.bind a as_str = Option.bind b as_str"
  by (cases a; cases b) (auto simp: same_as_str)

lemma record_ids_from_cong:
  "list_all2 same xs ys \<Longrightarrow> record_ids_from xs seen = record_ids_from ys seen"
proof (induction arbitrary: seen rule: list_all2_induct)
  case (Cons x xs y ys)
  show ?case
  proof (cases x)
    case (JObj m)
    with Cons.hyps obtain n where y: "y = JObj n" by (cases y) auto
    have "Option.bind (bt_get m ''id'') as_str = Option.bind (bt_get n ''id'') as_str"
      using same_JObjD Cons.hyps(1) by (intro same_member_str) (simp add: JObj y)
    with Cons.IH show ?thesis by (simp add: JObj y split: option.splits)
  qed (use Cons.hyps(1) in \<open>cases y; auto\<close>)+
qed simp

lemma record_ids_from_spec:
  "record_ids_from xs seen = Some xi \<Longrightarrow>
   length xi = length xs \<and> distinct xi \<and> set xi \<inter> seen = {}
   \<and> list_all2 (\<lambda>x i. is_object x \<and> get_member x ''id'' = Some (JStr i)) xs xi"
proof (induction xs arbitrary: seen xi)
  case (Cons x xs)
  then obtain m i xi' where x: "x = JObj m" "bt_get m ''id'' = Some (JStr i)"
    and i: "i \<notin> seen" and rec: "record_ids_from xs (insert i seen) = Some xi'" and xi: "xi = i # xi'"
    by (auto split: json.splits option.splits if_splits bind_splits simp: as_str_Some)
  from Cons.IH [OF rec] x i xi show ?case by auto
qed simp

lemmas record_ids_spec = record_ids_from_spec [where seen = "{}", folded record_ids_def]

text \<open>In a record list, an id selects the record it names and no other.\<close>

lemma filter_id:
  "list_all2 (\<lambda>x i. is_object x \<and> get_member x ''id'' = Some (JStr i)) xs xi \<Longrightarrow> distinct xi \<Longrightarrow>
   filter (\<lambda>r. get_member r ''id'' = Some (JStr i)) xs =
     (case map_of (zip xi xs) i of Some u \<Rightarrow> [u] | None \<Rightarrow> [])"
proof (induction rule: list_all2_induct)
  case (Cons x xs j xi)
  show ?case
  proof (cases "i = j")
    case True
    then have none: "map_of (zip xi xs) i = None"
      using Cons.prems by (auto simp: map_of_eq_None_iff dest: set_zip_leftD)
    have "filter (\<lambda>r. get_member r ''id'' = Some (JStr i)) xs = []"
      using Cons.IH Cons.prems none by simp
    with True Cons.hyps(1) show ?thesis by simp
  next
    case False
    with Cons show ?thesis by simp
  qed
qed simp

text \<open>The value at a path of a document; the empty path is the document.\<close>

definition reads :: "json \<Rightarrow> str \<Rightarrow> json list" where
  "reads doc p =
     (if p = [] then [doc]
      else case fact_path_try_from p of Inl _ \<Rightarrow> [] | Inr q \<Rightarrow> resolve q doc)"

definition usable :: "str \<Rightarrow> bool" where
  "usable p \<longleftrightarrow> p = [] \<or> (\<exists>q. fact_path_try_from p = Inr q)"

lemma reads_usable: "reads doc p = v # vs \<Longrightarrow> usable p"
  by (auto simp: reads_def usable_def split: if_splits sum.splits)

lemma try_from_parse: "fact_path_try_from p = Inr q \<Longrightarrow> parse p = Inr q"
  by (auto simp: fact_path_try_from_def split: if_splits sum.splits)

lemma child_nonempty: "child path k r = Some p \<Longrightarrow> p \<noteq> []"
  by (elim childE) (auto simp: id_text_def)

lemma reads_child:
  assumes "reads doc path = [JObj m]" and c: "child path k False = Some p"
  shows "usable p" "reads doc p = (case bt_get m k of Some v \<Rightarrow> [v] | None \<Rightarrow> [])"
proof -
  have "\<exists>q. fact_path_try_from p = Inr q \<and> resolve q doc = step_key k (JObj m)"
  proof (cases "path = []")
    case True
    then have "doc = JObj m" using assms(1) by (simp add: reads_def)
    then show ?thesis
      using child_top_parses c child_length [OF c] True
      by (auto simp: fact_path_try_from_def resolve_def resolve_segment_def)
  next
    case False
    then obtain P where P: "fact_path_try_from path = Inr P" "resolve P doc = [JObj m]"
      using assms(1) by (auto simp: reads_def split: sum.splits)
    from child_resolves [OF try_from_parse [OF P(1)] c, of doc] P(2) show ?thesis by auto
  qed
  then show "usable p" "reads doc p = (case bt_get m k of Some v \<Rightarrow> [v] | None \<Rightarrow> [])"
    using child_nonempty [OF c] by (auto simp: usable_def reads_def)
qed

lemma reads_pick:
  assumes "reads doc path = [JArr xs]" and c: "pick_path path i = Some p"
    and xi: "record_ids xs = Some xi"
  shows "usable p" "reads doc p = (case map_of (zip xi xs) i of Some v \<Rightarrow> [v] | None \<Rightarrow> [])"
proof -
  have path: "path \<noteq> []" and p: "p \<noteq> []" using c by (auto simp: pick_path_def split: if_splits)
  then obtain P where P: "fact_path_try_from path = Inr P" "resolve P doc = [JArr xs]"
    using assms(1) by (auto simp: reads_def split: sum.splits)
  from pick_resolves [OF try_from_parse [OF P(1)] c P(2)] record_ids_spec [OF xi]
  show "usable p" "reads doc p = (case map_of (zip xi xs) i of Some v \<Rightarrow> [v] | None \<Rightarrow> [])"
    using p by (auto simp: usable_def reads_def filter_id)
qed

definition change_true :: "json \<Rightarrow> json \<Rightarrow> fact_change \<Rightarrow> bool" where
  "change_true old new c \<longleftrightarrow> usable (ch_path c) \<and>
     (case ch_kind c of
        Added \<Rightarrow> reads old (ch_path c) = [] \<and> (\<exists>v. reads new (ch_path c) = [v] \<and> ch_new c = shown v)
      | Removed \<Rightarrow> reads new (ch_path c) = [] \<and> (\<exists>u. reads old (ch_path c) = [u] \<and> ch_old c = shown u)
      | Changed \<Rightarrow> \<exists>u v. reads old (ch_path c) = [u] \<and> reads new (ch_path c) = [v] \<and> \<not> same u v)"

definition changes_true :: "json \<Rightarrow> json \<Rightarrow> differ \<Rightarrow> bool" where
  "changes_true old new d \<longleftrightarrow> (\<forall>c \<in> set (changes (out d)). change_true old new c)"

lemma push_true:
  "changes_true old new d \<Longrightarrow>
   change_true old new \<lparr>ch_path = p, ch_kind = k, ch_old = Option.bind a shown, ch_new = Option.bind b shown\<rparr> \<Longrightarrow>
   changes_true old new (push cap p k a b d)"
  by (auto simp: changes_true_def push_def)

lemma changed_true:
  assumes "changes_true old new d" "reads old p = [u]" "reads new p = [v]" "\<not> same u v"
  shows "changes_true old new (push cap p Changed a b d)"
  by (rule push_true [OF assms(1)])
     (use assms(2-4) reads_usable [of old p] in \<open>auto simp: change_true_def\<close>)

lemma beneath_true:
  assumes "changes_true old new d" "reads old p = [u]" "reads new p = [v]" "\<not> same u v"
  shows "changes_true old new (changed_beneath cap p d)"
proof -
  have "changes_true old new (d\<lparr>at_parent := insert p (at_parent d)\<rparr>)"
    using assms(1) by (simp add: changes_true_def)
  from changed_true [OF this assms(2-4)] assms(1) show ?thesis by (simp add: changed_beneath_def)
qed


lemma fold_keeps:
  "I d \<Longrightarrow> (\<And>x d. x \<in> set xs \<Longrightarrow> I d \<Longrightarrow> I (f x d)) \<Longrightarrow> I (fold f xs d)"
  by (induction xs arbitrary: d) auto

lemma keys_both: "k \<in> set (both_keys m n) \<longleftrightarrow> bt_get m k \<noteq> None \<or> bt_get n k \<noteq> None"
proof -
  have fst_fold: "fst ` set (fold (\<lambda>kv. bt_insert (fst kv) (snd kv)) xs acc) = fst ` set acc \<union> fst ` set xs"
    for xs acc :: "(str \<times> json) list"
    by (induction xs arbitrary: acc) auto
  show ?thesis
    by (simp add: both_keys_def bt_collect_def fst_fold map_of_eq_None_iff)
qed

lemma zip_map_of: "distinct yi \<Longrightarrow> (i, v) \<in> set (zip yi ys) \<Longrightarrow> map_of (zip yi ys) i = Some v"
  by (intro map_of_is_SomeI) (auto simp: distinct_zipI1 map_fst_zip_take)

lemma same_records:
  assumes "same (JArr xs) (JArr ys)" "record_ids xs = Some xi" "record_ids ys = Some yi"
  shows "yi = xi" "same_opt (map_of (zip xi xs) i) (map_of (zip yi ys) i)"
proof -
  have l: "list_all2 same xs ys" using assms(1) by simp
  then show e: "yi = xi"
    using assms(2,3) record_ids_from_cong [OF l] by (simp add: record_ids_def)
  have "length xi = length xs" using record_ids_spec [OF assms(2)] by simp
  then have "same_opt (map_of (zip xi xs) i) (map_of (zip xi ys) i)" using l
  proof (induction xi xs arbitrary: ys rule: list_induct2)
    case (Cons j xi x xs)
    then show ?case by (cases ys) auto
  qed auto
  with e show "same_opt (map_of (zip xi xs) i) (map_of (zip yi ys) i)" by simp
qed

lemma diff_true:
  "reads old path = [u] \<Longrightarrow> reads new path = [v] \<Longrightarrow> changes_true old new d \<Longrightarrow>
   changes_true old new (diff_value cap path u v d)"
  "reads old path = [JObj m] \<Longrightarrow> reads new path = [JObj n] \<Longrightarrow> changes_true old new d \<Longrightarrow>
   changes_true old new (diff_object cap path m n d)"
  "reads old path = [JArr xs] \<Longrightarrow> reads new path = [JArr ys] \<Longrightarrow>
   record_ids xs = Some xi \<Longrightarrow> record_ids ys = Some yi \<Longrightarrow> changes_true old new d \<Longrightarrow>
   changes_true old new (diff_records cap path xs xi ys yi d)"
proof (induction cap path u v d and cap path m n d and cap path xs xi ys yi d
    rule: diff_value_diff_object_diff_records.induct)
  case (1 cap path u v d)
  show ?case
  proof (cases "is_object u \<and> is_object v \<or> (\<exists>xs ys. u = JArr xs \<and> v = JArr ys
      \<and> record_ids xs \<noteq> None \<and> record_ids ys \<noteq> None) \<or> same u v")
    case True
    with 1 show ?thesis
      by (subst diff_value.simps)
         (auto split: json.splits option.splits simp: changed_true)
  next
    case False
    with 1 show ?thesis
      by (subst diff_value.simps)
         (auto split: json.splits option.splits intro: changed_true)
  qed
next
  case (2 cap path m n d)
  show ?case
    unfolding diff_object.simps
  proof (rule fold_keeps [where I = "changes_true old new", OF "2.prems"(3)])
    fix k d
    assume k: "k \<in> set (both_keys m n)" and d: "changes_true old new d"
    show "changes_true old new
      (case child path k False of
          None \<Rightarrow> if same_opt (bt_get m k) (bt_get n k) then d else changed_beneath cap path d
        | Some p \<Rightarrow>
            (case bt_get m k of
               Some u \<Rightarrow>
                 (case bt_get n k of
                    Some v \<Rightarrow> diff_value cap p u v d
                  | None \<Rightarrow> push cap p Removed (Some u) None d)
             | None \<Rightarrow> push cap p Added None (bt_get n k) d))"
    proof (cases "child path k False")
      case None
      with d same_JObjD [of m n k] beneath_true [OF d "2.prems"(1,2)] show ?thesis by auto
    next
      case (Some p)
      note o = reads_child [OF "2.prems"(1) Some] and n = reads_child [OF "2.prems"(2) Some]
      show ?thesis
        using "2.IH" [OF k Some] k d o n
        by (auto simp: Some keys_both change_true_def split: option.splits intro!: push_true)
    qed
  qed
next
  case (3 cap path xs xi ys yi d)
  note xi = record_ids_spec [OF "3.prems"(3)] and yi = record_ids_spec [OF "3.prems"(4)]
  have same: "yi = xi \<and> (\<forall>i. same_opt (map_of (zip xi xs) i) (map_of (zip yi ys) i))"
    if "same (JArr xs) (JArr ys)"
    using same_records [OF that "3.prems"(3,4)] by simp
  have first: "changes_true old new (fold (\<lambda>iv d.
          if fst iv \<in> set yi then d
          else case pick_path path (fst iv) of
              Some p \<Rightarrow> push cap p Removed (Some (snd iv)) None d
            | None \<Rightarrow> changed_beneath cap path d) (zip xi xs) d)" (is "changes_true _ _ ?d1")
  proof (rule fold_keeps [where I = "changes_true old new", OF "3.prems"(5)])
    fix iv d
    assume iv: "iv \<in> set (zip xi xs)" and d: "changes_true old new d"
    obtain i u where [simp]: "iv = (i, u)" by (cases iv)
    have i: "i \<in> set xi" "map_of (zip xi xs) i = Some u"
      using iv xi zip_map_of by (auto dest: set_zip_leftD)
    show "changes_true old new (if fst iv \<in> set yi then d
          else case pick_path path (fst iv) of
              Some p \<Rightarrow> push cap p Removed (Some (snd iv)) None d
            | None \<Rightarrow> changed_beneath cap path d)"
    proof (cases "i \<in> set yi \<or> pick_path path i = None")
      case True
      have "changes_true old new (changed_beneath cap path d)" if "i \<notin> set yi"
        using that same i(1) by (intro beneath_true [OF d "3.prems"(1,2)]) auto
      with True d show ?thesis by auto
    next
      case False
      then obtain p where p: "pick_path path i = Some p" by auto
      have "map_of (zip yi ys) i = None" using False by (auto simp: map_of_eq_None_iff dest: set_zip_leftD)
      with p False d i reads_pick [OF "3.prems"(1) p "3.prems"(3)] reads_pick [OF "3.prems"(2) p "3.prems"(4)]
      show ?thesis by (auto simp: change_true_def intro!: push_true)
    qed
  qed
  show ?case
    unfolding diff_records.simps
  proof (rule fold_keeps [where I = "changes_true old new", OF first])
    fix iv d
    assume iv: "iv \<in> set (zip yi ys)" and d: "changes_true old new d"
    obtain i v where [simp]: "iv = (i, v)" by (cases iv)
    have i: "map_of (zip yi ys) i = Some v" using iv yi zip_map_of by auto
    show "changes_true old new (case pick_path path (fst iv) of
          None \<Rightarrow> if same_opt (map_of (zip xi xs) (fst iv)) (Some (snd iv)) then d
                  else changed_beneath cap path d
        | Some p \<Rightarrow>
            (case map_of (zip xi xs) (fst iv) of
               Some u \<Rightarrow> diff_value cap p u (snd iv) d
             | None \<Rightarrow> push cap p Added None (Some (snd iv)) d))"
    proof (cases "pick_path path i")
      case None
      have "changes_true old new (changed_beneath cap path d)"
        if "\<not> same_opt (map_of (zip xi xs) i) (Some v)"
        using that same i by (intro beneath_true [OF d "3.prems"(1,2)]) metis
      with d None show ?thesis by simp
    next
      case (Some p)
      note o = reads_pick [OF "3.prems"(1) Some "3.prems"(3)]
        and n = reads_pick [OF "3.prems"(2) Some "3.prems"(4)]
      show ?thesis
        using "3.IH" [OF iv] i d o n Some
        by (auto simp: change_true_def split: option.splits intro!: push_true)
    qed
  qed
qed


text \<open>
  Every change the server reports between two documents is true, at a path a selector
  accepts as it stands: an added path reads nothing in the old document and the added value
  in the new one, a removed path the other way round, and a changed path reads two values
  that differ. The empty path stands for the document.
\<close>

theorem diff_changes_true:
  "list_all (change_true old new) (changes (diff old new max_changes))"
proof -
  have "changes_true old new (diff_value max_changes [] old new
      \<lparr>out = \<lparr>changes = [], truncated = 0\<rparr>, at_parent = {}\<rparr>)"
    by (rule diff_true(1)) (simp_all add: reads_def changes_true_def)
  then show ?thesis by (simp add: diff_def changes_true_def list_all_iff)
qed

section \<open>The cap only cuts the list\<close>

definition capped :: "nat \<Rightarrow> nat \<Rightarrow> differ \<Rightarrow> differ \<Rightarrow> bool" where
  "capped k m d d' \<longleftrightarrow> at_parent d = at_parent d'
     \<and> changes (out d) = take k (changes (out d'))
     \<and> length (changes (out d)) + truncated (out d) = length (changes (out d')) + truncated (out d')
     \<and> length (changes (out d')) \<le> m"

lemma capped_push: "k \<le> m \<Longrightarrow> capped k m d d' \<Longrightarrow> capped k m (push k p c a b d) (push m p c a b d')"
  by (auto simp: capped_def push_def)

lemma capped_beneath:
  "k \<le> m \<Longrightarrow> capped k m d d' \<Longrightarrow> capped k m (changed_beneath k p d) (changed_beneath m p d')"
proof -
  assume "k \<le> m" and c: "capped k m d d'"
  moreover have "capped k m (d\<lparr>at_parent := insert p (at_parent d)\<rparr>)
      (d'\<lparr>at_parent := insert p (at_parent d')\<rparr>)"
    using c unfolding capped_def by (cases d; cases d') (simp only: differ.simps differ.update_convs)
  moreover have "at_parent d = at_parent d'" using c by (simp add: capped_def)
  ultimately show ?thesis by (simp add: changed_beneath_def capped_push)
qed

lemma fold_capped:
  "capped k m d d' \<Longrightarrow>
   (\<And>x d d'. x \<in> set xs \<Longrightarrow> capped k m d d' \<Longrightarrow> capped k m (f x d) (g x d')) \<Longrightarrow>
   capped k m (fold f xs d) (fold g xs d')"
  by (induction xs arbitrary: d d') auto

lemma diff_capped:
  "k \<le> m \<Longrightarrow> capped k m d d' \<Longrightarrow>
   capped k m (diff_value k path u v d) (diff_value m path u v d')"
  "k \<le> m \<Longrightarrow> capped k m d d' \<Longrightarrow>
   capped k m (diff_object k path a b d) (diff_object m path a b d')"
  "k \<le> m \<Longrightarrow> capped k m d d' \<Longrightarrow>
   capped k m (diff_records k path xs xi ys yi d) (diff_records m path xs xi ys yi d')"
proof (induction k path u v d and k path a b d and k path xs xi ys yi d
    arbitrary: d' and d' and d' rule: diff_value_diff_object_diff_records.induct)
  case (1 k path u v d)
  then show ?case
    by (subst (1 2) diff_value.simps) (auto split: json.splits option.splits intro: capped_push)
next
  case (2 k path a b d)
  show ?case
    unfolding diff_object.simps
    by (rule fold_capped [OF "2.prems"(2)])
       (auto split: option.splits intro: capped_push capped_beneath "2.IH" "2.prems"(1))
next
  case (3 k path xs xi ys yi d)
  show ?case
    unfolding diff_records.simps
    by (intro fold_capped "3.prems"(2))
       (auto split: option.splits intro: capped_push capped_beneath "3.IH" "3.prems"(1))
qed

text \<open>
  The limit on reported changes only cuts the list: with a smaller limit the changes are
  a prefix of what a larger one reports, and the count of those left out makes up the
  difference.
\<close>

theorem diff_cap_truncates:
  assumes "k \<le> m"
  shows "changes (diff old new k) = take k (changes (diff old new m))
    \<and> length (changes (diff old new k)) + truncated (diff old new k) =
      length (changes (diff old new m)) + truncated (diff old new m)"
proof -
  have "capped k m (diff_value k [] old new \<lparr>out = \<lparr>changes = [], truncated = 0\<rparr>, at_parent = {}\<rparr>)
      (diff_value m [] old new \<lparr>out = \<lparr>changes = [], truncated = 0\<rparr>, at_parent = {}\<rparr>)"
    by (rule diff_capped(1) [OF assms]) (simp add: capped_def)
  then show ?thesis unfolding diff_def capped_def by blast
qed

theorem diff_cap_truncates_witness:
  "changes (diff (JBool True) (JBool False) 0) = take 0 (changes (diff (JBool True) (JBool False) 5))
   \<and> length (changes (diff (JBool True) (JBool False) 5)) = 1"
  using diff_cap_truncates [of 0 5 "JBool True" "JBool False"]
  by (simp add: diff_def diff_value.simps push_def)


section \<open>An empty difference means no difference\<close>

text \<open>
  Two documents that agree but for the order of listed records: equal values, maps alike key
  by key, and record lists alike id by id.
\<close>

inductive alike :: "json \<Rightarrow> json \<Rightarrow> bool" where
  alike_same: "same u v \<Longrightarrow> alike u v"
| alike_object: "(\<And>k. bt_get m k = None \<longleftrightarrow> bt_get n k = None) \<Longrightarrow>
    (\<And>k u v. bt_get m k = Some u \<Longrightarrow> bt_get n k = Some v \<Longrightarrow> alike u v) \<Longrightarrow> alike (JObj m) (JObj n)"
| alike_records: "record_ids xs = Some xi \<Longrightarrow> record_ids ys = Some yi \<Longrightarrow> set xi = set yi \<Longrightarrow>
    (\<And>i u v. map_of (zip xi xs) i = Some u \<Longrightarrow> map_of (zip yi ys) i = Some v \<Longrightarrow> alike u v) \<Longrightarrow>
    alike (JArr xs) (JArr ys)"

text \<open>A walk that has reported nothing; once it has, it stays that way.\<close>

definition quiet :: "differ \<Rightarrow> bool" where
  "quiet d \<longleftrightarrow> diff_is_empty (out d) \<and> at_parent d = {}"

definition loud :: "differ \<Rightarrow> bool" where
  "loud d \<longleftrightarrow> \<not> diff_is_empty (out d)"

lemma loud_push [simp]: "loud (push cap p c a b d)"
  by (auto simp: loud_def push_def diff_is_empty_def)

lemma loud_beneath: "loud d \<or> quiet d \<Longrightarrow> loud (changed_beneath cap p d)"
  by (auto simp: changed_beneath_def quiet_def loud_def [of d])

lemma loud_not_quiet: "loud d \<Longrightarrow> \<not> quiet d"
  by (simp add: loud_def quiet_def)

text \<open>
  What a step of the walk tells: once anything is reported the walk stays loud, and while it
  is quiet the compared things satisfied \<open>q\<close>.
\<close>

definition tells :: "differ \<Rightarrow> differ \<Rightarrow> bool \<Rightarrow> bool" where
  "tells d d' q \<longleftrightarrow> (loud d \<or> quiet d \<longrightarrow> loud d' \<or> quiet d \<and> quiet d' \<and> q)"

lemma tells_push [simp, intro]: "tells d (push cap p c a b d) q"
  by (simp add: tells_def)

lemma tells_beneath [simp, intro]: "tells d (changed_beneath cap p d) q"
  by (simp add: tells_def loud_beneath)

lemma tells_same: "tells d d q \<longleftrightarrow> q \<or> \<not> quiet d"
  by (auto simp: tells_def dest: loud_not_quiet)

lemma tells_trans: "tells d d1 p \<Longrightarrow> tells d1 d2 q \<Longrightarrow> (p \<Longrightarrow> q \<Longrightarrow> r) \<Longrightarrow> tells d d2 r"
  using loud_not_quiet unfolding tells_def by blast

lemma tells_weaken: "tells d d' p \<Longrightarrow> (p \<Longrightarrow> q) \<Longrightarrow> tells d d' q"
  by (auto simp: tells_def)

lemma tells_fold:
  "(\<And>x d. x \<in> set xs \<Longrightarrow> tells d (f x d) (q x)) \<Longrightarrow> tells d (fold f xs d) (\<forall>x \<in> set xs. q x)"
proof (induction xs arbitrary: d)
  case Nil
  then show ?case by (simp add: tells_same)
next
  case (Cons x xs)
  have "tells d (f x d) (q x)" "tells (f x d) (fold f xs (f x d)) (\<forall>x \<in> set xs. q x)"
    using Cons by auto
  then show ?case by (auto intro: tells_trans)
qed

lemma diff_tells:
  "tells d (diff_value cap path u v d) (alike u v)"
  "tells d (diff_object cap path m n d) (alike (JObj m) (JObj n))"
  "record_ids xs = Some xi \<Longrightarrow> record_ids ys = Some yi \<Longrightarrow>
   tells d (diff_records cap path xs xi ys yi d) (alike (JArr xs) (JArr ys))"
proof (induction cap path u v d and cap path m n d and cap path xs xi ys yi d
    rule: diff_value_diff_object_diff_records.induct)
  case (1 cap path u v d)
  then show ?case
    by (subst diff_value.simps)
       (auto split: json.splits option.splits simp: tells_same intro: alike_same)
next
  case (2 cap path m n d)
  let ?q = "\<lambda>k. rel_option alike (bt_get m k) (bt_get n k)"
  have "tells d (diff_object cap path m n d) (\<forall>k \<in> set (both_keys m n). ?q k)"
    unfolding diff_object.simps
  proof (rule tells_fold)
    fix k d
    assume k: "k \<in> set (both_keys m n)"
    show "tells d
      (case child path k False of
          None \<Rightarrow> if same_opt (bt_get m k) (bt_get n k) then d else changed_beneath cap path d
        | Some p \<Rightarrow>
            (case bt_get m k of
               Some u \<Rightarrow>
                 (case bt_get n k of
                    Some v \<Rightarrow> diff_value cap p u v d
                  | None \<Rightarrow> push cap p Removed (Some u) None d)
             | None \<Rightarrow> push cap p Added None (bt_get n k) d)) (?q k)"
      using "2.IH" [OF k] k
      by (auto simp: tells_same same_opt_iff split: option.splits
          intro: option.rel_mono_strong alike_same)
  qed
  then show ?case
  proof (rule tells_weaken)
    assume "\<forall>k \<in> set (both_keys m n). ?q k"
    then have q: "?q k" for k
      by (cases "k \<in> set (both_keys m n)") (auto simp: keys_both)
    show "alike (JObj m) (JObj n)"
    proof (rule alike_object)
      show "bt_get m k = None \<longleftrightarrow> bt_get n k = None" for k
        using q [of k] by (cases "bt_get m k"; cases "bt_get n k") auto
      show "alike u v" if "bt_get m k = Some u" "bt_get n k = Some v" for k u v
        using q [of k] that by simp
    qed
  qed
next
  case (3 cap path xs xi ys yi d)
  let ?q = "\<lambda>iv. rel_option alike (map_of (zip xi xs) (fst iv)) (Some (snd iv))"
  note xi = record_ids_spec [OF "3.prems"(1)] and yi = record_ids_spec [OF "3.prems"(2)]
  let ?d1 = "fold (\<lambda>iv d.
          if fst iv \<in> set yi then d
          else case pick_path path (fst iv) of
              Some p \<Rightarrow> push cap p Removed (Some (snd iv)) None d
            | None \<Rightarrow> changed_beneath cap path d)
        (zip xi xs) d"
  have "tells d ?d1 (\<forall>iv \<in> set (zip xi xs). fst iv \<in> set yi)"
    by (rule tells_fold) (auto simp: tells_same split: option.splits)
  moreover have "tells ?d1 (diff_records cap path xs xi ys yi d) (\<forall>iv \<in> set (zip yi ys). ?q iv)"
    unfolding diff_records.simps
  proof (rule tells_fold)
    fix iv d
    assume iv: "iv \<in> set (zip yi ys)"
    show "tells d (case pick_path path (fst iv) of
          None \<Rightarrow> if same_opt (map_of (zip xi xs) (fst iv)) (Some (snd iv)) then d
                  else changed_beneath cap path d
        | Some p \<Rightarrow>
            (case map_of (zip xi xs) (fst iv) of
               Some u \<Rightarrow> diff_value cap p u (snd iv) d
             | None \<Rightarrow> push cap p Added None (Some (snd iv)) d)) (?q iv)"
      using "3.IH" [OF iv]
      by (auto simp: tells_same same_opt_iff split: option.splits
          intro: option.rel_mono_strong alike_same)
  qed
  ultimately show ?case
  proof (rule tells_trans)
    assume a: "\<forall>iv \<in> set (zip xi xs). fst iv \<in> set yi" and b: "\<forall>iv \<in> set (zip yi ys). ?q iv"
    have dom: "\<exists>v. map_of (zip yi ys) i = Some v" if "i \<in> set yi" for i
      using that yi by (metis dom_map_of_zip domD)
    have b': "rel_option alike (map_of (zip xi xs) i) (Some v)" if "map_of (zip yi ys) i = Some v" for i v
      using b map_of_SomeD [OF that] by force
    have "set xi \<subseteq> set yi" using a xi by (metis fst_conv in_set_impl_in_set_zip1 subsetI)
    moreover have "set yi \<subseteq> set xi"
    proof
      fix i assume "i \<in> set yi"
      then obtain v where "map_of (zip yi ys) i = Some v" using dom by blast
      from b' [OF this] obtain u where "map_of (zip xi xs) i = Some u" by (auto simp: option_rel_Some2)
      then show "i \<in> set xi" by (blast dest: map_of_SomeD set_zip_leftD)
    qed
    ultimately show "alike (JArr xs) (JArr ys)"
      using b' by (intro alike_records [OF "3.prems"]) (auto, fastforce)
  qed
qed

text \<open>
  Nothing is missed: when two documents differ in anything but the order of listed
  records, the difference is not empty, whatever the limit on reported changes.
\<close>

theorem diff_empty_alike:
  assumes "diff_is_empty (diff old new max_changes)"
  shows "alike old new"
proof -
  have "tells \<lparr>out = \<lparr>changes = [], truncated = 0\<rparr>, at_parent = {}\<rparr>
      (diff_value max_changes [] old new \<lparr>out = \<lparr>changes = [], truncated = 0\<rparr>, at_parent = {}\<rparr>)
      (alike old new)"
    by (rule diff_tells)
  with assms show ?thesis
    by (auto simp: tells_def loud_def quiet_def diff_is_empty_def diff_def)
qed

theorem diff_empty_alike_witness:
  "alike (JArr [JObj [(''id'', JStr ''a'')], JObj [(''id'', JStr ''b'')]])
         (JArr [JObj [(''id'', JStr ''b'')], JObj [(''id'', JStr ''a'')]])"
  by (rule diff_empty_alike [of _ _ 0])
     (simp add: diff_def diff_value.simps diff_records.simps diff_object.simps record_ids_def
       diff_is_empty_def pick_path_def both_keys_def bt_collect_def child_def)

section \<open>An accepted upload\<close>


text \<open>A stored timestamp is at most 64 characters and never empty.\<close>

lemma parse_upload_collected_at:
  "parse_upload from_slice sha256 body = Inr u \<Longrightarrow> up_collected_at u = Some t \<Longrightarrow>
   t \<noteq> [] \<and> (\<exists>c. t = take_chars 64 (trim c))"
  by (auto simp: parse_upload_def Let_def MAX_COLLECTED_AT_LEN_def split: sum.splits option.splits if_splits)

text \<open>A refusal names the hash only when that hash was well formed.\<close>

lemma declared_hash_normal:
  "parse_upload from_slice sha256 body = Inl e \<Longrightarrow> declared_hash e = Some h \<Longrightarrow> length h = 64"
  by (auto simp: parse_upload_def normalize_hash_def split: sum.splits option.splits if_splits)

end
