(* ===== verification/Db.thy ===== *)
theory Db
  imports Selector "HOL-Library.Multiset"
begin

text \<open>
  The database: one record per table of \<open>migrations/\<close> with the columns the code reads or
  writes, and the statements the repositories are made of. A table is its rows in rowid
  order. Times and ids are \<open>i64\<close> in the code and integers here; \<open>now\<close>
  (\<open>time::now_unix\<close>) is an argument of every operation that reads the clock. An
  operation that can fail returns \<open>sql_error\<close> in the left of a sum and then changes
  nothing: every failing path of the code drops or rolls back its transaction.
\<close>

section \<open>Rows\<close>

record tenant_row =
  t_id :: int
  t_slug :: str
  t_name :: str
  t_tier :: str
  t_trial_expires_at :: "int option"
  t_config_version :: int
  t_created_at :: int
  t_tier_overrides_json :: "str option"

record user_row =
  u_id :: int
  u_tenant :: int
  u_email :: str
  u_role :: str
  u_created_at :: int
  u_is_platform_admin :: int
  u_blocked_at :: "int option"

record session_row =
  s_id :: str
  s_tenant :: int
  s_user :: int
  s_expires_at :: int
  s_last_used_at :: int
  s_created_at :: int

record magic_link_row =
  ml_token_hash :: str
  ml_tenant :: int
  ml_user :: int
  ml_expires_at :: int
  ml_used_at :: "int option"
  ml_created_at :: int

record api_key_row =
  k_id :: str
  k_tenant :: int
  k_user :: int
  k_name :: str
  k_token_hash :: str
  k_token_prefix :: str
  k_created_at :: int
  k_last_used_at :: "int option"
  k_expires_at :: "int option"

record host_row =
  h_id :: str
  h_tenant :: int
  h_hostname :: "str option"
  h_os :: "str option"
  h_enrolled_at :: "int option"
  h_last_seen_at :: "int option"
  h_current_state_hash :: "str option"
  h_created_at :: int
  h_nonce_hash :: "str option"
  h_bootstrap_expires_at :: "int option"
  h_local_config_present :: "int option"
  h_host_override_last :: "int option"
  h_reported_hash :: "str option"
  h_reported_at :: "int option"
  h_refused_hash :: "str option"
  h_refused_at :: "int option"
  h_refused_status :: "int option"

record cert_row =
  c_rowid :: int
  c_tenant :: int
  c_host :: str
  c_serial :: str
  c_fingerprint :: str
  c_issued_at :: int
  c_expires_at :: int
  c_revoked_at :: "int option"

record tag_row =
  tg_tenant :: int
  tg_host :: str
  tg_key :: str
  tg_value :: str
  tg_source :: str
  tg_updated_at :: int

record override_row =
  o_tenant :: int
  o_host :: str
  o_patch_encrypted :: bytes
  o_priority :: int
  o_updated_at :: int
  o_updated_by_user :: "int option"
  o_template :: "str option"

record facts_row =
  f_tenant :: int
  f_host :: str
  f_source :: str
  f_hash :: str
  f_json :: str
  f_collected_at :: "str option"
  f_received_at :: int
  f_size_bytes :: int

record fact_change_row =
  fc_id :: int
  fc_tenant :: int
  fc_host :: str
  fc_source :: str
  fc_at :: int
  fc_hash :: str
  fc_changes_json :: str

record group_row =
  g_id :: str
  g_tenant :: int
  g_name :: str
  g_selector_json :: str
  g_created_at :: int

record bundle_row =
  b_id :: str
  b_tenant :: int
  b_name :: str
  b_version :: str
  b_sha256 :: str
  b_size_bytes :: int
  b_signature :: str
  b_uploaded_at :: int
  b_format :: str
  b_key_fingerprint :: "str option"

record assignment_row =
  a_tenant :: int
  a_group :: str
  a_bundle :: str
  a_priority :: int
  a_assigned_at :: int

record audit_row =
  au_id :: int
  au_tenant :: int
  au_user :: "int option"
  au_action :: str
  au_target_type :: str
  au_target_id :: str
  au_metadata_json :: "str option"
  au_ts :: int

record setting_row =
  ps_key :: str
  ps_value :: str
  ps_updated_at :: int
  ps_updated_by_user :: "int option"

record bundle_key_row =
  bk_tenant :: int
  bk_fingerprint :: str
  bk_created_at :: int
  bk_created_by_user :: "int option"

record secrets_row =
  ts_tenant :: int
  ts_ca_cert_pem :: str
  ts_ca_key_encrypted :: bytes
  ts_ca_subject_dn :: str
  ts_bundle_signing_pub_pem :: str
  ts_bundle_signing_key_encrypted :: bytes
  ts_created_at :: int

record db =
  tenants :: "tenant_row list"
  users :: "user_row list"
  sessions :: "session_row list"
  magic_links :: "magic_link_row list"
  api_keys :: "api_key_row list"
  hosts :: "host_row list"
  host_certs :: "cert_row list"
  host_tags :: "tag_row list"
  host_overrides :: "override_row list"
  host_facts :: "facts_row list"
  host_fact_changes :: "fact_change_row list"
  groups :: "group_row list"
  bundles :: "bundle_row list"
  bundle_assignments :: "assignment_row list"
  audit_log :: "audit_row list"
  platform_settings :: "setting_row list"
  tenant_bundle_keys :: "bundle_key_row list"
  tenant_secrets :: "secrets_row list"

definition empty_db :: db where
  "empty_db = \<lparr>tenants = [], users = [], sessions = [], magic_links = [], api_keys = [],
     hosts = [], host_certs = [], host_tags = [], host_overrides = [], host_facts = [],
     host_fact_changes = [], groups = [], bundles = [], bundle_assignments = [],
     audit_log = [], platform_settings = [], tenant_bundle_keys = [],
     tenant_secrets = []\<rparr>"

datatype sql_error = UniqueViolation | ForeignKeyViolation | CheckViolation | RowNotFound

section \<open>Statements\<close>

definition update_where :: "('r \<Rightarrow> bool) \<Rightarrow> ('r \<Rightarrow> 'r) \<Rightarrow> 'r list \<Rightarrow> 'r list" where
  "update_where p f rows = map (\<lambda>r. if p r then f r else r) rows"

definition delete_where :: "('r \<Rightarrow> bool) \<Rightarrow> 'r list \<Rightarrow> 'r list" where
  "delete_where p rows = filter (\<lambda>r. \<not> p r) rows"

definition affected :: "('r \<Rightarrow> bool) \<Rightarrow> 'r list \<Rightarrow> nat" where
  "affected p rows = length (filter p rows)"

text \<open>\<open>INSERT ... ON CONFLICT(key) DO UPDATE\<close>.\<close>

definition upsert :: "('r \<Rightarrow> bool) \<Rightarrow> ('r \<Rightarrow> 'r) \<Rightarrow> 'r \<Rightarrow> 'r list \<Rightarrow> 'r list" where
  "upsert clash f new rows =
     (if \<exists>r \<in> set rows. clash r then update_where clash f rows else rows @ [new])"

text \<open>The rowid SQLite gives an inserted row: one more than the largest there is.\<close>

definition next_rowid :: "int list \<Rightarrow> int" where
  "next_rowid ids = (if ids = [] then 1 else Max (set ids) + 1)"

text \<open>\<open>ORDER BY key DESC/ASC\<close>: stable over insertion order, so ties stay as stored.\<close>

definition order_desc :: "('r \<Rightarrow> int) \<Rightarrow> 'r list \<Rightarrow> 'r list" where
  "order_desc f rows = sort_key (\<lambda>r. - f r) rows"

definition order_asc :: "('r \<Rightarrow> 'k::linorder) \<Rightarrow> 'r list \<Rightarrow> 'r list" where
  "order_asc f rows = sort_key f rows"

definition fetch_optional :: "('r \<Rightarrow> bool) \<Rightarrow> 'r list \<Rightarrow> 'r option" where
  "fetch_optional p rows = find p rows"

section \<open>Lemmas on statements\<close>

named_theorems statements

lemma set_delete_where [simp, statements]: "set (delete_where p rows) = {r \<in> set rows. \<not> p r}"
  by (simp add: delete_where_def)

lemma set_update_where [statements]:
  "set (update_where p f rows) = (\<lambda>r. if p r then f r else r) ` set rows"
  by (simp add: update_where_def)

lemma length_update_where [simp]: "length (update_where p f rows) = length rows"
  by (simp add: update_where_def)

lemma affected_zero: "affected p rows = 0 \<longleftrightarrow> (\<forall>r \<in> set rows. \<not> p r)"
  by (simp add: affected_def filter_empty_conv)

lemma affected_pos: "affected p rows > 0 \<longleftrightarrow> (\<exists>r \<in> set rows. p r)"
  by (auto simp: affected_zero zero_less_iff_neq_zero simp flip: neq0_conv)

lemma update_where_none: "\<forall>r \<in> set rows. \<not> p r \<Longrightarrow> update_where p f rows = rows"
  by (simp add: update_where_def map_idI)

lemma delete_where_none: "\<forall>r \<in> set rows. \<not> p r \<Longrightarrow> delete_where p rows = rows"
  by (simp add: delete_where_def)

text \<open>An update that keeps a column keeps that column of every row, in order.\<close>

lemma map_update_where: "(\<And>r. p r \<Longrightarrow> g (f r) = g r) \<Longrightarrow> map g (update_where p f rows) = map g rows"
  by (simp add: update_where_def)

text \<open>
  Rows a statement does not select, seen through any filter that keeps clear of them, are
  left as they were: the frame lemmas behind tenant isolation.
\<close>

lemma filter_update_where:
  "(\<And>r. r \<in> set rows \<Longrightarrow> p r \<Longrightarrow> \<not> q r \<and> \<not> q (f r)) \<Longrightarrow> filter q (update_where p f rows) = filter q rows"
  by (induction rows) (auto simp: update_where_def)

lemma filter_delete_where:
  "(\<And>r. r \<in> set rows \<Longrightarrow> p r \<Longrightarrow> \<not> q r) \<Longrightarrow> filter q (delete_where p rows) = filter q rows"
  by (induction rows) (auto simp: delete_where_def)

lemma filter_upsert:
  "(\<And>r. r \<in> set rows \<Longrightarrow> clash r \<Longrightarrow> \<not> q r \<and> \<not> q (f r)) \<Longrightarrow> \<not> q new \<Longrightarrow>
   filter q (upsert clash f new rows) = filter q rows"
  by (simp add: upsert_def filter_update_where)

lemma distinct_map_delete: "distinct (map g rows) \<Longrightarrow> distinct (map g (delete_where p rows))"
  by (simp add: delete_where_def distinct_map_filter)

lemma distinct_map_update:
  "distinct (map g rows) \<Longrightarrow> (\<And>r. p r \<Longrightarrow> g (f r) = g r) \<Longrightarrow> distinct (map g (update_where p f rows))"
  by (simp add: map_update_where)

lemma distinct_map_upsert:
  "distinct (map g rows) \<Longrightarrow> (\<And>r. clash r \<Longrightarrow> g (f r) = g r) \<Longrightarrow>
   (\<And>r. r \<in> set rows \<Longrightarrow> \<not> clash r \<Longrightarrow> g r \<noteq> g new) \<Longrightarrow> distinct (map g (upsert clash f new rows))"
  by (auto simp: upsert_def map_update_where dest: sym)

lemma next_rowid_fresh: "i \<in> set ids \<Longrightarrow> i < next_rowid ids"
  by (auto simp: next_rowid_def zless_add1_eq Max_ge le_less_trans)

text \<open>A look-up by a unique column.\<close>

lemma find_unique:
  "distinct (map g rows) \<Longrightarrow> r \<in> set rows \<Longrightarrow> p r \<Longrightarrow> (\<And>x. x \<in> set rows \<Longrightarrow> p x \<Longrightarrow> g x = g r) \<Longrightarrow>
   find p rows = Some r"
proof (induction rows)
  case (Cons a rows)
  show ?case
  proof (cases "p a")
    case True
    then have "g a = g r" using Cons.prems(4) by simp
    moreover have "inj_on g (set (a # rows))" using Cons.prems(1) unfolding distinct_map by blast
    ultimately have "a = r" using Cons.prems(2) by (meson inj_onD list.set_intros(1))
    with True show ?thesis by simp
  next
    case False
    have "find p rows = Some r"
    proof (rule Cons.IH)
      show "distinct (map g rows)" using Cons.prems(1) by simp
      show "r \<in> set rows" using Cons.prems(2,3) False by auto
      show "g x = g r" if "x \<in> set rows" "p x" for x using Cons.prems(4) [of x] that by simp
    qed fact
    with False show ?thesis by simp
  qed
qed simp

lemma filter_unique:
  assumes "distinct (map g rows)" "r \<in> set rows" "p r" "\<And>x. x \<in> set rows \<Longrightarrow> p x \<Longrightarrow> g x = g r"
  shows "filter p rows = [r]"
proof -
  have d: "distinct rows" and inj: "inj_on g (set rows)" using assms(1) by (simp_all add: distinct_map)
  have "set (filter p rows) = {r}"
    using assms(2-4) inj by (auto dest: inj_onD)
  moreover have "distinct (filter p rows)" using d by simp
  ultimately have "length (filter p rows) = 1" by (metis distinct_card is_singletonI is_singleton_altdef)
  with \<open>set (filter p rows) = {r}\<close> show ?thesis by (cases "filter p rows") auto
qed

text \<open>An update of the one row a unique column selects, seen through a filter for it.\<close>

lemma filter_update_selected:
  "(\<And>r. r \<in> set rows \<Longrightarrow> p r \<Longrightarrow> q (f r)) \<Longrightarrow> (\<And>r. r \<in> set rows \<Longrightarrow> \<not> p r \<Longrightarrow> \<not> q r) \<Longrightarrow>
   filter q (update_where p f rows) = map f (filter p rows)"
  by (induction rows) (auto simp: update_where_def)

lemma find_SomeD: "find p xs = Some r \<Longrightarrow> r \<in> set xs \<and> p r"
  by (induction xs) (auto split: if_splits)

definition coalesce :: "'a option \<Rightarrow> 'a option \<Rightarrow> 'a option" where
  "coalesce a b = (case a of Some _ \<Rightarrow> a | None \<Rightarrow> b)"

text \<open>SQL comparisons are false on \<open>NULL\<close>.\<close>

fun is_after :: "int option \<Rightarrow> int \<Rightarrow> bool" where
  "is_after (Some e) t = (e > t)"
| "is_after None t = False"

lemma is_after_iff: "is_after e t \<longleftrightarrow> (\<exists>x. e = Some x \<and> x > t)"
  by (cases e) auto

end
