(* ===== verification/Contracts.thy ===== *)
theory Contracts
  imports Db
begin

text \<open>
  The interfaces several components implement: a credential that works once, an operation
  that stays inside its tenant, and a store whose operations keep an invariant. Each is
  interpreted on the model's own operations, in the theory that provides them.
\<close>

section \<open>Operations that keep an invariant\<close>

locale invariant_ops =
  fixes ok :: "'s \<Rightarrow> bool"
    and step :: "'op \<Rightarrow> 's \<Rightarrow> 's"
  assumes step_ok: "ok s \<Longrightarrow> ok (step op s)"
begin

lemma run_ok: "ok s \<Longrightarrow> ok (fold step ops s)"
  by (induction ops arbitrary: s) (auto intro: step_ok)

end

section \<open>A credential that works once\<close>

text \<open>
  \<open>live\<close> says that a token could still be redeemed, at some time; \<open>issues\<close> which
  operations hand a token out. \<open>redeem\<close> returns whether it accepted the token, with the
  new state; its second argument is whatever else the request carries, the clock included.
\<close>

locale one_shot = invariant_ops ok step
  for ok :: "'s \<Rightarrow> bool" and step :: "'op \<Rightarrow> 's \<Rightarrow> 's" +
  fixes live :: "'t \<Rightarrow> 's \<Rightarrow> bool"
    and redeem :: "'t \<Rightarrow> 'req \<Rightarrow> 's \<Rightarrow> bool \<times> 's"
    and issues :: "'op \<Rightarrow> 't \<Rightarrow> bool"
  assumes redeem_live: "fst (redeem t req s) \<Longrightarrow> live t s"
    and redeem_burns: "ok s \<Longrightarrow> fst (redeem t req s) \<Longrightarrow> \<not> live t (snd (redeem t req s))"
    and redeem_ok: "ok s \<Longrightarrow> ok (snd (redeem t req s))"
    and step_dead: "ok s \<Longrightarrow> \<not> live t s \<Longrightarrow> \<not> issues op t \<Longrightarrow> \<not> live t (step op s)"
begin

lemma run_dead:
  "ok s \<Longrightarrow> \<not> live t s \<Longrightarrow> \<forall>op \<in> set ops. \<not> issues op t \<Longrightarrow> \<not> live t (fold step ops s)"
proof (induction ops arbitrary: s)
  case (Cons op ops)
  then show ?case using step_ok step_dead by simp
qed simp

lemma dead_refused: "\<not> live t s \<Longrightarrow> \<not> fst (redeem t req s)"
  using redeem_live by blast

text \<open>Whatever happens after a token was redeemed, it is refused until it is issued again.\<close>

lemma redeemed_once:
  assumes "ok s" and "fst (redeem t req s)" and "\<forall>op \<in> set ops. \<not> issues op t"
  shows "\<not> fst (redeem t req' (fold step ops (snd (redeem t req s))))"
  using assms redeem_burns redeem_ok by (intro dead_refused run_dead)

end

section \<open>Operations that stay inside a tenant\<close>

text \<open>
  \<open>view t\<close> is everything the state holds for tenant \<open>t\<close>; \<open>acts\<close> is the tenant an
  operation is performed for.
\<close>

locale tenant_scoped = invariant_ops ok step
  for ok :: "'s \<Rightarrow> bool" and step :: "'op \<Rightarrow> 's \<Rightarrow> 's" +
  fixes view :: "int \<Rightarrow> 's \<Rightarrow> 'v"
    and acts :: "'op \<Rightarrow> int"
  assumes step_frame: "ok s \<Longrightarrow> acts op \<noteq> t \<Longrightarrow> view t (step op s) = view t s"
begin

lemma run_frame:
  "ok s \<Longrightarrow> \<forall>op \<in> set ops. acts op \<noteq> t \<Longrightarrow> view t (fold step ops s) = view t s"
proof (induction ops arbitrary: s)
  case (Cons op ops)
  then show ?case using step_ok step_frame by simp
qed simp

end

end
