(* ===== verification/Users.thy ===== *)
theory Users
  imports Contracts
begin

text \<open>
  \<open>crates/core/src/user.rs\<close>, \<open>session.rs\<close>, \<open>api_key.rs\<close> and \<open>tenant.rs\<close>:
  roles and what they allow, the records of the authentication tables, and the slug rule.
\<close>

section \<open>Roles\<close>

datatype role = Owner | Admin | AddHosts | ViewOnly

definition role_from_db :: "str \<Rightarrow> role" where
  "role_from_db s =
     (if s = ''owner'' then Owner
      else if s = ''admin'' then Admin
      else if s = ''add_hosts'' then AddHosts
      else ViewOnly)"

fun role_as_db :: "role \<Rightarrow> str" where
  "role_as_db Owner = ''owner''"
| "role_as_db Admin = ''admin''"
| "role_as_db AddHosts = ''add_hosts''"
| "role_as_db ViewOnly = ''view_only''"

definition can_manage_users :: "role \<Rightarrow> bool" where
  "can_manage_users r \<longleftrightarrow> r \<in> {Owner, Admin}"

definition can_write_config :: "role \<Rightarrow> bool" where
  "can_write_config r \<longleftrightarrow> r \<in> {Owner, Admin}"

definition can_add_hosts :: "role \<Rightarrow> bool" where
  "can_add_hosts r \<longleftrightarrow> r \<in> {Owner, Admin, AddHosts}"

definition ASSIGNABLE :: "role list" where
  "ASSIGNABLE = [Admin, AddHosts, ViewOnly]"

definition is_assignable :: "role \<Rightarrow> bool" where
  "is_assignable r \<longleftrightarrow> r \<in> set ASSIGNABLE"

section \<open>Records\<close>

record user =
  us_id :: int
  us_tenant_id :: int
  us_email :: str
  us_role :: role
  us_blocked_at :: "int option"
  us_is_platform_admin :: bool
  us_created_at :: int

definition is_blocked :: "user \<Rightarrow> bool" where
  "is_blocked u \<longleftrightarrow> us_blocked_at u \<noteq> None"

record session =
  se_id_hash :: str
  se_tenant_id :: int
  se_user_id :: int
  se_expires_at :: int
  se_last_used_at :: int
  se_created_at :: int

record api_key =
  ak_id :: str
  ak_tenant_id :: int
  ak_user_id :: int
  ak_name :: str
  ak_token_prefix :: str
  ak_created_at :: int
  ak_last_used_at :: "int option"
  ak_expires_at :: "int option"

definition TOKEN_PREFIX :: str where "TOKEN_PREFIX = ''nsk_''"

definition TOKEN_PREFIX_LEN :: nat where "TOKEN_PREFIX_LEN = length TOKEN_PREFIX + 8"

definition prefix_of :: "str \<Rightarrow> str" where
  "prefix_of token = take_chars TOKEN_PREFIX_LEN token"

definition valid_slug :: "str \<Rightarrow> bool" where
  "valid_slug s \<longleftrightarrow> s \<noteq> [] \<and> length s \<le> 63
     \<and> list_all (\<lambda>c. is_lower c \<or> is_digit c \<or> c = CHR ''-'') s
     \<and> hd s \<noteq> CHR ''-'' \<and> last s \<noteq> CHR ''-''"

section \<open>Stored roles\<close>

lemma role_roundtrip [simp]: "role_from_db (role_as_db r) = r"
  by (cases r) (simp_all add: role_from_db_def)

lemma role_as_db_inj: "role_as_db r = role_as_db r' \<longleftrightarrow> r = r'"
  by (metis role_roundtrip)

text \<open>
  A stored role is read as privileged only if it is one of the privileged spellings: any
  text the code does not know is the read-only role, and each capability is granted to
  exactly the spellings listed for it.
\<close>

theorem role_from_db_fails_closed:
  "(can_write_config (role_from_db s) \<longleftrightarrow> s \<in> {''owner'', ''admin''})
   \<and> (can_manage_users (role_from_db s) \<longleftrightarrow> s \<in> {''owner'', ''admin''})
   \<and> (can_add_hosts (role_from_db s) \<longleftrightarrow> s \<in> {''owner'', ''admin'', ''add_hosts''})
   \<and> (role_from_db s = Owner \<longleftrightarrow> s = ''owner'')
   \<and> role_from_db (role_as_db r) = r"
  by (cases r) (auto simp: role_from_db_def can_write_config_def can_manage_users_def can_add_hosts_def)

end
