(* ===== verification/Host_Status.thy ===== *)
theory Host_Status
  imports Prelude
begin

text \<open>
  \<open>crates/core/src/host.rs\<close>: a host, and the one status its fields collapse into.
  \<open>min_poll_interval_secs\<close> is a \<open>u32\<close>, kept at its width; the other numbers are
  \<open>i64\<close> seconds.
\<close>

record host =
  hid :: str
  tenant_id :: int
  hostname :: "str option"
  os :: "str option"
  enrolled_at :: "int option"
  last_seen_at :: "int option"
  current_state_hash :: "str option"
  bootstrap_expires_at :: "int option"
  local_config_present :: "bool option"
  host_override_last :: "bool option"
  created_at :: int

datatype host_status =
  AwaitingEnrollment | NeverEnrolled | Offline | Lost | OutOfSync | InSync

fun is_enrolled :: "host_status \<Rightarrow> bool" where
  "is_enrolled s = (s \<in> {Offline, Lost, OutOfSync, InSync})"

fun is_silent :: "host_status \<Rightarrow> bool" where
  "is_silent s = (s \<in> {Offline, Lost})"

record status_thresholds =
  offline_after_secs :: int
  lost_after_secs :: int

definition DEFAULT_OFFLINE_AFTER_SECS :: int where "DEFAULT_OFFLINE_AFTER_SECS = 24 * 3600"
definition DEFAULT_LOST_AFTER_SECS :: int where "DEFAULT_LOST_AFTER_SECS = 48 * 3600"

definition thresholds_new :: "32 word \<Rightarrow> int \<Rightarrow> status_thresholds" where
  "thresholds_new min_poll_interval_secs lost_after =
     (let offline = max (uint min_poll_interval_secs * 3) DEFAULT_OFFLINE_AFTER_SECS
      in \<lparr>offline_after_secs = offline, lost_after_secs = max lost_after offline\<rparr>)"

definition last_contact :: "host \<Rightarrow> int" where
  "last_contact h =
     (case last_seen_at h of
        Some t \<Rightarrow> t
      | None \<Rightarrow> (case enrolled_at h of Some t \<Rightarrow> t | None \<Rightarrow> created_at h))"

definition status :: "host \<Rightarrow> int \<Rightarrow> status_thresholds \<Rightarrow> str option \<Rightarrow> host_status" where
  "status h now thresholds desired_state_hash =
     (case enrolled_at h of
        None \<Rightarrow>
          (case bootstrap_expires_at h of
             Some expires_at \<Rightarrow> if expires_at > now then AwaitingEnrollment else NeverEnrolled
           | None \<Rightarrow> NeverEnrolled)
      | Some _ \<Rightarrow>
          let silent_for = now - last_contact h in
          if silent_for > lost_after_secs thresholds then Lost
          else if silent_for > offline_after_secs thresholds then Offline
          else case current_state_hash h of
              Some applied \<Rightarrow> if desired_state_hash = Some applied then InSync else OutOfSync
            | None \<Rightarrow> OutOfSync)"

section \<open>Thresholds\<close>

text \<open>The product does not leave \<open>i64\<close>.\<close>

lemma thresholds_in_range: "0 \<le> uint (p :: 32 word) * 3" "uint (p :: 32 word) * 3 < 2 ^ 63"
  using uint_lt2p [of p] by simp_all

lemma thresholds_ordered:
  "DEFAULT_OFFLINE_AFTER_SECS \<le> offline_after_secs (thresholds_new p l)"
  "offline_after_secs (thresholds_new p l) \<le> lost_after_secs (thresholds_new p l)"
  by (simp_all add: thresholds_new_def Let_def)

section \<open>The status\<close>

text \<open>
  A host is shown in sync exactly when it enrolled, was heard from within the grace, and
  the state hash it last applied is the one it would be served now. With no state to compare
  against it is never in sync.
\<close>

theorem status_in_sync_iff:
  "status h now (thresholds_new p l) desired = InSync \<longleftrightarrow>
     enrolled_at h \<noteq> None
     \<and> now - last_contact h \<le> offline_after_secs (thresholds_new p l)
     \<and> desired \<noteq> None \<and> current_state_hash h = desired"
  using thresholds_ordered(2) [of p l]
  by (auto simp: status_def Let_def split: option.splits)

text \<open>
  A host that polls on schedule is never reported silent: while its last contact is no
  more than three poll intervals old, whatever the lost threshold is configured to, its
  status is neither offline nor lost.
\<close>

theorem polling_host_not_silent:
  assumes "now - last_contact h \<le> 3 * uint (p :: 32 word)"
  shows "\<not> is_silent (status h now (thresholds_new p l) desired)"
  using assms by (auto simp: status_def thresholds_new_def Let_def split: option.splits)

theorem polling_host_not_silent_witness:
  "\<not> is_silent (status \<lparr>hid = ''h'', tenant_id = 1, hostname = None, os = None,
      enrolled_at = Some 10, last_seen_at = Some 100, current_state_hash = None,
      bootstrap_expires_at = None, local_config_present = None, host_override_last = None,
      created_at = 0\<rparr> 190 (thresholds_new (30 :: 32 word) 0) None)"
  by (rule polling_host_not_silent) (simp add: last_contact_def)

text \<open>An enrolled host is never shown as waiting, a host that never enrolled never as running.\<close>

lemma status_enrolled_iff: "is_enrolled (status h now th desired) \<longleftrightarrow> enrolled_at h \<noteq> None"
  by (auto simp: status_def Let_def split: option.splits)

end
