(* ===== verification/Hosts_Repo.thy ===== *)
theory Hosts_Repo
  imports Contracts Host_Status
begin

text \<open>
  \<open>crates/storage/src/repos/hosts.rs\<close>: \<open>HostRepo\<close> and \<open>HostCertRepo\<close>, one
  definition per method, over the tables of theory Db.
\<close>

section \<open>The repository\<close>

definition map_host :: "host_row \<Rightarrow> host" where
  "map_host r = \<lparr>hid = h_id r, tenant_id = h_tenant r, hostname = h_hostname r, os = h_os r,
     enrolled_at = h_enrolled_at r, last_seen_at = h_last_seen_at r,
     current_state_hash = h_current_state_hash r,
     bootstrap_expires_at = h_bootstrap_expires_at r,
     local_config_present = map_option (\<lambda>v. v \<noteq> 0) (h_local_config_present r),
     host_override_last = map_option (\<lambda>v. v \<noteq> 0) (h_host_override_last r),
     created_at = h_created_at r\<rparr>"

definition new_host_row :: "str \<Rightarrow> int \<Rightarrow> int \<Rightarrow> host_row" where
  "new_host_row i tenant now = \<lparr>h_id = i, h_tenant = tenant, h_hostname = None, h_os = None,
     h_enrolled_at = None, h_last_seen_at = None, h_current_state_hash = None,
     h_created_at = now, h_nonce_hash = None, h_bootstrap_expires_at = None,
     h_local_config_present = None, h_host_override_last = None, h_reported_hash = None,
     h_reported_at = None, h_refused_hash = None, h_refused_at = None, h_refused_status = None\<rparr>"

definition tenant_exists :: "int \<Rightarrow> db \<Rightarrow> bool" where
  "tenant_exists tenant d \<longleftrightarrow> (\<exists>r \<in> set (tenants d). t_id r = tenant)"

definition host_id_exists :: "str \<Rightarrow> db \<Rightarrow> bool" where
  "host_id_exists i d \<longleftrightarrow> (\<exists>r \<in> set (hosts d). h_id r = i)"

definition is_host :: "int \<Rightarrow> str \<Rightarrow> host_row \<Rightarrow> bool" where
  "is_host tenant i r \<longleftrightarrow> h_tenant r = tenant \<and> h_id r = i"

definition insert_host :: "host_row \<Rightarrow> db \<Rightarrow> sql_error + host \<times> db" where
  "insert_host r d =
     (if host_id_exists (h_id r) d then Inl UniqueViolation
      else if \<not> tenant_exists (h_tenant r) d then Inl ForeignKeyViolation
      else Inr (map_host r, d\<lparr>hosts := hosts d @ [r]\<rparr>))"

definition host_create ::
  "str \<Rightarrow> int \<Rightarrow> int \<Rightarrow> str option \<Rightarrow> str option \<Rightarrow> db \<Rightarrow> sql_error + host \<times> db" where
  "host_create new_id now tenant name system d =
     insert_host ((new_host_row new_id tenant now)\<lparr>h_hostname := name, h_os := system\<rparr>) d"

definition host_get :: "int \<Rightarrow> str \<Rightarrow> db \<Rightarrow> host option" where
  "host_get tenant i d = map_option map_host (fetch_optional (is_host tenant i) (hosts d))"

definition host_list :: "int \<Rightarrow> db \<Rightarrow> host list" where
  "host_list tenant d =
     map map_host (order_desc h_created_at (filter (\<lambda>r. h_tenant r = tenant) (hosts d)))"

definition count_active :: "int \<Rightarrow> int \<Rightarrow> db \<Rightarrow> nat" where
  "count_active now tenant d =
     affected (\<lambda>r. h_tenant r = tenant
        \<and> (h_enrolled_at r \<noteq> None \<or> h_enrolled_at r = None \<and> h_created_at r > now - 86400)) (hosts d)"

definition create_pending ::
  "str \<Rightarrow> int \<Rightarrow> int \<Rightarrow> str \<Rightarrow> int \<Rightarrow> db \<Rightarrow> sql_error + host \<times> db" where
  "create_pending new_id now tenant nonce_hash expires d =
     insert_host ((new_host_row new_id tenant now)
       \<lparr>h_nonce_hash := Some nonce_hash, h_bootstrap_expires_at := Some expires\<rparr>) d"

definition awaits :: "int \<Rightarrow> int \<Rightarrow> str \<Rightarrow> str \<Rightarrow> host_row \<Rightarrow> bool" where
  "awaits now tenant i nonce_hash r \<longleftrightarrow>
     is_host tenant i r \<and> h_nonce_hash r = Some nonce_hash
     \<and> h_enrolled_at r = None \<and> is_after (h_bootstrap_expires_at r) now"

definition bootstrap_pending :: "int \<Rightarrow> int \<Rightarrow> str \<Rightarrow> str \<Rightarrow> db \<Rightarrow> bool" where
  "bootstrap_pending now tenant i nonce_hash d \<longleftrightarrow>
     fetch_optional (awaits now tenant i nonce_hash) (hosts d) \<noteq> None"

record enrolled_cert =
  ec_serial :: str
  ec_fingerprint :: str
  ec_issued_at :: int
  ec_expires_at :: int

definition insert_cert :: "int \<Rightarrow> str \<Rightarrow> enrolled_cert \<Rightarrow> db \<Rightarrow> sql_error + db" where
  "insert_cert tenant i cert d =
     (if \<exists>c \<in> set (host_certs d). c_serial c = ec_serial cert then Inl UniqueViolation
      else if \<not> tenant_exists tenant d \<or> \<not> host_id_exists i d then Inl ForeignKeyViolation
      else Inr (d\<lparr>host_certs := host_certs d @
        [\<lparr>c_rowid = next_rowid (map c_rowid (host_certs d)), c_tenant = tenant, c_host = i,
          c_serial = ec_serial cert, c_fingerprint = ec_fingerprint cert,
          c_issued_at = ec_issued_at cert, c_expires_at = ec_expires_at cert,
          c_revoked_at = None\<rparr>]\<rparr>))"

definition enroll_row :: "int \<Rightarrow> str option \<Rightarrow> str option \<Rightarrow> host_row \<Rightarrow> host_row" where
  "enroll_row now name system r = r\<lparr>h_enrolled_at := Some now,
     h_hostname := coalesce name (h_hostname r), h_os := coalesce system (h_os r),
     h_nonce_hash := None, h_bootstrap_expires_at := None\<rparr>"

definition enroll ::
  "int \<Rightarrow> int \<Rightarrow> str \<Rightarrow> str \<Rightarrow> str option \<Rightarrow> str option \<Rightarrow> enrolled_cert \<Rightarrow> db \<Rightarrow> sql_error + bool \<times> db" where
  "enroll now tenant i nonce_hash name system cert d =
     (let p = awaits now tenant i nonce_hash in
      if affected p (hosts d) \<noteq> 1 then Inr (False, d)
      else case insert_cert tenant i cert
                  (d\<lparr>hosts := update_where p (enroll_row now name system) (hosts d)\<rparr>) of
          Inl e \<Rightarrow> Inl e
        | Inr d' \<Rightarrow> Inr (True, d'))"

definition host_referenced :: "str \<Rightarrow> db \<Rightarrow> bool" where
  "host_referenced i d \<longleftrightarrow>
     (\<exists>r \<in> set (host_tags d). tg_host r = i) \<or> (\<exists>r \<in> set (host_overrides d). o_host r = i)
     \<or> (\<exists>r \<in> set (host_facts d). f_host r = i) \<or> (\<exists>r \<in> set (host_fact_changes d). fc_host r = i)
     \<or> (\<exists>r \<in> set (host_certs d). c_host r = i)"

definition host_delete :: "int \<Rightarrow> str \<Rightarrow> db \<Rightarrow> sql_error + bool \<times> db" where
  "host_delete tenant i d =
     (let d1 = d\<lparr>
        host_tags := delete_where (\<lambda>r. tg_tenant r = tenant \<and> tg_host r = i) (host_tags d),
        host_overrides := delete_where (\<lambda>r. o_tenant r = tenant \<and> o_host r = i) (host_overrides d),
        host_facts := delete_where (\<lambda>r. f_tenant r = tenant \<and> f_host r = i) (host_facts d),
        host_fact_changes :=
          delete_where (\<lambda>r. fc_tenant r = tenant \<and> fc_host r = i) (host_fact_changes d),
        host_certs := delete_where (\<lambda>r. c_tenant r = tenant \<and> c_host r = i) (host_certs d)\<rparr>;
        n = affected (is_host tenant i) (hosts d1) in
      if n > 0 \<and> host_referenced i d1 then Inl ForeignKeyViolation
      else Inr (n > 0, d1\<lparr>hosts := delete_where (is_host tenant i) (hosts d1)\<rparr>))"

definition touch_last_seen :: "int \<Rightarrow> int \<Rightarrow> str \<Rightarrow> db \<Rightarrow> db" where
  "touch_last_seen now tenant i d =
     d\<lparr>hosts := update_where (is_host tenant i) (h_last_seen_at_update (\<lambda>_. Some now)) (hosts d)\<rparr>"

definition live_cert_of :: "int \<Rightarrow> str \<Rightarrow> cert_row \<Rightarrow> bool" where
  "live_cert_of tenant i c \<longleftrightarrow> c_tenant c = tenant \<and> c_host c = i \<and> c_revoked_at c = None"

definition revoke_certs_and_reset_to_pending ::
  "int \<Rightarrow> int \<Rightarrow> str \<Rightarrow> str \<Rightarrow> int \<Rightarrow> db \<Rightarrow> nat option \<times> db" where
  "revoke_certs_and_reset_to_pending now tenant i nonce_hash expires d =
     (let revoked = affected (live_cert_of tenant i) (host_certs d);
          d' = d\<lparr>host_certs :=
                  update_where (live_cert_of tenant i) (c_revoked_at_update (\<lambda>_. Some now)) (host_certs d),
                hosts := update_where (is_host tenant i)
                  (\<lambda>r. r\<lparr>h_enrolled_at := None, h_nonce_hash := Some nonce_hash,
                         h_bootstrap_expires_at := Some expires\<rparr>) (hosts d)\<rparr>
      in if affected (is_host tenant i) (hosts d) = 0 then (None, d) else (Some revoked, d'))"

definition touch_last_seen_if_stale :: "int \<Rightarrow> int \<Rightarrow> str \<Rightarrow> int \<Rightarrow> db \<Rightarrow> db" where
  "touch_last_seen_if_stale now tenant i stale_after d =
     d\<lparr>hosts := update_where
         (\<lambda>r. is_host tenant i r \<and>
            (case h_last_seen_at r of None \<Rightarrow> True | Some t \<Rightarrow> t \<le> now - stale_after))
         (h_last_seen_at_update (\<lambda>_. Some now)) (hosts d)\<rparr>"

definition set_local_config_present :: "int \<Rightarrow> str \<Rightarrow> bool \<Rightarrow> db \<Rightarrow> bool \<times> db" where
  "set_local_config_present tenant i present d =
     (let v = (if present then 1 else 0);
          p = (\<lambda>r. is_host tenant i r \<and> h_local_config_present r \<noteq> Some v)
      in (affected p (hosts d) > 0,
          d\<lparr>hosts := update_where p (h_local_config_present_update (\<lambda>_. Some v)) (hosts d)\<rparr>))"

definition set_host_override_last :: "int \<Rightarrow> str \<Rightarrow> bool \<Rightarrow> db \<Rightarrow> bool \<times> db" where
  "set_host_override_last tenant i at_end d =
     (let v = (if at_end then 1 else 0);
          p = (\<lambda>r. is_host tenant i r \<and> h_host_override_last r \<noteq> Some v)
      in (affected p (hosts d) > 0,
          d\<lparr>hosts := update_where p (h_host_override_last_update (\<lambda>_. Some v)) (hosts d)\<rparr>))"

definition update_current_state_hash :: "int \<Rightarrow> int \<Rightarrow> str \<Rightarrow> str \<Rightarrow> db \<Rightarrow> db" where
  "update_current_state_hash now tenant i state_hash d =
     d\<lparr>hosts := update_where (is_host tenant i)
         (\<lambda>r. r\<lparr>h_current_state_hash := Some state_hash, h_last_seen_at := Some now\<rparr>) (hosts d)\<rparr>"

subsection \<open>Certificates\<close>

definition cert_record :: "int \<Rightarrow> str \<Rightarrow> enrolled_cert \<Rightarrow> db \<Rightarrow> sql_error + db" where
  "cert_record tenant i cert d = insert_cert tenant i cert d"

record cert_standing =
  active :: bool
  superseded :: nat

definition current_cert :: "int \<Rightarrow> int \<Rightarrow> str \<Rightarrow> cert_row \<Rightarrow> bool" where
  "current_cert now tenant i c \<longleftrightarrow> live_cert_of tenant i c \<and> c_expires_at c > now"

definition standing :: "int \<Rightarrow> int \<Rightarrow> str \<Rightarrow> str \<Rightarrow> db \<Rightarrow> cert_standing" where
  "standing now tenant i serial d =
     (let rows = filter (current_cert now tenant i) (host_certs d) in
      case find (\<lambda>r. c_serial r = serial) rows of
        None \<Rightarrow> \<lparr>active = False, superseded = 0\<rparr>
      | Some mine \<Rightarrow>
          \<lparr>active = True,
           superseded = length (filter (\<lambda>r. c_rowid r < c_rowid mine) rows)\<rparr>)"

definition older_cert :: "int \<Rightarrow> int \<Rightarrow> str \<Rightarrow> str \<Rightarrow> db \<Rightarrow> cert_row \<Rightarrow> bool" where
  "older_cert now tenant i serial d c \<longleftrightarrow>
     current_cert now tenant i c
     \<and> (case find (\<lambda>r. c_tenant r = tenant \<and> c_host r = i \<and> c_serial r = serial) (host_certs d) of
          None \<Rightarrow> False
        | Some mine \<Rightarrow> c_rowid c < c_rowid mine)"

definition retire_superseded :: "int \<Rightarrow> int \<Rightarrow> str \<Rightarrow> str \<Rightarrow> db \<Rightarrow> nat \<times> db" where
  "retire_superseded now tenant i serial d =
     (let p = older_cert now tenant i serial d
      in (affected p (host_certs d),
          d\<lparr>host_certs := update_where p (c_revoked_at_update (\<lambda>_. Some now)) (host_certs d)\<rparr>))"

definition revoke_all_for_host :: "int \<Rightarrow> int \<Rightarrow> str \<Rightarrow> db \<Rightarrow> nat \<times> db" where
  "revoke_all_for_host now tenant i d =
     (affected (live_cert_of tenant i) (host_certs d),
      d\<lparr>host_certs :=
          update_where (live_cert_of tenant i) (c_revoked_at_update (\<lambda>_. Some now)) (host_certs d)\<rparr>)"

section \<open>Operations as steps\<close>

text \<open>Every call that changes state, with its arguments; a failed call leaves the state.\<close>

datatype host_op =
    HCreate str int int "str option" "str option"
  | HCreatePending str int int str int
  | HEnroll int int str str "str option" "str option" enrolled_cert
  | HDelete int str
  | HTouch int int str
  | HRevokeReset int int str str int
  | HTouchStale int int str int
  | HLocalConfig int str bool
  | HOverrideLast int str bool
  | HStateHash int int str str
  | CRecord int str enrolled_cert
  | CRetire int int str str
  | CRevokeAll int int str

definition committed :: "db \<Rightarrow> sql_error + 'a \<times> db \<Rightarrow> db" where
  "committed d r = (case r of Inl _ \<Rightarrow> d | Inr (_, d') \<Rightarrow> d')"

fun host_apply :: "host_op \<Rightarrow> db \<Rightarrow> db" where
  "host_apply (HCreate i now t n s) d = committed d (host_create i now t n s d)"
| "host_apply (HCreatePending i now t nonce ex) d = committed d (create_pending i now t nonce ex d)"
| "host_apply (HEnroll now t i nonce n s c) d = committed d (enroll now t i nonce n s c d)"
| "host_apply (HDelete t i) d = committed d (host_delete t i d)"
| "host_apply (HTouch now t i) d = touch_last_seen now t i d"
| "host_apply (HRevokeReset now t i nonce ex) d =
     snd (revoke_certs_and_reset_to_pending now t i nonce ex d)"
| "host_apply (HTouchStale now t i st) d = touch_last_seen_if_stale now t i st d"
| "host_apply (HLocalConfig t i b) d = snd (set_local_config_present t i b d)"
| "host_apply (HOverrideLast t i b) d = snd (set_host_override_last t i b d)"
| "host_apply (HStateHash now t i h) d = update_current_state_hash now t i h d"
| "host_apply (CRecord t i c) d = (case cert_record t i c d of Inl _ \<Rightarrow> d | Inr d' \<Rightarrow> d')"
| "host_apply (CRetire now t i s) d = snd (retire_superseded now t i s d)"
| "host_apply (CRevokeAll now t i) d = snd (revoke_all_for_host now t i d)"

fun host_op_tenant :: "host_op \<Rightarrow> int" where
  "host_op_tenant (HCreate i now t n s) = t"
| "host_op_tenant (HCreatePending i now t nonce ex) = t"
| "host_op_tenant (HEnroll now t i nonce n s c) = t"
| "host_op_tenant (HDelete t i) = t"
| "host_op_tenant (HTouch now t i) = t"
| "host_op_tenant (HRevokeReset now t i nonce ex) = t"
| "host_op_tenant (HTouchStale now t i st) = t"
| "host_op_tenant (HLocalConfig t i b) = t"
| "host_op_tenant (HOverrideLast t i b) = t"
| "host_op_tenant (HStateHash now t i h) = t"
| "host_op_tenant (CRecord t i c) = t"
| "host_op_tenant (CRetire now t i s) = t"
| "host_op_tenant (CRevokeAll now t i) = t"

section \<open>The invariant\<close>

text \<open>
  Host ids and certificate serials are unique, certificates stand in the order they were
  recorded, every certificate's host exists, and a host that has enrolled carries neither a
  nonce nor a deadline.
\<close>

definition spent :: "host_row \<Rightarrow> bool" where
  "spent r \<longleftrightarrow> (h_enrolled_at r \<noteq> None \<longrightarrow> h_nonce_hash r = None \<and> h_bootstrap_expires_at r = None)"

definition hosts_ok :: "db \<Rightarrow> bool" where
  "hosts_ok d \<longleftrightarrow> distinct (map h_id (hosts d)) \<and> list_all spent (hosts d)
     \<and> distinct (map c_serial (host_certs d)) \<and> sorted_wrt (<) (map c_rowid (host_certs d))
     \<and> (\<forall>c \<in> set (host_certs d). c_host c \<in> h_id ` set (hosts d))"

lemma hosts_ok_hosts:
  assumes "hosts_ok d" "\<And>r. p r \<Longrightarrow> h_id (f r) = h_id r" "\<And>r. p r \<Longrightarrow> spent r \<Longrightarrow> spent (f r)"
  shows "hosts_ok (d\<lparr>hosts := update_where p f (hosts d)\<rparr>)"
proof -
  have "h_id ` set (update_where p f (hosts d)) = h_id ` set (hosts d)"
    using assms(2) by (metis list.set_map map_update_where)
  moreover have "list_all spent (update_where p f (hosts d))"
    using assms(1,3) by (auto simp: hosts_ok_def list_all_iff set_update_where)
  ultimately show ?thesis
    using assms by (simp add: hosts_ok_def map_update_where)
qed

lemma hosts_ok_certs:
  assumes "hosts_ok d"
    and "\<And>c. p c \<Longrightarrow> c_serial (f c) = c_serial c \<and> c_rowid (f c) = c_rowid c \<and> c_host (f c) = c_host c"
  shows "hosts_ok (d\<lparr>host_certs := update_where p f (host_certs d)\<rparr>)"
  using assms by (auto simp: hosts_ok_def map_update_where set_update_where)

lemma hosts_ok_insert_host:
  "hosts_ok d \<Longrightarrow> spent r \<Longrightarrow> hosts_ok (committed d (insert_host r d))"
  by (auto simp: hosts_ok_def committed_def insert_host_def host_id_exists_def)

lemma hosts_ok_insert_cert:
  "hosts_ok d \<Longrightarrow> insert_cert t i c d = Inr d' \<Longrightarrow> hosts_ok d'"
  by (auto simp: hosts_ok_def insert_cert_def host_id_exists_def sorted_wrt_append next_rowid_fresh
      split: if_splits) blast

lemma sorted_wrt_map_delete:
  "sorted_wrt R (map f rows) \<Longrightarrow> sorted_wrt R (map f (delete_where p rows))"
  by (induction rows) (auto simp: delete_where_def)

lemma hosts_ok_delete: "hosts_ok d \<Longrightarrow> hosts_ok (committed d (host_delete t i d))"
proof -
  assume d: "hosts_ok d"
  show ?thesis
  proof (cases "host_delete t i d")
    case (Inr r)
    obtain b d' where r: "r = (b, d')" by (cases r)
    let ?certs = "delete_where (\<lambda>r. c_tenant r = t \<and> c_host r = i) (host_certs d)"
    have d': "hosts d' = delete_where (is_host t i) (hosts d)" "host_certs d' = ?certs"
      and ref: "(\<exists>h \<in> set (hosts d). is_host t i h) \<Longrightarrow> \<forall>c \<in> set ?certs. c_host c \<noteq> i"
      using Inr r by (auto simp: host_delete_def Let_def affected_pos host_referenced_def split: if_splits)
    have "c_host c \<in> h_id ` set (hosts d')" if c: "c \<in> set ?certs" for c
    proof -
      obtain h where h: "h \<in> set (hosts d)" "h_id h = c_host c"
        using d c by (auto simp: hosts_ok_def)
      then have "\<not> is_host t i h" using ref c by (auto simp: is_host_def)
      with h show ?thesis by (force simp: d')
    qed
    with d show ?thesis
      by (auto simp: Inr r committed_def hosts_ok_def d' distinct_map_delete sorted_wrt_map_delete
          list_all_iff)
  qed (use d in \<open>simp add: committed_def\<close>)
qed

lemma spent_simps:
  "spent ((new_host_row i t now)\<lparr>h_hostname := n, h_os := s\<rparr>)"
  "spent ((new_host_row i t now)\<lparr>h_nonce_hash := a, h_bootstrap_expires_at := b\<rparr>)"
  "spent (enroll_row now n s r)"
  by (simp_all add: spent_def new_host_row_def enroll_row_def)

lemma hosts_ok_enroll: "hosts_ok d \<Longrightarrow> hosts_ok (committed d (enroll now t i nonce n s c d))"
proof -
  assume d: "hosts_ok d"
  have "hosts_ok (d\<lparr>hosts := update_where p (enroll_row now n s) (hosts d)\<rparr>)" for p
    by (rule hosts_ok_hosts [OF d]) (auto simp: enroll_row_def spent_def)
  with d show ?thesis
    by (auto simp: enroll_def Let_def committed_def dest: hosts_ok_insert_cert split: sum.splits)
qed

lemma host_apply_ok: "hosts_ok d \<Longrightarrow> hosts_ok (host_apply op d)"
proof (cases op)
  case (HRevokeReset now t i nonce ex)
  assume d: "hosts_ok d"
  have "hosts_ok ((d\<lparr>host_certs := update_where (live_cert_of t i) (c_revoked_at_update (\<lambda>_. Some now)) (host_certs d)\<rparr>)
     \<lparr>hosts := update_where (is_host t i) (\<lambda>r. r\<lparr>h_enrolled_at := None, h_nonce_hash := Some nonce,
         h_bootstrap_expires_at := Some ex\<rparr>) (hosts d)\<rparr>)"
    by (rule hosts_ok_hosts [of "d\<lparr>host_certs := _\<rparr>", simplified])
       (auto intro: hosts_ok_certs [OF d] simp: spent_def)
  with d show ?thesis by (simp add: HRevokeReset revoke_certs_and_reset_to_pending_def Let_def)
next
  case (CRecord t i c)
  assume "hosts_ok d"
  then show ?thesis
    by (auto simp: CRecord cert_record_def dest: hosts_ok_insert_cert split: sum.splits)
qed (auto simp: host_create_def create_pending_def touch_last_seen_def touch_last_seen_if_stale_def
    set_local_config_present_def set_host_override_last_def update_current_state_hash_def
    retire_superseded_def revoke_all_for_host_def spent_simps Let_def
    intro!: hosts_ok_insert_host hosts_ok_delete hosts_ok_enroll hosts_ok_hosts hosts_ok_certs,
    auto simp: spent_def)

interpretation host_store: invariant_ops hosts_ok host_apply
  by unfold_locales (rule host_apply_ok)

section \<open>A bootstrap token works once\<close>

text \<open>A token is the tenant, the host and the hash of its nonce.\<close>

fun nonce_live :: "int \<times> str \<times> str \<Rightarrow> db \<Rightarrow> bool" where
  "nonce_live (t, i, n) d \<longleftrightarrow> (\<exists>r \<in> set (hosts d). is_host t i r \<and> h_nonce_hash r = Some n)"

fun issues_nonce :: "host_op \<Rightarrow> int \<times> str \<times> str \<Rightarrow> bool" where
  "issues_nonce (HCreatePending i now t n ex) tok = (tok = (t, i, n))"
| "issues_nonce (HRevokeReset now t i n ex) tok = (tok = (t, i, n))"
| "issues_nonce _ tok = False"

text \<open>An enrollment attempt: what the agent presents, and whether it was accepted.\<close>

fun attempt ::
  "int \<times> str \<times> str \<Rightarrow> int \<times> str option \<times> str option \<times> enrolled_cert \<Rightarrow> db \<Rightarrow> bool \<times> db" where
  "attempt (t, i, n) (now, name, system, cert) d =
     (case enroll now t i n name system cert d of Inl _ \<Rightarrow> (False, d) | Inr r \<Rightarrow> r)"

lemma insert_cert_hosts: "insert_cert t i c d = Inr d' \<Longrightarrow> hosts d' = hosts d"
  by (auto simp: insert_cert_def split: if_splits)

lemma attempt_snd: "snd (attempt (t, i, n) (now, name, system, cert) d) =
    host_apply (HEnroll now t i n name system cert) d"
  by (auto simp: committed_def split: sum.splits)

lemma attempt_accepted:
  assumes "fst (attempt (t, i, n) (now, name, system, cert) d)"
  shows "\<exists>r \<in> set (hosts d). awaits now t i n r"
    "hosts (snd (attempt (t, i, n) (now, name, system, cert) d)) =
       update_where (awaits now t i n) (enroll_row now name system) (hosts d)"
proof -
  have 1: "affected (awaits now t i n) (hosts d) = 1"
    using assms by (auto simp: enroll_def Let_def split: sum.splits if_splits)
  then show "\<exists>r \<in> set (hosts d). awaits now t i n r"
    using affected_pos [of "awaits now t i n" "hosts d"] by simp
  show "hosts (snd (attempt (t, i, n) (now, name, system, cert) d)) =
       update_where (awaits now t i n) (enroll_row now name system) (hosts d)"
    using assms 1 by (auto simp: enroll_def Let_def split: sum.splits if_splits dest: insert_cert_hosts)
qed

lemma same_host_row: "hosts_ok d \<Longrightarrow> r \<in> set (hosts d) \<Longrightarrow> r' \<in> set (hosts d) \<Longrightarrow> h_id r = h_id r' \<Longrightarrow> r = r'"
  by (auto simp: hosts_ok_def distinct_map dest: inj_onD)

lemma attempt_burns:
  assumes "hosts_ok d" and "fst (attempt (t, i, n) (now, name, system, cert) d)"
  shows "\<not> nonce_live (t, i, n) (snd (attempt (t, i, n) (now, name, system, cert) d))"
proof -
  obtain r where r: "r \<in> set (hosts d)" "awaits now t i n r" using attempt_accepted(1) [OF assms(2)] by blast
  have "awaits now t i n r'" if "r' \<in> set (hosts d)" "is_host t i r'" for r'
    using same_host_row [OF assms(1) that(1) r(1)] that r by (auto simp: awaits_def is_host_def)
  then show ?thesis
    unfolding nonce_live.simps attempt_accepted(2) [OF assms(2)]
    by (auto simp: set_update_where enroll_row_def is_host_def)
qed

text \<open>No operation but the two that issue one puts a nonce on a host.\<close>

definition no_new_nonce :: "db \<Rightarrow> db \<Rightarrow> bool" where
  "no_new_nonce d d' \<longleftrightarrow> (\<forall>t i n. nonce_live (t, i, n) d' \<longrightarrow> nonce_live (t, i, n) d)"

lemma no_new_nonce_update:
  assumes "\<And>r. p r \<Longrightarrow> h_tenant (f r) = h_tenant r \<and> h_id (f r) = h_id r
      \<and> (h_nonce_hash (f r) = h_nonce_hash r \<or> h_nonce_hash (f r) = None)"
    and "hosts d' = update_where p f (hosts d)"
  shows "no_new_nonce d d'"
proof -
  have "\<exists>r0 \<in> set (hosts d). is_host t i r0 \<and> h_nonce_hash r0 = Some n"
    if "r \<in> set (hosts d')" "is_host t i r" "h_nonce_hash r = Some n" for t i n r
  proof -
    have "r \<in> (\<lambda>r. if p r then f r else r) ` set (hosts d)"
      using that(1) by (simp only: assms(2) set_update_where)
    then obtain r0 where "r0 \<in> set (hosts d)" "r = (if p r0 then f r0 else r0)"
      by (rule imageE)
    moreover from this have "is_host t i r0 \<and> h_nonce_hash r0 = Some n"
      using that assms(1) [of r0] by (auto simp: is_host_def split: if_splits)
    ultimately show ?thesis by blast
  qed
  then show ?thesis by (auto simp: no_new_nonce_def)
qed

lemma no_new_nonce_hosts:
  "(\<And>r. h_tenant (f r) = h_tenant r \<and> h_id (f r) = h_id r \<and> h_nonce_hash (f r) = h_nonce_hash r) \<Longrightarrow>
   no_new_nonce d (d\<lparr>hosts := update_where p f (hosts d)\<rparr>)"
  by (rule no_new_nonce_update [where p = p and f = f]) auto

lemma no_new_nonce_same: "hosts d' = hosts d \<Longrightarrow> no_new_nonce d d'"
  by (simp add: no_new_nonce_def)

lemma no_new_nonce_insert:
  "h_nonce_hash r = None \<Longrightarrow> no_new_nonce d (committed d (insert_host r d))"
  by (auto simp: no_new_nonce_def committed_def insert_host_def)

lemma no_new_nonce_enroll: "no_new_nonce d (committed d (enroll now t i n name system c d))"
proof (cases "fst (attempt (t, i, n) (now, name, system, c) d)")
  case True
  show ?thesis
    by (rule no_new_nonce_update [where p = "awaits now t i n" and f = "enroll_row now name system"])
       (use attempt_accepted(2) [OF True] attempt_snd in \<open>auto simp: enroll_row_def simp del: attempt.simps\<close>)
next
  case False
  then have "committed d (enroll now t i n name system c d) = d"
    by (auto simp: committed_def enroll_def Let_def split: sum.splits)
  then show ?thesis by (simp add: no_new_nonce_same)
qed

lemma no_new_nonce_delete: "no_new_nonce d (committed d (host_delete t i d))"
  by (auto simp: no_new_nonce_def committed_def host_delete_def Let_def)

lemma host_apply_nonce:
  "\<forall>tok. \<not> issues_nonce op tok \<Longrightarrow> no_new_nonce d (host_apply op d)"
  by (cases op)
     (auto simp: host_create_def new_host_row_def touch_last_seen_def touch_last_seen_if_stale_def
       set_local_config_present_def set_host_override_last_def update_current_state_hash_def
       retire_superseded_def revoke_all_for_host_def cert_record_def Let_def
       intro!: no_new_nonce_insert no_new_nonce_enroll no_new_nonce_delete no_new_nonce_hosts
       intro: no_new_nonce_same
       split: sum.splits dest: insert_cert_hosts)

lemma host_step_dead:
  assumes "hosts_ok d" "\<not> nonce_live tok d" "\<not> issues_nonce op tok"
  shows "\<not> nonce_live tok (host_apply op d)"
proof (cases "\<forall>tok. \<not> issues_nonce op tok")
  case True
  with assms(2) host_apply_nonce [of op d] show ?thesis
    by (cases tok) (simp only: no_new_nonce_def not_False_eq_True, blast)
next
  case False
  obtain t i n where tok: "tok = (t, i, n)" by (cases tok)
  from False consider (create) i' now t' n' ex where "op = HCreatePending i' now t' n' ex"
    | (reset) now t' i' n' ex where "op = HRevokeReset now t' i' n' ex"
    by (cases op) auto
  then show ?thesis
  proof cases
    case create
    with assms show ?thesis
      by (auto simp: tok committed_def create_pending_def insert_host_def is_host_def new_host_row_def)
  next
    case reset
    with assms show ?thesis
      by (auto simp: tok revoke_certs_and_reset_to_pending_def Let_def set_update_where is_host_def
          split: if_splits)
  qed
qed

interpretation bootstrap: one_shot hosts_ok host_apply nonce_live attempt issues_nonce
proof
  fix tok :: "int \<times> str \<times> str" and req :: "int \<times> str option \<times> str option \<times> enrolled_cert" and d :: db
  obtain t i n now name system cert where
    [simp]: "tok = (t, i, n)" "req = (now, name, system, cert)" by (metis prod_cases3 prod_cases4)
  show "nonce_live tok d" if "fst (attempt tok req d)"
    using attempt_accepted(1) [of t i n now name system cert d] that by (auto simp: awaits_def)
  show "\<not> nonce_live tok (snd (attempt tok req d))" if "hosts_ok d" "fst (attempt tok req d)"
    using attempt_burns that by simp
  show "hosts_ok (snd (attempt tok req d))" if "hosts_ok d"
    using hosts_ok_enroll [OF that] attempt_snd [of t i n now name system cert d] by simp
qed (rule host_step_dead)

text \<open>
  C4: an install token enrolls one host, once: after an accepted enrollment, whatever other
  operations run, for any tenant and at any time, a second attempt with the same token is
  refused until \<open>create_pending\<close> or \<open>revoke_certs_and_reset_to_pending\<close> issues that very nonce
  for that host again.
\<close>

theorem bootstrap_token_once:
  assumes "hosts_ok d" and "fst (attempt (t, i, n) req d)"
    and "\<forall>op \<in> set ops. \<not> issues_nonce op (t, i, n)"
  shows "\<not> fst (attempt (t, i, n) req' (fold host_apply ops (snd (attempt (t, i, n) req d))))"
  using assms by (rule bootstrap.redeemed_once)

definition sample_hosts :: db where
  "sample_hosts = empty_db\<lparr>
     tenants := [\<lparr>t_id = 1, t_slug = ''acme'', t_name = ''Acme'', t_tier = ''free'',
       t_trial_expires_at = None, t_config_version = 0, t_created_at = 0, t_tier_overrides_json = None\<rparr>],
     hosts := [(new_host_row ''h'' 1 0)\<lparr>h_nonce_hash := Some ''n'', h_bootstrap_expires_at := Some 100\<rparr>]\<rparr>"

definition sample_cert :: "str \<Rightarrow> enrolled_cert" where
  "sample_cert serial = \<lparr>ec_serial = serial, ec_fingerprint = ''f'', ec_issued_at = 10, ec_expires_at = 1000\<rparr>"

definition enrolled_sample :: db where
  "enrolled_sample = host_apply (CRecord 1 ''h'' (sample_cert ''s2''))
     (host_apply (HEnroll 50 1 ''h'' ''n'' None None (sample_cert ''s1'')) sample_hosts)"

lemmas sample_defs = sample_hosts_def sample_cert_def empty_db_def new_host_row_def

lemma sample_ok: "hosts_ok sample_hosts"
  by (simp add: hosts_ok_def sample_defs spent_def)

lemma sample_enrolls: "fst (attempt (1, ''h'', ''n'') (50, None, None, sample_cert ''s1'') sample_hosts)"
  by (simp add: sample_defs enroll_def affected_def awaits_def is_host_def insert_cert_def
      tenant_exists_def host_id_exists_def update_where_def enroll_row_def)

theorem bootstrap_token_once_witness:
  "\<not> fst (attempt (1, ''h'', ''n'') (60, None, None, sample_cert ''s3'')
     (fold host_apply [HTouch 55 1 ''h'', HRevokeReset 56 1 ''h'' ''other'' 100]
       (snd (attempt (1, ''h'', ''n'') (50, None, None, sample_cert ''s1'') sample_hosts))))"
  by (rule bootstrap_token_once [OF sample_ok sample_enrolls]) simp

section \<open>Revocation holds\<close>

fun issues_cert :: "int \<Rightarrow> str \<Rightarrow> host_op \<Rightarrow> bool" where
  "issues_cert t i (HEnroll now t' i' nonce n s c) = (t' = t \<and> i' = i)"
| "issues_cert t i (CRecord t' i' c) = (t' = t \<and> i' = i)"
| "issues_cert t i _ = False"

lemma revoked_not_live:
  "c \<in> set (update_where (live_cert_of t i) (c_revoked_at_update (\<lambda>_. Some now)) cs) \<Longrightarrow>
   \<not> live_cert_of t i c"
proof -
  assume "c \<in> set (update_where (live_cert_of t i) (c_revoked_at_update (\<lambda>_. Some now)) cs)"
  then obtain r where "c = (if live_cert_of t i r then c_revoked_at_update (\<lambda>_. Some now) r else r)"
    unfolding set_update_where by blast
  then show ?thesis by (cases "live_cert_of t i r") (simp_all add: live_cert_of_def)
qed

definition cut_off :: "int \<Rightarrow> str \<Rightarrow> db \<Rightarrow> bool" where
  "cut_off t i d \<longleftrightarrow> (\<forall>c \<in> set (host_certs d). \<not> live_cert_of t i c)"

lemma cut_off_insert:
  "cut_off t i d \<Longrightarrow> insert_cert t' i' c d = Inr d' \<Longrightarrow> \<not> (t' = t \<and> i' = i) \<Longrightarrow> cut_off t i d'"
  by (auto simp: cut_off_def insert_cert_def live_cert_of_def split: if_splits)

lemma cut_off_update:
  "cut_off t i d \<Longrightarrow> cut_off t i (d\<lparr>host_certs := update_where p (c_revoked_at_update (\<lambda>_. Some now)) (host_certs d)\<rparr>)"
  by (auto simp: cut_off_def set_update_where live_cert_of_def)

lemma cut_off_hosts [simp]: "cut_off t i (d\<lparr>hosts := hs\<rparr>) = cut_off t i d"
  by (simp add: cut_off_def)

lemma cut_off_step: "cut_off t i d \<Longrightarrow> \<not> issues_cert t i op \<Longrightarrow> cut_off t i (host_apply op d)"
proof (cases op)
  case (HDelete t' i')
  assume "cut_off t i d"
  then show ?thesis
    by (auto simp: HDelete committed_def host_delete_def Let_def cut_off_def)
next
  case (HEnroll now t' i' nonce n s c)
  assume d: "cut_off t i d" "\<not> issues_cert t i op"
  then show ?thesis
    by (auto simp: HEnroll committed_def enroll_def Let_def dest!: cut_off_insert [rotated] split: sum.splits)
next
  case (CRecord t' i' c)
  assume "cut_off t i d" "\<not> issues_cert t i op"
  then show ?thesis
    by (auto simp: CRecord cert_record_def split: sum.splits dest: cut_off_insert)
next
  case (HRevokeReset now t' i' nonce ex)
  assume "cut_off t i d"
  from cut_off_update [OF this] this show ?thesis
    by (auto simp: HRevokeReset revoke_certs_and_reset_to_pending_def Let_def cut_off_def)
qed (auto simp: host_create_def create_pending_def insert_host_def committed_def touch_last_seen_def
    touch_last_seen_if_stale_def set_local_config_present_def set_host_override_last_def
    update_current_state_hash_def retire_superseded_def revoke_all_for_host_def Let_def
    intro: cut_off_update)

lemma cut_off_run:
  "cut_off t i d \<Longrightarrow> \<forall>op \<in> set ops. \<not> issues_cert t i op \<Longrightarrow> cut_off t i (fold host_apply ops d)"
  by (induction ops arbitrary: d) (auto intro: cut_off_step)

lemma cut_off_standing: "cut_off t i d \<Longrightarrow> standing now t i s d = \<lparr>active = False, superseded = 0\<rparr>"
  by (simp add: standing_def cut_off_def current_cert_def cong: filter_cong)

text \<open>
  C5: revoking a host cuts it off for good: after the reset, whatever operations run and
  whenever it is asked, no certificate of the host is active until one is issued to it again.
\<close>

theorem revoked_host_stays_out:
  assumes "revoke_certs_and_reset_to_pending now t i nonce ex d = (Some k, d')"
    and "\<forall>op \<in> set ops. \<not> issues_cert t i op"
  shows "\<not> active (standing now' t i serial (fold host_apply ops d'))"
proof -
  have "host_certs d' = update_where (live_cert_of t i) (c_revoked_at_update (\<lambda>_. Some now)) (host_certs d)"
    using assms(1) by (auto simp: revoke_certs_and_reset_to_pending_def Let_def split: if_splits)
  then have "cut_off t i d'"
    unfolding cut_off_def using revoked_not_live by metis
  then show ?thesis using cut_off_run [OF _ assms(2)] cut_off_standing by simp
qed

theorem revoked_host_stays_out_witness:
  "active (standing 60 1 ''h'' ''s2'' enrolled_sample)
   \<and> \<not> active (standing 80 1 ''h'' ''s2''
        (fold host_apply [HTouch 70 1 ''h'']
          (snd (revoke_certs_and_reset_to_pending 60 1 ''h'' ''m'' 90 enrolled_sample))))"
proof -
  note unf = enrolled_sample_def sample_defs enroll_def affected_def awaits_def is_host_def
    insert_cert_def tenant_exists_def host_id_exists_def update_where_def enroll_row_def
    committed_def cert_record_def next_rowid_def live_cert_of_def
  have "active (standing 60 1 ''h'' ''s2'' enrolled_sample)"
    by (simp add: unf standing_def current_cert_def)
  moreover have "revoke_certs_and_reset_to_pending 60 1 ''h'' ''m'' 90 enrolled_sample =
      (Some 2, snd (revoke_certs_and_reset_to_pending 60 1 ''h'' ''m'' 90 enrolled_sample))"
    by (simp add: unf revoke_certs_and_reset_to_pending_def)
  from revoked_host_stays_out [OF this, of "[HTouch 70 1 ''h'']" 80 "''s2''"]
  have "\<not> active (standing 80 1 ''h'' ''s2''
        (fold host_apply [HTouch 70 1 ''h'']
          (snd (revoke_certs_and_reset_to_pending 60 1 ''h'' ''m'' 90 enrolled_sample))))" by simp
  ultimately show ?thesis ..
qed

section \<open>Renewal: the older certificates go, the newer stay\<close>

definition current_certs :: "int \<Rightarrow> int \<Rightarrow> str \<Rightarrow> db \<Rightarrow> cert_row list" where
  "current_certs now t i d = filter (current_cert now t i) (host_certs d)"

lemma certs_unique:
  assumes "hosts_ok d"
  shows "distinct (map c_serial (host_certs d))" "distinct (map c_rowid (host_certs d))"
  using assms by (auto simp: hosts_ok_def strict_sorted_iff)

lemma same_cert:
  "hosts_ok d \<Longrightarrow> r \<in> set (host_certs d) \<Longrightarrow> r' \<in> set (host_certs d) \<Longrightarrow> c_serial r = c_serial r' \<Longrightarrow> r = r'"
  by (auto simp: hosts_ok_def distinct_map dest: inj_onD)

lemma find_serial:
  assumes "hosts_ok d" "c \<in> set (host_certs d)" "q c"
  shows "find (\<lambda>r. c_serial r = c_serial c) (filter q (host_certs d)) = Some c"
  using assms certs_unique(1) [OF assms(1)]
  by (intro find_unique [of c_serial]) (auto simp: distinct_map_filter)

lemma standing_cert:
  assumes "hosts_ok d" "c \<in> set (host_certs d)"
  shows "standing now t i (c_serial c) d =
     (if current_cert now t i c
      then \<lparr>active = True,
             superseded = length (filter (\<lambda>r. c_rowid r < c_rowid c) (current_certs now t i d))\<rparr>
      else \<lparr>active = False, superseded = 0\<rparr>)"
proof (cases "current_cert now t i c")
  case True
  with find_serial [where q = "current_cert now t i", OF assms True] show ?thesis by (simp add: standing_def current_certs_def)
next
  case False
  have "find (\<lambda>r. c_serial r = c_serial c) (filter (current_cert now t i) (host_certs d)) = None"
    using False assms certs_unique(1) [OF assms(1)]
    by (auto simp: find_None_iff distinct_map dest: inj_onD)
  with False show ?thesis by (simp add: standing_def)
qed

lemma standing_activeE:
  assumes "active (standing now t i s d)"
  obtains c where "c \<in> set (host_certs d)" "c_serial c = s" "current_cert now t i c"
proof -
  obtain c where "find (\<lambda>r. c_serial r = s) (filter (current_cert now t i) (host_certs d)) = Some c"
    using assms by (auto simp: standing_def Let_def split: option.splits)
  then have "c \<in> set (filter (current_cert now t i) (host_certs d))" "c_serial c = s"
    by (auto dest: find_SomeD)
  with that show thesis by auto
qed

lemma older_cert_iff:
  assumes "hosts_ok d" "c \<in> set (host_certs d)" "c_tenant c = t" "c_host c = i"
  shows "older_cert now t i (c_serial c) d r \<longleftrightarrow> current_cert now t i r \<and> c_rowid r < c_rowid c"
proof -
  have "find (\<lambda>r. c_tenant r = t \<and> c_host r = i \<and> c_serial r = c_serial c) (host_certs d) = Some c"
    using assms certs_unique(1) [OF assms(1)] by (intro find_unique [of c_serial]) auto
  then show ?thesis by (simp add: older_cert_def)
qed

lemma current_after_retire:
  "filter (current_cert now t i)
     (update_where (\<lambda>r. current_cert now t i r \<and> c_rowid r < k) (c_revoked_at_update (\<lambda>_. Some now)) cs) =
   filter (\<lambda>r. k \<le> c_rowid r) (filter (current_cert now t i) cs)"
proof (induction cs)
  case (Cons r cs)
  have "\<not> current_cert now t i (c_revoked_at_update (\<lambda>_. Some now) r)"
    by (simp add: current_cert_def live_cert_of_def)
  with Cons show ?case
    by (cases "current_cert now t i r"; cases "c_rowid r < k") (simp_all add: update_where_def)
qed (simp add: update_where_def)

text \<open>Among the live certificates, fewer before means recorded earlier.\<close>

lemma superseded_mono:
  assumes "distinct (map c_rowid cs)" "c \<in> set cs" "c' \<in> set cs"
  shows "length (filter (\<lambda>r. c_rowid r < c_rowid c) cs) \<le> length (filter (\<lambda>r. c_rowid r < c_rowid c') cs)
    \<longleftrightarrow> c_rowid c \<le> c_rowid c'"
proof -
  have len: "length (filter (\<lambda>r. c_rowid r < k) cs) = card {r \<in> set cs. c_rowid r < k}" for k
  proof -
    have "distinct cs" using assms(1) by (simp add: distinct_map)
    then show ?thesis by (metis distinct_card distinct_filter set_filter)
  qed
  show ?thesis
  proof
    assume le: "length (filter (\<lambda>r. c_rowid r < c_rowid c) cs) \<le> length (filter (\<lambda>r. c_rowid r < c_rowid c') cs)"
    show "c_rowid c \<le> c_rowid c'"
    proof (rule ccontr)
      assume "\<not> c_rowid c \<le> c_rowid c'"
      then have lt: "c_rowid c' < c_rowid c" by simp
      then have "{r \<in> set cs. c_rowid r < c_rowid c'} \<subseteq> {r \<in> set cs. c_rowid r < c_rowid c}"
        by fastforce
      moreover have "c' \<in> {r \<in> set cs. c_rowid r < c_rowid c}" "c' \<notin> {r \<in> set cs. c_rowid r < c_rowid c'}"
        using lt assms(3) by simp_all
      ultimately have "{r \<in> set cs. c_rowid r < c_rowid c'} \<subset> {r \<in> set cs. c_rowid r < c_rowid c}"
        by blast
      then have "card {r \<in> set cs. c_rowid r < c_rowid c'} < card {r \<in> set cs. c_rowid r < c_rowid c}"
        by (intro psubset_card_mono) simp_all
      with le len show False by simp
    qed
  next
    assume "c_rowid c \<le> c_rowid c'"
    then show "length (filter (\<lambda>r. c_rowid r < c_rowid c) cs) \<le> length (filter (\<lambda>r. c_rowid r < c_rowid c') cs)"
      unfolding len by (intro card_mono) auto
  qed
qed

lemma hosts_ok_retire: "hosts_ok d \<Longrightarrow> hosts_ok (snd (retire_superseded now t i s d))"
  using host_apply_ok [of d "CRetire now t i s"] by simp

text \<open>
  C22: a certificate the host presents retires exactly the live certificates recorded before
  it: it stays active with nothing left behind, the count returned is the one \<open>standing\<close> had
  announced, and any other certificate is active afterwards iff it was active before and is
  not older. A stolen older certificate therefore cannot revoke the one that replaced it.
\<close>

theorem retire_superseded_keeps_newer:
  assumes ok: "hosts_ok d" and act: "active (standing now t i s d)"
  defines "d' \<equiv> snd (retire_superseded now t i s d)"
  shows "standing now t i s d' = \<lparr>active = True, superseded = 0\<rparr>
    \<and> fst (retire_superseded now t i s d) = superseded (standing now t i s d)
    \<and> (\<forall>s'. active (standing now t i s' d') \<longleftrightarrow>
          active (standing now t i s' d)
          \<and> superseded (standing now t i s d) \<le> superseded (standing now t i s' d))"
proof -
  obtain c where c: "c \<in> set (host_certs d)" "c_serial c = s" "current_cert now t i c"
    using act by (rule standing_activeE)
  have ti: "c_tenant c = t" "c_host c = i" using c(3) by (simp_all add: current_cert_def live_cert_of_def)
  define old where "old = (\<lambda>r. current_cert now t i r \<and> c_rowid r < c_rowid c)"
  have older: "older_cert now t i s d = old"
    using older_cert_iff [OF ok c(1) ti] c(2) by (auto simp: old_def fun_eq_iff)
  have d': "host_certs d' = update_where old (c_revoked_at_update (\<lambda>_. Some now)) (host_certs d)"
    by (simp add: d'_def retire_superseded_def older)
  have ok': "hosts_ok d'" unfolding d'_def by (rule hosts_ok_retire [OF ok])
  have cur': "current_certs now t i d' = filter (\<lambda>r. c_rowid c \<le> c_rowid r) (current_certs now t i d)"
    unfolding current_certs_def d'
    unfolding old_def by (rule current_after_retire)
  have mem: "active (standing now t i s' x) \<longleftrightarrow> (\<exists>r \<in> set (current_certs now t i x). c_serial r = s')" for s' x
    by (auto simp: standing_def current_certs_def Let_def find_None_iff split: option.splits)
       (auto dest!: find_SomeD)
  have in_cur: "c \<in> set (current_certs now t i d)" using c by (simp add: current_certs_def)
  have dist: "distinct (map c_rowid (current_certs now t i d))"
    using certs_unique(2) [OF ok] by (simp add: current_certs_def distinct_map_filter)
  have "standing now t i s d' = \<lparr>active = True, superseded = 0\<rparr>"
  proof -
    have "c \<in> set (current_certs now t i d')" using in_cur by (simp add: cur')
    then have "c \<in> set (host_certs d')" "current_cert now t i c" by (auto simp: current_certs_def)
    with standing_cert [OF ok' this(1), of now t i] c(2) show ?thesis
      by (auto simp: cur' filter_empty_conv)
  qed
  moreover have "fst (retire_superseded now t i s d) = superseded (standing now t i s d)"
    using standing_cert [OF ok c(1), of now t i] c(2,3)
    by (simp add: retire_superseded_def older affected_def current_certs_def old_def conj_commute Let_def)
  moreover have "active (standing now t i s' d') \<longleftrightarrow> active (standing now t i s' d)
      \<and> superseded (standing now t i s d) \<le> superseded (standing now t i s' d)" for s'
  proof (cases "active (standing now t i s' d)")
    case True
    then obtain c' where c': "c' \<in> set (host_certs d)" "c_serial c' = s'" "current_cert now t i c'"
      by (rule standing_activeE)
    then have in_cur': "c' \<in> set (current_certs now t i d)" by (simp add: current_certs_def)
    have "active (standing now t i s' d') \<longleftrightarrow> c_rowid c \<le> c_rowid c'"
    proof -
      have "r = c'" if "r \<in> set (current_certs now t i d)" "c_serial r = s'" for r
        using same_cert [OF ok, of r c'] that c' by (simp add: current_certs_def)
      then show ?thesis unfolding mem cur' set_filter using in_cur' c'(2) by blast
    qed
    with True superseded_mono [OF dist in_cur in_cur'] standing_cert [OF ok c(1), of now t i]
      standing_cert [OF ok c'(1), of now t i] c(2,3) c'(2,3) show ?thesis by simp
  qed (auto simp: mem cur')
  ultimately show ?thesis by blast
qed

lemma enrolled_sample_ok: "hosts_ok enrolled_sample"
  unfolding enrolled_sample_def by (intro host_apply_ok sample_ok)

lemmas sample_eval = enrolled_sample_def sample_defs enroll_def affected_def awaits_def is_host_def
  insert_cert_def tenant_exists_def host_id_exists_def update_where_def enroll_row_def
  committed_def cert_record_def next_rowid_def live_cert_of_def standing_def current_cert_def

theorem retire_superseded_keeps_newer_witness:
  "standing 60 1 ''h'' ''s2'' enrolled_sample = \<lparr>active = True, superseded = 1\<rparr>
   \<and> standing 60 1 ''h'' ''s2'' (snd (retire_superseded 60 1 ''h'' ''s2'' enrolled_sample)) =
        \<lparr>active = True, superseded = 0\<rparr>
   \<and> \<not> active (standing 60 1 ''h'' ''s1'' (snd (retire_superseded 60 1 ''h'' ''s2'' enrolled_sample)))"
proof -
  have s2: "standing 60 1 ''h'' ''s2'' enrolled_sample = \<lparr>active = True, superseded = 1\<rparr>"
    and s1: "standing 60 1 ''h'' ''s1'' enrolled_sample = \<lparr>active = True, superseded = 0\<rparr>"
    by (simp_all add: sample_eval)
  then have "active (standing 60 1 ''h'' ''s2'' enrolled_sample)" by simp
  from retire_superseded_keeps_newer [OF enrolled_sample_ok this] s1 s2 show ?thesis by simp
qed

section \<open>Deleting a host\<close>



section \<open>Tenants do not see each other\<close>

text \<open>Everything the host tables hold for one tenant.\<close>

record tenant_hosts =
  v_hosts :: "host_row list"
  v_certs :: "cert_row list"
  v_tags :: "tag_row list"
  v_overrides :: "override_row list"
  v_facts :: "facts_row list"
  v_changes :: "fact_change_row list"

definition hosts_of_tenant :: "int \<Rightarrow> db \<Rightarrow> tenant_hosts" where
  "hosts_of_tenant t d = \<lparr>v_hosts = filter (\<lambda>r. h_tenant r = t) (hosts d),
     v_certs = filter (\<lambda>r. c_tenant r = t) (host_certs d),
     v_tags = filter (\<lambda>r. tg_tenant r = t) (host_tags d),
     v_overrides = filter (\<lambda>r. o_tenant r = t) (host_overrides d),
     v_facts = filter (\<lambda>r. f_tenant r = t) (host_facts d),
     v_changes = filter (\<lambda>r. fc_tenant r = t) (host_fact_changes d)\<rparr>"

lemma hosts_of_tenant_update:
  "(\<And>r. p r \<Longrightarrow> h_tenant r \<noteq> t \<and> h_tenant (f r) \<noteq> t) \<Longrightarrow>
   hosts_of_tenant t (d\<lparr>hosts := update_where p f (hosts d)\<rparr>) = hosts_of_tenant t d"
  by (simp add: hosts_of_tenant_def filter_update_where)

lemma hosts_of_tenant_certs:
  "(\<And>r. p r \<Longrightarrow> c_tenant r \<noteq> t \<and> c_tenant (f r) \<noteq> t) \<Longrightarrow>
   hosts_of_tenant t (d\<lparr>host_certs := update_where p f (host_certs d)\<rparr>) = hosts_of_tenant t d"
  by (simp add: hosts_of_tenant_def filter_update_where)

lemma hosts_of_tenant_insert_host:
  "h_tenant r \<noteq> t \<Longrightarrow> hosts_of_tenant t (committed d (insert_host r d)) = hosts_of_tenant t d"
  by (simp add: hosts_of_tenant_def insert_host_def committed_def)

lemma hosts_of_tenant_insert_cert:
  "insert_cert t' i c d = Inr d' \<Longrightarrow> t' \<noteq> t \<Longrightarrow> hosts_of_tenant t d' = hosts_of_tenant t d"
  by (auto simp: hosts_of_tenant_def insert_cert_def split: if_splits)

lemma hosts_of_tenant_delete:
  "t' \<noteq> t \<Longrightarrow> hosts_of_tenant t (committed d (host_delete t' i d)) = hosts_of_tenant t d"
  by (auto simp: hosts_of_tenant_def host_delete_def committed_def Let_def is_host_def
      intro!: filter_delete_where)

lemma hosts_of_tenant_enroll:
  assumes "t' \<noteq> t"
  shows "hosts_of_tenant t (committed d (enroll now t' i n name system c d)) = hosts_of_tenant t d"
proof -
  have "hosts_of_tenant t (d\<lparr>hosts := update_where (awaits now t' i n) (enroll_row now name system) (hosts d)\<rparr>)
      = hosts_of_tenant t d"
    by (rule hosts_of_tenant_update) (use assms in \<open>auto simp: awaits_def is_host_def enroll_row_def\<close>)
  then show ?thesis
    using assms by (auto simp: enroll_def Let_def committed_def split: sum.splits
        dest: hosts_of_tenant_insert_cert)
qed

lemma host_apply_frame: "host_op_tenant op \<noteq> t \<Longrightarrow> hosts_of_tenant t (host_apply op d) = hosts_of_tenant t d"
proof (cases op)
  case (HRevokeReset now t' i nonce ex)
  assume "host_op_tenant op \<noteq> t"
  then show ?thesis
    by (auto simp: HRevokeReset revoke_certs_and_reset_to_pending_def Let_def hosts_of_tenant_def
        is_host_def live_cert_of_def intro!: filter_update_where)
qed (auto simp: host_create_def create_pending_def new_host_row_def touch_last_seen_def
    touch_last_seen_if_stale_def set_local_config_present_def set_host_override_last_def
    update_current_state_hash_def retire_superseded_def revoke_all_for_host_def cert_record_def
    Let_def is_host_def older_cert_def current_cert_def live_cert_of_def
    hosts_of_tenant_insert_host hosts_of_tenant_delete hosts_of_tenant_enroll
    intro!: hosts_of_tenant_update hosts_of_tenant_certs
    dest: hosts_of_tenant_insert_cert split: sum.splits)

interpretation host_tenants: tenant_scoped hosts_ok host_apply hosts_of_tenant host_op_tenant
  by unfold_locales (rule host_apply_frame)



end
