(* ===== verification/Users_Repo.thy ===== *)
theory Users_Repo
  imports Users Hosts_Repo
begin

text \<open>
  \<open>crates/storage/src/repos/users.rs\<close>: \<open>UserRepo\<close>, \<open>MagicLinkRepo\<close>,
  \<open>ApiKeyRepo\<close> and \<open>SessionRepo\<close>, one definition per method. A key id generated by
  ULID is an argument.
\<close>

section \<open>Users\<close>

definition map_user :: "user_row \<Rightarrow> user" where
  "map_user r = \<lparr>us_id = u_id r, us_tenant_id = u_tenant r, us_email = u_email r,
     us_role = role_from_db (u_role r), us_blocked_at = u_blocked_at r,
     us_is_platform_admin = (u_is_platform_admin r \<noteq> 0), us_created_at = u_created_at r\<rparr>"

definition is_user :: "int \<Rightarrow> int \<Rightarrow> user_row \<Rightarrow> bool" where
  "is_user t u r \<longleftrightarrow> u_tenant r = t \<and> u_id r = u"

definition user_create :: "int \<Rightarrow> int \<Rightarrow> str \<Rightarrow> role \<Rightarrow> db \<Rightarrow> sql_error + user \<times> db" where
  "user_create now t email rl d =
     (let row = \<lparr>u_id = next_rowid (map u_id (users d)), u_tenant = t, u_email = email,
            u_role = role_as_db rl, u_created_at = now, u_is_platform_admin = 0,
            u_blocked_at = None\<rparr> in
      if \<exists>r \<in> set (users d). u_email r = email then Inl UniqueViolation
      else if \<not> tenant_exists t d then Inl ForeignKeyViolation
      else Inr (map_user row, d\<lparr>users := users d @ [row]\<rparr>))"

definition user_list :: "int \<Rightarrow> db \<Rightarrow> user list" where
  "user_list t d = map map_user (order_asc u_created_at (filter (\<lambda>r. u_tenant r = t) (users d)))"

definition user_get_any :: "int \<Rightarrow> db \<Rightarrow> user option" where
  "user_get_any u d = map_option map_user (fetch_optional (\<lambda>r. u_id r = u) (users d))"

definition set_blocked :: "int \<Rightarrow> int \<Rightarrow> bool \<Rightarrow> db \<Rightarrow> bool \<times> db" where
  "set_blocked now u blocked d =
     (affected (\<lambda>r. u_id r = u) (users d) = 1,
      d\<lparr>users := update_where (\<lambda>r. u_id r = u)
            (\<lambda>r. r\<lparr>u_blocked_at := (if blocked then Some now else None)\<rparr>) (users d),
        sessions := (if blocked then delete_where (\<lambda>s. s_user s = u) (sessions d) else sessions d)\<rparr>)"

definition set_platform_admin :: "int \<Rightarrow> bool \<Rightarrow> db \<Rightarrow> bool \<times> db" where
  "set_platform_admin u is_admin d =
     (affected (\<lambda>r. u_id r = u) (users d) = 1,
      d\<lparr>users := update_where (\<lambda>r. u_id r = u)
            (\<lambda>r. r\<lparr>u_is_platform_admin := (if is_admin then 1 else 0)\<rparr>) (users d)\<rparr>)"

definition promote_platform_admin_by_email :: "str \<Rightarrow> db \<Rightarrow> int option \<times> db" where
  "promote_platform_admin_by_email email d =
     (let p = (\<lambda>r. u_email r = email \<and> u_is_platform_admin r = 0)
      in (map_option u_id (fetch_optional p (users d)),
          d\<lparr>users := update_where p (\<lambda>r. r\<lparr>u_is_platform_admin := 1\<rparr>) (users d)\<rparr>))"

definition count_owners :: "int \<Rightarrow> db \<Rightarrow> nat" where
  "count_owners t d = affected (\<lambda>r. u_tenant r = t \<and> u_role r = ''owner'') (users d)"

definition user_set_role :: "int \<Rightarrow> int \<Rightarrow> role \<Rightarrow> db \<Rightarrow> bool \<times> db" where
  "user_set_role t u rl d =
     (affected (is_user t u) (users d) = 1,
      d\<lparr>users := update_where (is_user t u) (\<lambda>r. r\<lparr>u_role := role_as_db rl\<rparr>) (users d)\<rparr>)"

definition user_referenced :: "int \<Rightarrow> db \<Rightarrow> bool" where
  "user_referenced u d \<longleftrightarrow>
     (\<exists>s \<in> set (sessions d). s_user s = u) \<or> (\<exists>l \<in> set (magic_links d). ml_user l = u)
     \<or> (\<exists>k \<in> set (api_keys d). k_user k = u) \<or> (\<exists>a \<in> set (audit_log d). au_user a = Some u)
     \<or> (\<exists>x \<in> set (host_overrides d). o_updated_by_user x = Some u)
     \<or> (\<exists>x \<in> set (platform_settings d). ps_updated_by_user x = Some u)"

definition user_delete :: "int \<Rightarrow> int \<Rightarrow> db \<Rightarrow> sql_error + bool \<times> db" where
  "user_delete t u d =
     (let d1 = d\<lparr>
        sessions := delete_where (\<lambda>s. s_tenant s = t \<and> s_user s = u) (sessions d),
        magic_links := delete_where (\<lambda>l. ml_tenant l = t \<and> ml_user l = u) (magic_links d),
        api_keys := delete_where (\<lambda>k. k_tenant k = t \<and> k_user k = u) (api_keys d),
        audit_log := update_where (\<lambda>a. au_tenant a = t \<and> au_user a = Some u)
            (\<lambda>a. a\<lparr>au_user := None\<rparr>) (audit_log d),
        host_overrides := update_where (\<lambda>x. o_tenant x = t \<and> o_updated_by_user x = Some u)
            (\<lambda>x. x\<lparr>o_updated_by_user := None\<rparr>) (host_overrides d),
        platform_settings := update_where (\<lambda>x. ps_updated_by_user x = Some u)
            (\<lambda>x. x\<lparr>ps_updated_by_user := None\<rparr>) (platform_settings d)\<rparr> in
      if affected (is_user t u) (users d1) > 0 \<and> user_referenced u d1 then Inl ForeignKeyViolation
      else Inr (affected (is_user t u) (users d1) = 1,
                d1\<lparr>users := delete_where (is_user t u) (users d1)\<rparr>))"

definition user_get :: "int \<Rightarrow> int \<Rightarrow> db \<Rightarrow> user option" where
  "user_get t u d = map_option map_user (fetch_optional (is_user t u) (users d))"

definition find_by_email :: "str \<Rightarrow> db \<Rightarrow> user option" where
  "find_by_email email d = map_option map_user (fetch_optional (\<lambda>r. u_email r = email) (users d))"

section \<open>Magic links\<close>

definition user_id_exists :: "int \<Rightarrow> db \<Rightarrow> bool" where
  "user_id_exists u d \<longleftrightarrow> (\<exists>r \<in> set (users d). u_id r = u)"

definition magic_create :: "int \<Rightarrow> str \<Rightarrow> int \<Rightarrow> int \<Rightarrow> int \<Rightarrow> db \<Rightarrow> sql_error + db" where
  "magic_create now token_hash t u expires d =
     (if \<exists>l \<in> set (magic_links d). ml_token_hash l = token_hash then Inl UniqueViolation
      else if \<not> tenant_exists t d \<or> \<not> user_id_exists u d then Inl ForeignKeyViolation
      else Inr (d\<lparr>magic_links := magic_links d @
        [\<lparr>ml_token_hash = token_hash, ml_tenant = t, ml_user = u, ml_expires_at = expires,
          ml_used_at = None, ml_created_at = now\<rparr>]\<rparr>))"

definition redeemable :: "int \<Rightarrow> str \<Rightarrow> magic_link_row \<Rightarrow> bool" where
  "redeemable now token_hash l \<longleftrightarrow>
     ml_token_hash l = token_hash \<and> ml_used_at l = None \<and> ml_expires_at l > now"

definition redeem :: "int \<Rightarrow> str \<Rightarrow> db \<Rightarrow> (int \<times> int) option \<times> db" where
  "redeem now token_hash d =
     (map_option (\<lambda>l. (ml_tenant l, ml_user l))
        (fetch_optional (redeemable now token_hash) (magic_links d)),
      d\<lparr>magic_links := update_where (redeemable now token_hash)
          (\<lambda>l. l\<lparr>ml_used_at := Some now\<rparr>) (magic_links d)\<rparr>)"

definition magic_delete_expired :: "int \<Rightarrow> db \<Rightarrow> nat \<times> db" where
  "magic_delete_expired now d =
     (affected (\<lambda>l. ml_expires_at l < now) (magic_links d),
      d\<lparr>magic_links := delete_where (\<lambda>l. ml_expires_at l < now) (magic_links d)\<rparr>)"

section \<open>API keys\<close>

definition map_api_key :: "api_key_row \<Rightarrow> api_key" where
  "map_api_key r = \<lparr>ak_id = k_id r, ak_tenant_id = k_tenant r, ak_user_id = k_user r,
     ak_name = k_name r, ak_token_prefix = k_token_prefix r, ak_created_at = k_created_at r,
     ak_last_used_at = k_last_used_at r, ak_expires_at = k_expires_at r\<rparr>"

definition key_create ::
  "str \<Rightarrow> int \<Rightarrow> int \<Rightarrow> int \<Rightarrow> str \<Rightarrow> str \<Rightarrow> str \<Rightarrow> int option \<Rightarrow> db \<Rightarrow> sql_error + api_key \<times> db" where
  "key_create new_id now t u name token_hash token_prefix expires d =
     (let row = \<lparr>k_id = new_id, k_tenant = t, k_user = u, k_name = name, k_token_hash = token_hash,
            k_token_prefix = token_prefix, k_created_at = now, k_last_used_at = None,
            k_expires_at = expires\<rparr> in
      if \<exists>k \<in> set (api_keys d). k_id k = new_id \<or> k_token_hash k = token_hash then Inl UniqueViolation
      else if \<not> tenant_exists t d \<or> \<not> user_id_exists u d then Inl ForeignKeyViolation
      else Inr (map_api_key row, d\<lparr>api_keys := api_keys d @ [row]\<rparr>))"

definition list_for_user :: "int \<Rightarrow> int \<Rightarrow> db \<Rightarrow> api_key list" where
  "list_for_user t u d =
     map map_api_key (order_desc k_created_at (filter (\<lambda>k. k_tenant k = t \<and> k_user k = u) (api_keys d)))"

definition find_by_hash :: "int \<Rightarrow> str \<Rightarrow> db \<Rightarrow> api_key option" where
  "find_by_hash now token_hash d =
     map_option map_api_key (fetch_optional
       (\<lambda>k. k_token_hash k = token_hash \<and> (k_expires_at k = None \<or> is_after (k_expires_at k) now))
       (api_keys d))"

definition touch_last_used :: "int \<Rightarrow> str \<Rightarrow> db \<Rightarrow> db" where
  "touch_last_used now i d =
     d\<lparr>api_keys := update_where (\<lambda>k. k_id k = i) (\<lambda>k. k\<lparr>k_last_used_at := Some now\<rparr>) (api_keys d)\<rparr>"

definition key_delete :: "int \<Rightarrow> int \<Rightarrow> str \<Rightarrow> db \<Rightarrow> bool \<times> db" where
  "key_delete t u i d =
     (let p = (\<lambda>k. k_tenant k = t \<and> k_user k = u \<and> k_id k = i)
      in (affected p (api_keys d) = 1, d\<lparr>api_keys := delete_where p (api_keys d)\<rparr>))"

section \<open>Sessions\<close>

definition session_create :: "int \<Rightarrow> str \<Rightarrow> int \<Rightarrow> int \<Rightarrow> int \<Rightarrow> db \<Rightarrow> sql_error + session \<times> db" where
  "session_create now id_hash t u ttl d =
     (if \<exists>s \<in> set (sessions d). s_id s = id_hash then Inl UniqueViolation
      else if \<not> tenant_exists t d \<or> \<not> user_id_exists u d then Inl ForeignKeyViolation
      else Inr (\<lparr>se_id_hash = id_hash, se_tenant_id = t, se_user_id = u, se_expires_at = now + ttl,
                 se_last_used_at = now, se_created_at = now\<rparr>,
                d\<lparr>sessions := sessions d @
                  [\<lparr>s_id = id_hash, s_tenant = t, s_user = u, s_expires_at = now + ttl,
                    s_last_used_at = now, s_created_at = now\<rparr>]\<rparr>))"

definition session_valid :: "int \<Rightarrow> int \<Rightarrow> str \<Rightarrow> session_row \<Rightarrow> bool" where
  "session_valid now idle_ttl id_hash s \<longleftrightarrow>
     s_id s = id_hash \<and> s_expires_at s > now \<and> s_last_used_at s > now - idle_ttl"

definition touch :: "int \<Rightarrow> str \<Rightarrow> int \<Rightarrow> db \<Rightarrow> session option \<times> db" where
  "touch now id_hash idle_ttl d =
     (map_option (\<lambda>s. \<lparr>se_id_hash = s_id s, se_tenant_id = s_tenant s, se_user_id = s_user s,
          se_expires_at = s_expires_at s, se_last_used_at = now, se_created_at = s_created_at s\<rparr>)
        (fetch_optional (session_valid now idle_ttl id_hash) (sessions d)),
      d\<lparr>sessions := update_where (session_valid now idle_ttl id_hash)
          (\<lambda>s. s\<lparr>s_last_used_at := now\<rparr>) (sessions d)\<rparr>)"

definition session_delete :: "str \<Rightarrow> db \<Rightarrow> db" where
  "session_delete id_hash d = d\<lparr>sessions := delete_where (\<lambda>s. s_id s = id_hash) (sessions d)\<rparr>"

definition delete_for_user :: "int \<Rightarrow> int \<Rightarrow> db \<Rightarrow> nat \<times> db" where
  "delete_for_user t u d =
     (affected (\<lambda>s. s_tenant s = t \<and> s_user s = u) (sessions d),
      d\<lparr>sessions := delete_where (\<lambda>s. s_tenant s = t \<and> s_user s = u) (sessions d)\<rparr>)"

definition session_delete_expired :: "int \<Rightarrow> int \<Rightarrow> db \<Rightarrow> nat \<times> db" where
  "session_delete_expired now idle_ttl d =
     (let p = (\<lambda>s. s_expires_at s < now \<or> s_last_used_at s < now - idle_ttl)
      in (affected p (sessions d), d\<lparr>sessions := delete_where p (sessions d)\<rparr>))"

section \<open>Operations as steps\<close>

datatype auth_op =
    UCreate int int str role
  | UBlocked int int bool
  | UPlatformAdmin int bool
  | UPromote str
  | URole int int role
  | UDelete int int
  | MCreate int str int int int
  | MRedeem int str
  | MExpire int
  | KCreate str int int int str str str "int option"
  | KTouch int str
  | KDelete int int str
  | SCreate int str int int int
  | STouch int str int
  | SDelete str
  | SDeleteUser int int
  | SExpire int int

definition attempted :: "db \<Rightarrow> sql_error + db \<Rightarrow> db" where
  "attempted d r = (case r of Inl _ \<Rightarrow> d | Inr d' \<Rightarrow> d')"

fun auth_apply :: "auth_op \<Rightarrow> db \<Rightarrow> db" where
  "auth_apply (UCreate now t email rl) d = committed d (user_create now t email rl d)"
| "auth_apply (UBlocked now u b) d = snd (set_blocked now u b d)"
| "auth_apply (UPlatformAdmin u b) d = snd (set_platform_admin u b d)"
| "auth_apply (UPromote email) d = snd (promote_platform_admin_by_email email d)"
| "auth_apply (URole t u rl) d = snd (user_set_role t u rl d)"
| "auth_apply (UDelete t u) d = committed d (user_delete t u d)"
| "auth_apply (MCreate now h t u ex) d = attempted d (magic_create now h t u ex d)"
| "auth_apply (MRedeem now h) d = snd (redeem now h d)"
| "auth_apply (MExpire now) d = snd (magic_delete_expired now d)"
| "auth_apply (KCreate i now t u n h p ex) d = committed d (key_create i now t u n h p ex d)"
| "auth_apply (KTouch now i) d = touch_last_used now i d"
| "auth_apply (KDelete t u i) d = snd (key_delete t u i d)"
| "auth_apply (SCreate now h t u ttl) d = committed d (session_create now h t u ttl d)"
| "auth_apply (STouch now h idle) d = snd (touch now h idle d)"
| "auth_apply (SDelete h) d = session_delete h d"
| "auth_apply (SDeleteUser t u) d = snd (delete_for_user t u d)"
| "auth_apply (SExpire now idle) d = snd (session_delete_expired now idle d)"

text \<open>Ids, addresses, session hashes and token hashes are unique.\<close>

definition users_ok :: "db \<Rightarrow> bool" where
  "users_ok d \<longleftrightarrow> distinct (map u_id (users d)) \<and> distinct (map u_email (users d))
     \<and> distinct (map ml_token_hash (magic_links d)) \<and> distinct (map s_id (sessions d))
     \<and> distinct (map k_token_hash (api_keys d))"

lemmas auth_op_defs = user_create_def set_blocked_def set_platform_admin_def
  promote_platform_admin_by_email_def user_set_role_def user_delete_def magic_create_def redeem_def
  magic_delete_expired_def key_create_def touch_last_used_def key_delete_def session_create_def
  touch_def session_delete_def delete_for_user_def session_delete_expired_def committed_def
  attempted_def Let_def

lemma next_user_fresh: "next_rowid (map u_id xs) \<notin> u_id ` set xs"
  using next_rowid_fresh [of "next_rowid (map u_id xs)" "map u_id xs"] by auto

lemma auth_apply_ok: "users_ok d \<Longrightarrow> users_ok (auth_apply op d)"
proof (cases op)
  case (UCreate now t email rl)
  assume "users_ok d"
  then show ?thesis
    by (auto simp: UCreate users_ok_def user_create_def committed_def Let_def next_user_fresh)
qed (auto simp: users_ok_def auth_op_defs distinct_map_delete map_update_where)

interpretation auth_store: invariant_ops users_ok auth_apply
  by unfold_locales (rule auth_apply_ok)

section \<open>A magic link works once\<close>

definition link_live :: "str \<Rightarrow> db \<Rightarrow> bool" where
  "link_live h d \<longleftrightarrow> (\<exists>l \<in> set (magic_links d). ml_token_hash l = h \<and> ml_used_at l = None)"

fun issues_link :: "auth_op \<Rightarrow> str \<Rightarrow> bool" where
  "issues_link (MCreate now h' t u ex) h = (h' = h)"
| "issues_link _ h = False"

definition redeem_link :: "str \<Rightarrow> int \<Rightarrow> db \<Rightarrow> bool \<times> db" where
  "redeem_link h now d = (fst (redeem now h d) \<noteq> None, snd (redeem now h d))"

lemma redeem_Some: "fst (redeem now h d) \<noteq> None \<longleftrightarrow> (\<exists>l \<in> set (magic_links d). redeemable now h l)"
  by (auto simp: redeem_def fetch_optional_def find_None_iff)

lemma link_dead_step:
  assumes "\<not> link_live h d" "\<not> issues_link op h"
  shows "\<not> link_live h (auth_apply op d)"
proof (cases op)
  case (MRedeem now h')
  with assms show ?thesis
    by (auto simp: link_live_def redeem_def set_update_where)
next
  case (MCreate now h' t u ex)
  with assms show ?thesis by (auto simp: link_live_def magic_create_def attempted_def)
qed (use assms in \<open>auto simp: link_live_def auth_op_defs\<close>)

lemma redeem_spends:
  assumes "users_ok d" "fst (redeem now h d) \<noteq> None"
  shows "\<not> link_live h (snd (redeem now h d))"
proof -
  obtain l where l: "l \<in> set (magic_links d)" "redeemable now h l" using assms(2) redeem_Some by blast
  have "redeemable now h l'" if "l' \<in> set (magic_links d)" "ml_token_hash l' = h" for l'
  proof -
    have "inj_on ml_token_hash (set (magic_links d))" using assms(1) by (simp add: users_ok_def distinct_map)
    then have "l' = l" using that l by (auto simp: redeemable_def dest: inj_onD)
    with l show ?thesis by simp
  qed
  then show ?thesis
    by (auto simp: link_live_def redeem_def set_update_where)
qed

interpretation magic_link: one_shot users_ok auth_apply link_live redeem_link issues_link
proof
  fix h now d op
  show "link_live h d" if "fst (redeem_link h now d)"
    using that redeem_Some [of now h d] by (auto simp: redeem_link_def link_live_def redeemable_def)
  show "\<not> link_live h (snd (redeem_link h now d))" if "users_ok d" "fst (redeem_link h now d)"
    using redeem_spends that by (simp add: redeem_link_def)
  show "users_ok (snd (redeem_link h now d))" if "users_ok d"
    using auth_apply_ok [OF that, of "MRedeem now h"] by (simp add: redeem_link_def)
  show "\<not> link_live h (auth_apply op d)" if "users_ok d" "\<not> link_live h d" "\<not> issues_link op h"
    using link_dead_step that(2,3) by blast
qed

text \<open>
  C6: a sign-in link works once: after it was redeemed, whatever happens in the
  authentication tables, redeeming it again is refused until a link with that token is
  created again.
\<close>

theorem magic_link_once:
  assumes "users_ok d" and "fst (redeem_link h now d)"
    and "\<forall>op \<in> set ops. \<not> issues_link op h"
  shows "\<not> fst (redeem_link h now' (fold auth_apply ops (snd (redeem_link h now d))))"
  using assms by (rule magic_link.redeemed_once)

definition sample_auth :: db where
  "sample_auth = sample_hosts\<lparr>
     users := [\<lparr>u_id = 7, u_tenant = 1, u_email = ''a@b.c'', u_role = ''admin'', u_created_at = 0,
                u_is_platform_admin = 0, u_blocked_at = None\<rparr>],
     magic_links := [\<lparr>ml_token_hash = ''mt'', ml_tenant = 1, ml_user = 7, ml_expires_at = 100,
                ml_used_at = None, ml_created_at = 0\<rparr>],
     sessions := [\<lparr>s_id = ''st'', s_tenant = 1, s_user = 7, s_expires_at = 1000, s_last_used_at = 10,
                s_created_at = 10\<rparr>],
     api_keys := [\<lparr>k_id = ''k1'', k_tenant = 1, k_user = 7, k_name = ''ci'', k_token_hash = ''kt'',
                k_token_prefix = ''nsk_aaaa'', k_created_at = 0, k_last_used_at = None, k_expires_at = None\<rparr>]\<rparr>"

lemma sample_auth_ok: "users_ok sample_auth"
  by (simp add: users_ok_def sample_auth_def)

theorem magic_link_once_witness:
  "\<not> fst (redeem_link ''mt'' 20 (fold auth_apply [SDelete ''st'', MExpire 15]
     (snd (redeem_link ''mt'' 10 sample_auth))))"
  by (rule magic_link_once [OF sample_auth_ok])
     (simp_all add: redeem_link_def redeem_def sample_auth_def fetch_optional_def redeemable_def)

section \<open>Sessions end\<close>

text \<open>
  A session that is past its lifetime, or idle past the bound, at a time. The operations that
  could touch it carry their time and the deployment's idle bound.
\<close>

definition session_over :: "int \<Rightarrow> int \<Rightarrow> str \<Rightarrow> db \<Rightarrow> bool" where
  "session_over now idle h d \<longleftrightarrow>
     (\<forall>s \<in> set (sessions d). s_id s = h \<longrightarrow> s_expires_at s \<le> now \<or> s_last_used_at s \<le> now - idle)"

lemma touch_None: "fst (touch now h idle d) = None \<longleftrightarrow> session_over now idle h d"
proof -
  have "session_over now idle h d \<longleftrightarrow> (\<forall>s \<in> set (sessions d). \<not> session_valid now idle h s)"
    by (auto simp: session_over_def session_valid_def not_less)
  then show ?thesis by (auto simp: touch_def fetch_optional_def find_None_iff)
qed

fun later_op :: "int \<Rightarrow> int \<Rightarrow> str \<Rightarrow> auth_op \<Rightarrow> bool" where
  "later_op now idle h (STouch now' h' idle') = (now \<le> now' \<and> idle' = idle)"
| "later_op now idle h (SCreate now' h' t u ttl) = (h' \<noteq> h)"
| "later_op now idle h _ = True"

lemma session_over_step:
  "session_over now idle h d \<Longrightarrow> later_op now idle h op \<Longrightarrow> session_over now idle h (auth_apply op d)"
proof (cases op)
  case (STouch now' h' idle')
  assume a: "session_over now idle h d" "later_op now idle h op"
  have "sessions (auth_apply op d) = update_where (session_valid now' idle' h') (\<lambda>s. s\<lparr>s_last_used_at := now'\<rparr>) (sessions d)"
    by (simp add: STouch touch_def)
  moreover have "\<not> session_valid now' idle' h' s" if "s \<in> set (sessions d)" "s_id s = h" for s
    using a that by (auto simp: session_over_def STouch session_valid_def)
  ultimately show ?thesis using a(1)
    by (auto simp: session_over_def set_update_where session_valid_def)
qed (auto simp: session_over_def auth_op_defs)



end
