(* ===== verification/Auth.thy ===== *)
theory Auth
  imports Users_Repo
begin

text \<open>
  \<open>crates/server/src/auth/middleware.rs\<close>, \<open>mod.rs\<close>, \<open>tokens.rs\<close> and
  \<open>trial_expiry.rs\<close>: resolving a request's credential to a user. A request is its cookies
  by name and its \<open>Authorization\<close> header. SHA-256 and Unicode lowercasing are parameters.
\<close>

section \<open>Requests\<close>

record request =
  cookies :: "str \<rightharpoonup> str"
  authorization :: "str option"

text \<open>
  What the handlers use of the libraries: SHA-256, Unicode lowercasing, and argon2's check of a
  password against a PHC string, which is no answer where the string is not one.
\<close>

record lib =
  sha256 :: "bytes \<Rightarrow> bytes"
  to_lowercase :: "str \<Rightarrow> str"
  argon2_verify :: "str \<Rightarrow> str \<Rightarrow> bool option"

record auth_config =
  cookie_secure :: bool
  on_prem :: bool
  on_prem_admin_email :: "str option"
  on_prem_admin_password :: "str option"
  on_prem_admin_password_hash :: "str option"
  session_ttl_secs :: int
  session_idle_ttl_secs :: int
  magic_link_ttl_secs :: int
  platform_admin_emails :: "str list"

definition SESSION_COOKIE :: str where "SESSION_COOKIE = ''fleet_session''"
definition SESSION_COOKIE_SECURE :: str where "SESSION_COOKIE_SECURE = ''__Host-fleet_session''"
definition EXCHANGE_COOKIE :: str where "EXCHANGE_COOKIE = ''fleet_exchange''"

definition session_cookie_name :: "bool \<Rightarrow> str" where
  "session_cookie_name secure = (if secure then SESSION_COOKIE_SECURE else SESSION_COOKIE)"

datatype credential = ViaSession | ViaApiKey

record authed_user =
  via :: credential
  who_user :: int
  who_tenant :: int
  who_role :: role
  who_platform_admin :: bool

definition hash_token :: "lib \<Rightarrow> str \<Rightarrow> str" where
  "hash_token l token = hex (sha256 l token)"

definition ascii_lower :: "char \<Rightarrow> char" where
  "ascii_lower c = (if CHR ''A'' \<le> c \<and> c \<le> CHR ''Z'' then char_of ((of_char c :: nat) + 32) else c)"

definition eq_ignore_ascii_case :: "str \<Rightarrow> str \<Rightarrow> bool" where
  "eq_ignore_ascii_case a b \<longleftrightarrow> map ascii_lower a = map ascii_lower b"

text \<open>\<open>split_once(' ')\<close>, then the scheme and the trimmed value.\<close>

definition bearer_token :: "request \<Rightarrow> str option" where
  "bearer_token req =
     (case authorization req of
        None \<Rightarrow> None
      | Some raw_header \<Rightarrow>
          if CHR '' '' \<notin> set raw_header then None
          else
            let scheme = takeWhile (\<lambda>c. c \<noteq> CHR '' '') raw_header;
                val = trim (tl (dropWhile (\<lambda>c. c \<noteq> CHR '' '') raw_header))
            in if \<not> eq_ignore_ascii_case scheme ''bearer'' then None
               else if val = [] then None else Some val)"

section \<open>The session layer\<close>

definition from_session ::
  "lib \<Rightarrow> auth_config \<Rightarrow> int \<Rightarrow> str \<Rightarrow> db \<Rightarrow> authed_user option \<times> db" where
  "from_session l cfg now cookie d =
     (case touch now (hash_token l cookie) (session_idle_ttl_secs cfg) d of
        (None, d') \<Rightarrow> (None, d')
      | (Some s, d') \<Rightarrow>
          (case user_get (se_tenant_id s) (se_user_id s) d' of
             None \<Rightarrow> (None, d')
           | Some u \<Rightarrow>
               if is_blocked u then (None, d')
               else (Some \<lparr>via = ViaSession, who_user = se_user_id s, who_tenant = se_tenant_id s,
                           who_role = us_role u, who_platform_admin = us_is_platform_admin u\<rparr>, d')))"

definition from_api_key :: "lib \<Rightarrow> int \<Rightarrow> str \<Rightarrow> db \<Rightarrow> authed_user option \<times> db" where
  "from_api_key l now token d =
     (case find_by_hash now (hash_token l token) d of
        None \<Rightarrow> (None, d)
      | Some k \<Rightarrow>
          (case user_get (ak_tenant_id k) (ak_user_id k) d of
             None \<Rightarrow> (None, d)
           | Some u \<Rightarrow>
               if is_blocked u then (None, d)
               else (Some \<lparr>via = ViaApiKey, who_user = ak_user_id k, who_tenant = ak_tenant_id k,
                           who_role = us_role u, who_platform_admin = us_is_platform_admin u\<rparr>,
                     touch_last_used now (ak_id k) d)))"

definition session_layer ::
  "lib \<Rightarrow> auth_config \<Rightarrow> int \<Rightarrow> request \<Rightarrow> db \<Rightarrow> authed_user option \<times> db" where
  "session_layer l cfg now req d =
     (case cookies req (session_cookie_name (cookie_secure cfg)) of
        Some cookie \<Rightarrow> from_session l cfg now cookie d
      | None \<Rightarrow>
          (case bearer_token req of
             Some token \<Rightarrow> from_api_key l now token d
           | None \<Rightarrow> (None, d)))"

section \<open>Expired trials\<close>

definition starts_with :: "str \<Rightarrow> str \<Rightarrow> bool" where
  "starts_with s p \<longleftrightarrow> take (length p) s = p"

definition is_allowlisted :: "str \<Rightarrow> bool" where
  "is_allowlisted path =
     (if \<not> starts_with path ''/api/'' then True
      else if starts_with path ''/api/platform/'' then True
      else path \<in> {''/api/me'', ''/api/auth/logout'', ''/api/auth/logout-all'', ''/api/public-config''})"

text \<open>The status the layer answers with, or nothing when it passes the request on.\<close>

definition trial_expiry_layer :: "int \<Rightarrow> str \<Rightarrow> authed_user option \<Rightarrow> db \<Rightarrow> int option" where
  "trial_expiry_layer now path who d =
     (if is_allowlisted path then None
      else case who of
          None \<Rightarrow> None
        | Some w \<Rightarrow>
            (case fetch_optional (\<lambda>t. t_id t = who_tenant w) (tenants d) of
               None \<Rightarrow> Some 403
             | Some t \<Rightarrow>
                 (case t_trial_expires_at t of
                    Some e \<Rightarrow> if e < now then Some 402 else None
                  | None \<Rightarrow> None)))"

section \<open>Who a request acts as\<close>

lemma touch_Some:
  "fst (touch now h idle d) = Some s \<Longrightarrow>
   \<exists>r \<in> set (sessions d). session_valid now idle h r \<and> se_tenant_id s = s_tenant r \<and> se_user_id s = s_user r"
  by (auto simp: touch_def fetch_optional_def dest: find_SomeD)

lemma user_get_Some:
  "user_get t u d = Some usr \<Longrightarrow> \<exists>r \<in> set (users d). is_user t u r \<and> usr = map_user r"
  by (auto simp: user_get_def fetch_optional_def dest: find_SomeD)

lemma users_touch [simp]: "users (snd (touch now h idle d)) = users d"
  by (simp add: touch_def)

lemma user_get_cong: "users d' = users d \<Longrightarrow> user_get t u d' = user_get t u d"
  by (simp add: user_get_def)

lemma find_by_hash_Some:
  "find_by_hash now h d = Some k \<Longrightarrow>
   \<exists>r \<in> set (api_keys d). k_token_hash r = h \<and> (k_expires_at r = None \<or> is_after (k_expires_at r) now)
     \<and> k = map_api_key r"
  by (auto simp: find_by_hash_def fetch_optional_def dest: find_SomeD)

definition stands_for :: "authed_user \<Rightarrow> user_row \<Rightarrow> bool" where
  "stands_for who r \<longleftrightarrow> is_user (who_tenant who) (who_user who) r \<and> u_blocked_at r = None
     \<and> who_role who = role_from_db (u_role r) \<and> who_platform_admin who = (u_is_platform_admin r \<noteq> 0)"

lemma from_session_who:
  assumes "fst (from_session l cfg now c d) = Some who"
  shows "via who = ViaSession \<and> (\<exists>r \<in> set (users d). stands_for who r)
    \<and> (\<exists>s \<in> set (sessions d). session_valid now (session_idle_ttl_secs cfg) (hash_token l c) s
         \<and> s_tenant s = who_tenant who \<and> s_user s = who_user who)"
proof -
  obtain o' d' where t: "touch now (hash_token l c) (session_idle_ttl_secs cfg) d = (o', d')"
    by (cases "touch now (hash_token l c) (session_idle_ttl_secs cfg) d")
  obtain s usr where s: "o' = Some s" "user_get (se_tenant_id s) (se_user_id s) d' = Some usr" "\<not> is_blocked usr"
    and who: "who = \<lparr>via = ViaSession, who_user = se_user_id s, who_tenant = se_tenant_id s,
                     who_role = us_role usr, who_platform_admin = us_is_platform_admin usr\<rparr>"
    using assms by (auto simp: from_session_def t split: option.splits if_splits)
  have "users d' = users d" using users_touch [of now "hash_token l c" "session_idle_ttl_secs cfg" d] t by simp
  with s obtain r where r: "r \<in> set (users d)" "is_user (se_tenant_id s) (se_user_id s) r" "usr = map_user r"
    by (auto dest: user_get_Some)
  obtain x where "x \<in> set (sessions d)" "session_valid now (session_idle_ttl_secs cfg) (hash_token l c) x"
    "se_tenant_id s = s_tenant x" "se_user_id s = s_user x"
    using touch_Some [of now "hash_token l c" "session_idle_ttl_secs cfg" d s] s(1) t by auto
  with r s(3) show ?thesis
    by (force simp: who stands_for_def map_user_def is_blocked_def)
qed

lemma from_api_key_who:
  assumes "fst (from_api_key l now tok d) = Some who"
  shows "via who = ViaApiKey \<and> (\<exists>r \<in> set (users d). stands_for who r)
    \<and> (\<exists>k \<in> set (api_keys d). k_token_hash k = hash_token l tok
         \<and> (k_expires_at k = None \<or> is_after (k_expires_at k) now)
         \<and> k_tenant k = who_tenant who \<and> k_user k = who_user who)"
proof -
  obtain k usr where k: "find_by_hash now (hash_token l tok) d = Some k"
      "user_get (ak_tenant_id k) (ak_user_id k) d = Some usr" "\<not> is_blocked usr"
    and who: "who = \<lparr>via = ViaApiKey, who_user = ak_user_id k, who_tenant = ak_tenant_id k,
                     who_role = us_role usr, who_platform_admin = us_is_platform_admin usr\<rparr>"
    using assms by (auto simp: from_api_key_def split: option.splits if_splits)
  obtain r where "r \<in> set (users d)" "is_user (ak_tenant_id k) (ak_user_id k) r" "usr = map_user r"
    using k(2) by (auto dest: user_get_Some)
  moreover obtain x where "x \<in> set (api_keys d)" "k_token_hash x = hash_token l tok"
      "k_expires_at x = None \<or> is_after (k_expires_at x) now" "k = map_api_key x"
    using find_by_hash_Some [OF k(1)] by blast
  ultimately show ?thesis using k(3)
    by (force simp: who stands_for_def map_user_def is_blocked_def map_api_key_def)
qed

lemma session_layer_who:
  assumes "fst (session_layer l cfg now req d) = Some who"
  shows "\<exists>r \<in> set (users d). stands_for who r"
  using assms from_session_who from_api_key_who
  by (fastforce simp: session_layer_def split: option.splits)

text \<open>
  C2: whoever a request is let in as is the user its credential belongs to, as that user is
  stored at that moment: the row exists in the tenant, is not blocked, and the role and the
  platform flag are the stored ones. A session cookie stands for a session that is neither past
  its lifetime nor idle, and an API key, looked at only where no session cookie was sent, for a
  key that has not expired.
\<close>

theorem session_layer_current:
  assumes "fst (session_layer l cfg now req d) = Some who"
  shows "(\<exists>r \<in> set (users d). stands_for who r)
    \<and> (case cookies req (session_cookie_name (cookie_secure cfg)) of
         Some c \<Rightarrow> via who = ViaSession \<and>
           (\<exists>s \<in> set (sessions d). session_valid now (session_idle_ttl_secs cfg) (hash_token l c) s
              \<and> s_tenant s = who_tenant who \<and> s_user s = who_user who)
       | None \<Rightarrow> via who = ViaApiKey \<and>
           (\<exists>tok. bearer_token req = Some tok \<and>
             (\<exists>k \<in> set (api_keys d). k_token_hash k = hash_token l tok
               \<and> (k_expires_at k = None \<or> is_after (k_expires_at k) now)
               \<and> k_tenant k = who_tenant who \<and> k_user k = who_user who)))"
proof (cases "cookies req (session_cookie_name (cookie_secure cfg))")
  case (Some c)
  then have "fst (from_session l cfg now c d) = Some who" using assms by (simp add: session_layer_def)
  from from_session_who [OF this] Some show ?thesis by simp
next
  case None
  then obtain tok where tok: "bearer_token req = Some tok" "fst (from_api_key l now tok d) = Some who"
    using assms by (auto simp: session_layer_def split: option.splits)
  from from_api_key_who [OF this(2)] tok(1) None show ?thesis by simp
qed

definition sample_lib :: lib where
  "sample_lib = \<lparr>sha256 = id, to_lowercase = map ascii_lower, argon2_verify = (\<lambda>p h. Some (p = h))\<rparr>"

definition sample_config :: auth_config where
  "sample_config = \<lparr>cookie_secure = False, on_prem = False, on_prem_admin_email = None,
     on_prem_admin_password = None, on_prem_admin_password_hash = None,
     session_ttl_secs = 1000, session_idle_ttl_secs = 100, magic_link_ttl_secs = 60,
     platform_admin_emails = []\<rparr>"

text \<open>A session and an API key of user 7, stored under the hashes of \<open>s\<close> and \<open>t\<close>.\<close>

definition signed_in :: db where
  "signed_in = sample_auth\<lparr>
     sessions := [\<lparr>s_id = hash_token sample_lib ''s'', s_tenant = 1, s_user = 7, s_expires_at = 1000,
                   s_last_used_at = 10, s_created_at = 10\<rparr>],
     api_keys := [\<lparr>k_id = ''k1'', k_tenant = 1, k_user = 7, k_name = ''ci'',
                   k_token_hash = hash_token sample_lib ''t'', k_token_prefix = ''nsk_aaaa'',
                   k_created_at = 0, k_last_used_at = None, k_expires_at = None\<rparr>]\<rparr>"

definition cookie_request :: request where
  "cookie_request = \<lparr>cookies = [''fleet_session'' \<mapsto> ''s''], authorization = None\<rparr>"

definition key_request :: request where
  "key_request = \<lparr>cookies = Map.empty, authorization = Some ''Bearer t''\<rparr>"

lemma cookie_request_who:
  "fst (session_layer sample_lib sample_config 20 cookie_request signed_in)
     = Some \<lparr>via = ViaSession, who_user = 7, who_tenant = 1, who_role = Admin, who_platform_admin = False\<rparr>"
  by (simp add: session_layer_def cookie_request_def sample_config_def session_cookie_name_def
      SESSION_COOKIE_def from_session_def touch_def signed_in_def fetch_optional_def session_valid_def
      user_get_def sample_auth_def is_user_def map_user_def is_blocked_def role_from_db_def)

theorem session_layer_current_witness:
  "\<exists>r \<in> set (users signed_in).
     stands_for \<lparr>via = ViaSession, who_user = 7, who_tenant = 1, who_role = Admin, who_platform_admin = False\<rparr> r"
  using session_layer_current [OF cookie_request_who] by blast

section \<open>Blocked users\<close>

definition blocked_user :: "int \<Rightarrow> db \<Rightarrow> bool" where
  "blocked_user u d \<longleftrightarrow> u \<in> set (map u_id (users d))
     \<and> (\<forall>r \<in> set (users d). u_id r = u \<longrightarrow> u_blocked_at r \<noteq> None)"

fun keeps_block :: "int \<Rightarrow> auth_op \<Rightarrow> bool" where
  "keeps_block u (UBlocked now u' b) = (u' = u \<longrightarrow> b)"
| "keeps_block u (UDelete t u') = (u' \<noteq> u)"
| "keeps_block u _ = True"

lemma blocked_user_update:
  assumes "blocked_user u d" and d': "users d' = update_where p f (users d)"
    and id: "\<And>r. u_id (f r) = u_id r"
    and kept: "\<And>r. u_id r = u \<Longrightarrow> p r \<Longrightarrow> u_blocked_at r \<noteq> None \<Longrightarrow> u_blocked_at (f r) \<noteq> None"
  shows "blocked_user u d'"
proof -
  have "map u_id (users d') = map u_id (users d)" unfolding d' using id by (simp add: map_update_where)
  then have "u \<in> set (map u_id (users d'))" using assms(1) by (simp only: blocked_user_def)
  moreover have "u_blocked_at r \<noteq> None" if "r \<in> set (users d')" "u_id r = u" for r
  proof -
    obtain x where x: "x \<in> set (users d)" "r = (if p x then f x else x)"
      using \<open>r \<in> set (users d')\<close> unfolding d' set_update_where by blast
    then have "u_id x = u" using that(2) id by (simp split: if_splits)
    with x assms(1) kept show ?thesis by (simp add: blocked_user_def)
  qed
  ultimately show ?thesis by (simp add: blocked_user_def)
qed

lemma blocked_user_cong: "users d' = users d \<Longrightarrow> blocked_user u d' = blocked_user u d"
  by (simp add: blocked_user_def)

lemma blocked_user_step:
  assumes "blocked_user u d" "keeps_block u op"
  shows "blocked_user u (auth_apply op d)"
proof (cases op)
  case (UCreate now t email rl)
  have "next_rowid (map u_id (users d)) \<noteq> u"
    using assms(1) next_user_fresh [of "users d"] by (auto simp: blocked_user_def)
  with assms(1) show ?thesis
    by (auto simp: UCreate user_create_def committed_def Let_def blocked_user_def)
next
  case (UBlocked now u' b)
  have "users (auth_apply op d) = update_where (\<lambda>r. u_id r = u')
      (\<lambda>r. r\<lparr>u_blocked_at := (if b then Some now else None)\<rparr>) (users d)"
    by (simp add: UBlocked set_blocked_def)
  from blocked_user_update [OF assms(1) this] assms(2) show ?thesis by (simp add: UBlocked)
next
  case (UPlatformAdmin u' b)
  have "users (auth_apply op d) = update_where (\<lambda>r. u_id r = u')
      (\<lambda>r. r\<lparr>u_is_platform_admin := (if b then 1 else 0)\<rparr>) (users d)"
    by (simp add: UPlatformAdmin set_platform_admin_def)
  from blocked_user_update [OF assms(1) this] show ?thesis by simp
next
  case (UPromote email)
  have "users (auth_apply op d) = update_where (\<lambda>r. u_email r = email \<and> u_is_platform_admin r = 0)
      (\<lambda>r. r\<lparr>u_is_platform_admin := 1\<rparr>) (users d)"
    by (simp add: UPromote promote_platform_admin_by_email_def Let_def)
  from blocked_user_update [OF assms(1) this] show ?thesis by simp
next
  case (URole t u' rl)
  have "users (auth_apply op d) = update_where (is_user t u') (\<lambda>r. r\<lparr>u_role := role_as_db rl\<rparr>) (users d)"
    by (simp add: URole user_set_role_def)
  from blocked_user_update [OF assms(1) this] show ?thesis by simp
next
  case (UDelete t u')
  with assms show ?thesis
    by (auto simp: user_delete_def committed_def Let_def blocked_user_def is_user_def)
qed (use assms in \<open>simp_all add: auth_op_defs blocked_user_def\<close>)

lemma blocked_user_run:
  "blocked_user u d \<Longrightarrow> list_all (keeps_block u) ops \<Longrightarrow> blocked_user u (fold auth_apply ops d)"
  by (induction ops arbitrary: d) (simp_all add: blocked_user_step)

lemma set_blocked_blocks:
  assumes "fst (set_blocked now u True d)"
  shows "blocked_user u (snd (set_blocked now u True d))"
proof -
  have "\<exists>r \<in> set (users d). u_id r = u"
    using assms affected_pos [of "\<lambda>r. u_id r = u" "users d"] by (simp add: set_blocked_def)
  then have "u \<in> set (map u_id (update_where (\<lambda>r. u_id r = u) (u_blocked_at_update (\<lambda>_. Some now)) (users d)))"
    by (subst map_update_where) auto
  moreover have "\<forall>r \<in> set (update_where (\<lambda>r. u_id r = u) (u_blocked_at_update (\<lambda>_. Some now)) (users d)).
      u_id r = u \<longrightarrow> u_blocked_at r \<noteq> None"
    unfolding set_update_where by (intro ballI impI) (elim imageE, simp split: if_splits)
  ultimately show ?thesis by (simp only: blocked_user_def set_blocked_def snd_conv if_True) simp
qed

text \<open>
  C3: blocking a user locks them out at once and for good: whatever happens afterwards in the
  authentication tables, new links, sessions and keys of theirs included, no request is let in
  as that user until they are unblocked or deleted.
\<close>

theorem blocked_user_locked_out:
  assumes "fst (set_blocked now u True d)"
    and "list_all (keeps_block u) ops"
    and "fst (session_layer l cfg now' req (fold auth_apply ops (snd (set_blocked now u True d)))) = Some who"
  shows "who_user who \<noteq> u"
proof -
  have "blocked_user u (snd (set_blocked now u True d))" using assms(1) by (rule set_blocked_blocks)
  then have "blocked_user u (fold auth_apply ops (snd (set_blocked now u True d)))"
    using assms(2)
    by (rule blocked_user_run)
  with session_layer_who [OF assms(3)] show ?thesis
    by (auto simp: blocked_user_def stands_for_def is_user_def)
qed

text \<open>A second user; the first one's request is let in while the second is blocked.\<close>

definition two_users :: db where
  "two_users = signed_in\<lparr>users := users signed_in @
     [\<lparr>u_id = 8, u_tenant = 1, u_email = ''b@b.c'', u_role = ''owner'', u_created_at = 0,
       u_is_platform_admin = 0, u_blocked_at = None\<rparr>]\<rparr>"

lemma two_users_who:
  "fst (session_layer sample_lib sample_config 40 cookie_request
       (fold auth_apply [SDelete ''x'', UPromote ''b@b.c''] (snd (set_blocked 30 8 True two_users))))
     = Some \<lparr>via = ViaSession, who_user = 7, who_tenant = 1, who_role = Admin, who_platform_admin = False\<rparr>"
  by (simp add: session_layer_def cookie_request_def sample_config_def session_cookie_name_def
      SESSION_COOKIE_def from_session_def touch_def two_users_def signed_in_def fetch_optional_def
      session_valid_def user_get_def sample_auth_def is_user_def map_user_def is_blocked_def
      role_from_db_def set_blocked_def promote_platform_admin_by_email_def session_delete_def
      update_where_def delete_where_def hash_token_def sample_lib_def)

theorem blocked_user_locked_out_witness:
  "fst (set_blocked 30 8 True two_users) \<and> (7::int) \<noteq> 8"
proof -
  have b: "fst (set_blocked 30 8 True two_users)"
    by (simp add: set_blocked_def two_users_def signed_in_def sample_auth_def affected_def)
  have "list_all (keeps_block 8) [SDelete ''x'', UPromote ''b@b.c'']" by simp
  from blocked_user_locked_out [OF b this two_users_who] b show ?thesis by simp
qed

end
