(* ===== verification/Rate_Limit.thy ===== *)
theory Rate_Limit
  imports Contracts "HOL-Library.Word"
begin

text \<open>
  \<open>crates/server/src/auth/rate_limit.rs\<close>: the limits in front of the unauthenticated
  endpoints. Each per-key decision is made by the \<open>governor\<close> crate, a parameter here:
  from the quota, the monotonic clock and the state a key has, if any, it refuses or gives the
  key's new state; and it says which states are old enough to be dropped. What this code adds,
  the order of the four limiters, the shared daily budget, the pruning and the forgetting of an
  address, is modelled in full. The counters are 32 bit words that wrap.
\<close>

section \<open>State\<close>

datatype quota = per_minute nat | per_hour nat

type_synonym nanos = nat

record governor =
  gov_decide :: "quota \<Rightarrow> nanos \<Rightarrow> nanos option \<Rightarrow> nanos option"
  gov_recent :: "nanos \<Rightarrow> nanos \<Rightarrow> bool"

text \<open>
  What governor documents: a key without state is admitted, and \<open>retain_recent\<close> drops
  states that are from then on indistinguishable from having none.
\<close>

definition governor_laws :: "governor \<Rightarrow> bool" where
  "governor_laws g \<longleftrightarrow>
     (\<forall>q t. gov_decide g q t None \<noteq> None)
     \<and> (\<forall>q t t' s. \<not> gov_recent g t s \<longrightarrow> t \<le> t' \<longrightarrow> gov_decide g q t' (Some s) = gov_decide g q t' None)"

record limits =
  per_email_minute :: "str \<rightharpoonup> nanos"
  per_email_hour :: "str \<rightharpoonup> nanos"
  per_ip_minute :: "str \<rightharpoonup> nanos"
  per_ip_hour :: "str \<rightharpoonup> nanos"
  daily_budget :: "32 word"
  daily_count :: "32 word"
  daily_window_start :: int
  since_prune :: nat

definition limits_new :: "32 word \<Rightarrow> int \<Rightarrow> limits" where
  "limits_new budget now =
     \<lparr>per_email_minute = Map.empty, per_email_hour = Map.empty,
      per_ip_minute = Map.empty, per_ip_hour = Map.empty,
      daily_budget = budget, daily_count = 0, daily_window_start = now, since_prune = 0\<rparr>"

definition email_minute_quota :: quota where "email_minute_quota = per_minute 1"
definition email_hour_quota :: quota where "email_hour_quota = per_hour 5"
definition ip_minute_quota :: quota where "ip_minute_quota = per_minute 10"
definition ip_hour_quota :: quota where "ip_hour_quota = per_hour 60"

definition MAX_EMAIL_LEN :: nat where "MAX_EMAIL_LEN = 254"
definition PRUNE_EVERY :: nat where "PRUNE_EVERY = 512"

section \<open>Plausible addresses\<close>

definition is_control :: "str \<Rightarrow> bool" where
  "is_control ch \<longleftrightarrow>
     (case map of_char ch of
        [b] \<Rightarrow> b < (32::nat) \<or> b = 127
      | [b1, b2] \<Rightarrow> b1 = 194 \<and> 128 \<le> b2 \<and> b2 < 160
      | _ \<Rightarrow> False)"

text \<open>\<open>split('@')\<close>: the pieces between the separators, one at least.\<close>

fun split_on :: "char \<Rightarrow> str \<Rightarrow> str list" where
  "split_on sep [] = [[]]"
| "split_on sep (c # cs) =
     (if c = sep then [] # split_on sep cs
      else case split_on sep cs of p # ps \<Rightarrow> (c # p) # ps | [] \<Rightarrow> [[c]])"

definition plausible_email :: "str \<Rightarrow> bool" where
  "plausible_email email =
     (if email = [] \<or> length email > MAX_EMAIL_LEN then False
      else if list_ex (\<lambda>c. is_whitespace c \<or> is_control c) (chars email) then False
      else case split_on (CHR ''@'') email of
          [local, domain] \<Rightarrow>
            local \<noteq> [] \<and> CHR ''.'' \<in> set domain \<and> hd domain \<noteq> CHR ''.'' \<and> last domain \<noteq> CHR ''.''
        | _ \<Rightarrow> False)"

section \<open>Operations\<close>

datatype rate_decision = Allow | EmailLimited | IpLimited | BudgetExceeded

definition admit_key :: "governor \<Rightarrow> quota \<Rightarrow> nanos \<Rightarrow> 'k \<Rightarrow> ('k \<rightharpoonup> nanos) \<Rightarrow> bool \<times> ('k \<rightharpoonup> nanos)" where
  "admit_key g q t k m =
     (case gov_decide g q t (m k) of None \<Rightarrow> (False, m) | Some s \<Rightarrow> (True, m(k \<mapsto> s)))"

definition retain_recent :: "governor \<Rightarrow> nanos \<Rightarrow> ('k \<rightharpoonup> nanos) \<Rightarrow> ('k \<rightharpoonup> nanos)" where
  "retain_recent g t m =
     (\<lambda>k. case m k of Some s \<Rightarrow> if gov_recent g t s then Some s else None | None \<Rightarrow> None)"

definition prune :: "governor \<Rightarrow> nanos \<Rightarrow> limits \<Rightarrow> limits" where
  "prune g t l = l\<lparr>
     per_email_minute := retain_recent g t (per_email_minute l),
     per_email_hour := retain_recent g t (per_email_hour l),
     per_ip_minute := retain_recent g t (per_ip_minute l),
     per_ip_hour := retain_recent g t (per_ip_hour l)\<rparr>"

definition maybe_prune :: "governor \<Rightarrow> nanos \<Rightarrow> limits \<Rightarrow> limits" where
  "maybe_prune g t l =
     (let l1 = l\<lparr>since_prune := since_prune l + 1\<rparr> in
      if since_prune l + 1 \<ge> PRUNE_EVERY then prune g t (l1\<lparr>since_prune := 0\<rparr>) else l1)"

definition consume_daily_budget :: "int \<Rightarrow> limits \<Rightarrow> bool \<times> limits" where
  "consume_daily_budget now l =
     (let l1 = (if now - daily_window_start l \<ge> 86400
                then l\<lparr>daily_window_start := now, daily_count := 0\<rparr> else l);
          prev = daily_count l1;
          l2 = l1\<lparr>daily_count := prev + 1\<rparr> in
      if prev \<ge> daily_budget l2 then (False, l2\<lparr>daily_count := daily_count l2 - 1\<rparr>)
      else (True, l2))"

text \<open>The two per-IP limiters, in order: the hourly one is asked only if the other admits.\<close>

definition check_ip_limits :: "governor \<Rightarrow> nanos \<Rightarrow> str \<Rightarrow> limits \<Rightarrow> bool \<times> limits" where
  "check_ip_limits g t ip l =
     (case admit_key g ip_minute_quota t ip (per_ip_minute l) of
        (False, m) \<Rightarrow> (False, l\<lparr>per_ip_minute := m\<rparr>)
      | (True, m) \<Rightarrow>
          (case admit_key g ip_hour_quota t ip (per_ip_hour l) of
             (ok, h) \<Rightarrow> (ok, l\<lparr>per_ip_minute := m, per_ip_hour := h\<rparr>)))"

definition check_email_limits :: "governor \<Rightarrow> nanos \<Rightarrow> str \<Rightarrow> limits \<Rightarrow> bool \<times> limits" where
  "check_email_limits g t email l =
     (case admit_key g email_minute_quota t email (per_email_minute l) of
        (False, m) \<Rightarrow> (False, l\<lparr>per_email_minute := m\<rparr>)
      | (True, m) \<Rightarrow>
          (case admit_key g email_hour_quota t email (per_email_hour l) of
             (ok, h) \<Rightarrow> (ok, l\<lparr>per_email_minute := m, per_email_hour := h\<rparr>)))"

text \<open>\<open>AuthRateLimits::check\<close> after its call of \<open>maybe_prune\<close>.\<close>

definition decide :: "governor \<Rightarrow> nanos \<Rightarrow> int \<Rightarrow> str \<Rightarrow> str \<Rightarrow> limits \<Rightarrow> rate_decision \<times> limits" where
  "decide g t now email ip l =
     (if \<not> plausible_email email then (EmailLimited, l)
      else case check_ip_limits g t ip l of
          (False, l1) \<Rightarrow> (IpLimited, l1)
        | (True, l1) \<Rightarrow>
            (case check_email_limits g t email l1 of
               (False, l2) \<Rightarrow> (EmailLimited, l2)
             | (True, l2) \<Rightarrow>
                 (case consume_daily_budget now l2 of
                    (False, l3) \<Rightarrow> (BudgetExceeded, l3)
                  | (True, l3) \<Rightarrow> (Allow, l3))))"

definition check :: "governor \<Rightarrow> nanos \<Rightarrow> int \<Rightarrow> str \<Rightarrow> str \<Rightarrow> limits \<Rightarrow> rate_decision \<times> limits" where
  "check g t now email ip l = decide g t now email ip (maybe_prune g t l)"

definition check_ip :: "governor \<Rightarrow> nanos \<Rightarrow> str \<Rightarrow> limits \<Rightarrow> bool \<times> limits" where
  "check_ip g t ip l = check_ip_limits g t ip (maybe_prune g t l)"

definition forget_email :: "(str \<Rightarrow> str) \<Rightarrow> str \<Rightarrow> limits \<Rightarrow> limits" where
  "forget_email to_lower email l =
     (let key = to_lower (trim email) in
      l\<lparr>per_email_minute := (per_email_minute l)(key := None),
        per_email_hour := (per_email_hour l)(key := None)\<rparr>)"

section \<open>Runs\<close>

text \<open>A request to one of the endpoints, with the two clocks it was served at.\<close>

datatype limit_op = Check nanos int str str | CheckIp nanos str | Forget str

datatype limit_result = Decision rate_decision | IpAdmitted bool | Forgotten

fun limit_step :: "governor \<Rightarrow> (str \<Rightarrow> str) \<Rightarrow> limit_op \<Rightarrow> limits \<Rightarrow> limit_result \<times> limits" where
  "limit_step g low (Check t now email ip) l = map_prod Decision id (check g t now email ip l)"
| "limit_step g low (CheckIp t ip) l = map_prod IpAdmitted id (check_ip g t ip l)"
| "limit_step g low (Forget email) l = (Forgotten, forget_email low email l)"

fun run_with :: "('op \<Rightarrow> 's \<Rightarrow> 'r \<times> 's) \<Rightarrow> 'op list \<Rightarrow> 's \<Rightarrow> 'r list \<times> 's" where
  "run_with step [] s = ([], s)"
| "run_with step (op # ops) s =
     (let (r, s1) = step op s; (rs, s2) = run_with step ops s1 in (r # rs, s2))"

lemma run_with_Cons:
  "run_with step (op # ops) s =
     (fst (step op s) # fst (run_with step ops (snd (step op s))), snd (run_with step ops (snd (step op s))))"
  by (simp add: split_def Let_def)

section \<open>The daily budget\<close>

definition budget_ok :: "limits \<Rightarrow> bool" where
  "budget_ok l \<longleftrightarrow> daily_count l \<le> daily_budget l"

lemma maybe_prune_budget [simp]:
  "daily_budget (maybe_prune g t l) = daily_budget l" "daily_count (maybe_prune g t l) = daily_count l"
  "daily_window_start (maybe_prune g t l) = daily_window_start l"
  by (simp_all add: maybe_prune_def prune_def Let_def)

lemma check_ip_limits_budget [simp]:
  "daily_budget (snd (check_ip_limits g t ip l)) = daily_budget l"
  "daily_count (snd (check_ip_limits g t ip l)) = daily_count l"
  "daily_window_start (snd (check_ip_limits g t ip l)) = daily_window_start l"
  by (simp_all add: check_ip_limits_def split: prod.splits bool.splits)

lemma check_email_limits_budget [simp]:
  "daily_budget (snd (check_email_limits g t e l)) = daily_budget l"
  "daily_count (snd (check_email_limits g t e l)) = daily_count l"
  "daily_window_start (snd (check_email_limits g t e l)) = daily_window_start l"
  by (simp_all add: check_email_limits_def split: prod.splits bool.splits)

lemma unat_next: "(a :: 32 word) < b \<Longrightarrow> unat (a + 1) = unat a + 1 \<and> a + 1 \<le> b"
  by unat_arith

text \<open>A consumption that is refused gives back what it took, at the word's bound too.\<close>

lemma consume_budget:
  assumes "budget_ok l"
  shows "budget_ok (snd (consume_daily_budget now l))"
    and "daily_budget (snd (consume_daily_budget now l)) = daily_budget l"
    and "now - daily_window_start l < 86400 \<Longrightarrow>
         daily_window_start (snd (consume_daily_budget now l)) = daily_window_start l
         \<and> unat (daily_count (snd (consume_daily_budget now l)))
           = unat (daily_count l) + (if fst (consume_daily_budget now l) then 1 else 0)"
  using assms unat_next [of "daily_count l" "daily_budget l"] unat_next [of 0 "daily_budget l"]
  by (auto simp: consume_daily_budget_def Let_def budget_ok_def not_le)

fun in_window :: "int \<Rightarrow> limit_op \<Rightarrow> bool" where
  "in_window w (Check t now email ip) = (now - w < 86400)"
| "in_window w _ = True"

lemma decide_budget:
  assumes "budget_ok l"
  shows "budget_ok (snd (decide g t now e ip l))"
    and "daily_budget (snd (decide g t now e ip l)) = daily_budget l"
    and "now - daily_window_start l < 86400 \<Longrightarrow>
         daily_window_start (snd (decide g t now e ip l)) = daily_window_start l
         \<and> unat (daily_count (snd (decide g t now e ip l)))
           = unat (daily_count l) + (if fst (decide g t now e ip l) = Allow then 1 else 0)"
proof -
  obtain a l1 where 1: "check_ip_limits g t ip l = (a, l1)" by (cases "check_ip_limits g t ip l")
  obtain b l2 where 2: "check_email_limits g t e l1 = (b, l2)" by (cases "check_email_limits g t e l1")
  obtain c l3 where 3: "consume_daily_budget now l2 = (c, l3)" by (cases "consume_daily_budget now l2")
  have l1: "daily_budget l1 = daily_budget l" "daily_count l1 = daily_count l"
    "daily_window_start l1 = daily_window_start l"
    using check_ip_limits_budget [of g t ip l] 1 by simp_all
  have l2: "daily_budget l2 = daily_budget l" "daily_count l2 = daily_count l"
    "daily_window_start l2 = daily_window_start l"
    using check_email_limits_budget [of g t e l1] 2 l1 by simp_all
  have "budget_ok l2" using assms l2 by (simp add: budget_ok_def)
  note cb = consume_budget [OF this, of now, unfolded 3]
  show "budget_ok (snd (decide g t now e ip l))"
    "daily_budget (snd (decide g t now e ip l)) = daily_budget l"
    "now - daily_window_start l < 86400 \<Longrightarrow>
         daily_window_start (snd (decide g t now e ip l)) = daily_window_start l
         \<and> unat (daily_count (snd (decide g t now e ip l)))
           = unat (daily_count l) + (if fst (decide g t now e ip l) = Allow then 1 else 0)"
    using cb assms l1 l2 by (auto simp: decide_def 1 2 3 budget_ok_def split: bool.splits)
qed

lemma limit_step_budget:
  assumes "budget_ok l"
  shows "budget_ok (snd (limit_step g low op l))"
    and "daily_budget (snd (limit_step g low op l)) = daily_budget l"
    and "in_window (daily_window_start l) op \<Longrightarrow>
         daily_window_start (snd (limit_step g low op l)) = daily_window_start l
         \<and> unat (daily_count (snd (limit_step g low op l)))
           = unat (daily_count l) + (if fst (limit_step g low op l) = Decision Allow then 1 else 0)"
proof -
  have ok: "budget_ok (maybe_prune g t l)" for t using assms by (simp add: budget_ok_def)
  note dec = decide_budget [OF ok]
  show "budget_ok (snd (limit_step g low op l))"
    using dec(1) assms by (cases op) (simp_all add: check_def check_ip_def forget_email_def budget_ok_def Let_def)
  show "daily_budget (snd (limit_step g low op l)) = daily_budget l"
    using dec(2) by (cases op) (simp_all add: check_def check_ip_def forget_email_def Let_def)
  show "in_window (daily_window_start l) op \<Longrightarrow>
         daily_window_start (snd (limit_step g low op l)) = daily_window_start l
         \<and> unat (daily_count (snd (limit_step g low op l)))
           = unat (daily_count l) + (if fst (limit_step g low op l) = Decision Allow then 1 else 0)"
    using dec(3) by (cases op) (simp_all add: check_def check_ip_def forget_email_def Let_def)
qed

interpretation limiter: invariant_ops budget_ok "\<lambda>op l. snd (limit_step g low op l)"
  by unfold_locales (rule limit_step_budget(1))

lemma limit_run_budget:
  "budget_ok l \<Longrightarrow> list_all (in_window (daily_window_start l)) ops \<Longrightarrow>
   unat (daily_count l) + count_list (fst (run_with (limit_step g low) ops l)) (Decision Allow)
     \<le> unat (daily_budget l)"
proof (induction ops arbitrary: l)
  case Nil
  then show ?case by (simp add: budget_ok_def word_le_nat_alt)
next
  case (Cons op ops)
  note step = limit_step_budget [OF Cons.prems(1), where g = g and low = low and op = op]
  from Cons.IH [OF step(1)] Cons.prems(2) step(2,3)
  show ?case by (auto simp: run_with_Cons simp del: run_with.simps split: if_splits)
qed


text \<open>Sample limits for a budget of one mail, under a governor that admits every key.\<close>

definition open_governor :: governor where
  "open_governor = \<lparr>gov_decide = (\<lambda>q t s. Some 0), gov_recent = (\<lambda>t s. False)\<rparr>"

definition two_requests :: "limit_op list" where
  "two_requests = [Check 0 50 ''a@b.c'' ''ip1'', Forget ''a@b.c'', Check 1 60 ''a@b.c'' ''ip2'']"

lemma sample_email: "plausible_email ''a@b.c''"
  by (simp add: plausible_email_def MAX_EMAIL_LEN_def is_whitespace_def ws_bytes_def is_control_def is_cont_def)


section \<open>Pruning is invisible\<close>

text \<open>The limiter without pruning, and the two states agreeing on every decision from a time on.\<close>

fun unpruned_step :: "governor \<Rightarrow> (str \<Rightarrow> str) \<Rightarrow> limit_op \<Rightarrow> limits \<Rightarrow> limit_result \<times> limits" where
  "unpruned_step g low (Check t now email ip) l = map_prod Decision id (decide g t now email ip l)"
| "unpruned_step g low (CheckIp t ip) l = map_prod IpAdmitted id (check_ip_limits g t ip l)"
| "unpruned_step g low (Forget email) l = (Forgotten, forget_email low email l)"

definition same_from :: "governor \<Rightarrow> nanos \<Rightarrow> (str \<rightharpoonup> nanos) \<Rightarrow> (str \<rightharpoonup> nanos) \<Rightarrow> bool" where
  "same_from g t m m' \<longleftrightarrow> (\<forall>k q t'. t \<le> t' \<longrightarrow> gov_decide g q t' (m k) = gov_decide g q t' (m' k))"

definition limits_same :: "governor \<Rightarrow> nanos \<Rightarrow> limits \<Rightarrow> limits \<Rightarrow> bool" where
  "limits_same g t l l' \<longleftrightarrow>
     same_from g t (per_email_minute l) (per_email_minute l')
     \<and> same_from g t (per_email_hour l) (per_email_hour l')
     \<and> same_from g t (per_ip_minute l) (per_ip_minute l')
     \<and> same_from g t (per_ip_hour l) (per_ip_hour l')
     \<and> daily_budget l = daily_budget l' \<and> daily_count l = daily_count l'
     \<and> daily_window_start l = daily_window_start l'"

fun op_time :: "limit_op \<Rightarrow> nanos option" where
  "op_time (Check t now email ip) = Some t"
| "op_time (CheckIp t ip) = Some t"
| "op_time (Forget email) = None"

text \<open>The clock never runs backwards from one request to the next.\<close>

definition clock_ok :: "limit_op list \<Rightarrow> bool" where
  "clock_ok ops \<longleftrightarrow> sorted (List.map_filter op_time ops)"

lemma same_from_refl [simp]: "same_from g t m m"
  by (simp add: same_from_def)

lemma same_from_later: "same_from g t m m' \<Longrightarrow> t \<le> t' \<Longrightarrow> same_from g t' m m'"
  by (auto simp: same_from_def)

lemma limits_same_later: "limits_same g t l l' \<Longrightarrow> t \<le> t' \<Longrightarrow> limits_same g t' l l'"
  using same_from_later by (auto simp: limits_same_def)

lemma retain_recent_same:
  "governor_laws g \<Longrightarrow> same_from g t m m' \<Longrightarrow> same_from g t (retain_recent g t m) m'"
proof -
  assume laws: "governor_laws g" and same: "same_from g t m m'"
  have "gov_decide g q t' (retain_recent g t m k) = gov_decide g q t' (m k)" if "t \<le> t'" for k q t'
  proof (cases "m k")
    case (Some s)
    with laws that show ?thesis by (cases "gov_recent g t s") (auto simp: retain_recent_def governor_laws_def)
  qed (simp add: retain_recent_def)
  with same show ?thesis by (simp add: same_from_def)
qed

lemma maybe_prune_same:
  "governor_laws g \<Longrightarrow> limits_same g t l l' \<Longrightarrow> limits_same g t (maybe_prune g t l) l'"
  by (simp add: limits_same_def maybe_prune_def prune_def Let_def retain_recent_same)

lemma admit_key_same:
  assumes "same_from g t m m'"
  shows "fst (admit_key g q t k m) = fst (admit_key g q t k m')"
    and "same_from g t (snd (admit_key g q t k m)) (snd (admit_key g q t k m'))"
proof -
  have "gov_decide g q t (m k) = gov_decide g q t (m' k)" using assms by (simp add: same_from_def)
  then show "fst (admit_key g q t k m) = fst (admit_key g q t k m')"
    "same_from g t (snd (admit_key g q t k m)) (snd (admit_key g q t k m'))"
    using assms by (auto simp: admit_key_def same_from_def split: option.splits)
qed

lemma check_ip_limits_same:
  assumes "limits_same g t l l'"
  shows "fst (check_ip_limits g t ip l) = fst (check_ip_limits g t ip l')
    \<and> limits_same g t (snd (check_ip_limits g t ip l)) (snd (check_ip_limits g t ip l'))"
proof -
  have "same_from g t (per_ip_minute l) (per_ip_minute l')" "same_from g t (per_ip_hour l) (per_ip_hour l')"
    using assms by (simp_all add: limits_same_def)
  note * = admit_key_same [OF this(1), of ip_minute_quota ip] admit_key_same [OF this(2), of ip_hour_quota ip]
  from * assms show ?thesis
    by (auto simp: check_ip_limits_def limits_same_def split: prod.splits bool.splits)
qed

lemma check_email_limits_same:
  assumes "limits_same g t l l'"
  shows "fst (check_email_limits g t e l) = fst (check_email_limits g t e l')
    \<and> limits_same g t (snd (check_email_limits g t e l)) (snd (check_email_limits g t e l'))"
proof -
  have "same_from g t (per_email_minute l) (per_email_minute l')" "same_from g t (per_email_hour l) (per_email_hour l')"
    using assms by (simp_all add: limits_same_def)
  note * = admit_key_same [OF this(1), of email_minute_quota e] admit_key_same [OF this(2), of email_hour_quota e]
  from * assms show ?thesis
    by (auto simp: check_email_limits_def limits_same_def split: prod.splits bool.splits)
qed

lemma consume_same:
  "limits_same g t l l' \<Longrightarrow>
   fst (consume_daily_budget now l) = fst (consume_daily_budget now l')
   \<and> limits_same g t (snd (consume_daily_budget now l)) (snd (consume_daily_budget now l'))"
  by (auto simp: consume_daily_budget_def limits_same_def Let_def)

lemma decide_same:
  assumes "limits_same g t l l'"
  shows "fst (decide g t now e ip l) = fst (decide g t now e ip l')
    \<and> limits_same g t (snd (decide g t now e ip l)) (snd (decide g t now e ip l'))"
proof -
  obtain a l1 where p1: "check_ip_limits g t ip l = (a, l1)" by (cases "check_ip_limits g t ip l")
  obtain a' l1' where q1: "check_ip_limits g t ip l' = (a', l1')" by (cases "check_ip_limits g t ip l'")
  obtain b l2 where p2: "check_email_limits g t e l1 = (b, l2)" by (cases "check_email_limits g t e l1")
  obtain b' l2' where q2: "check_email_limits g t e l1' = (b', l2')" by (cases "check_email_limits g t e l1'")
  obtain c l3 where p3: "consume_daily_budget now l2 = (c, l3)" by (cases "consume_daily_budget now l2")
  obtain c' l3' where q3: "consume_daily_budget now l2' = (c', l3')" by (cases "consume_daily_budget now l2'")
  have s1: "a = a'" "limits_same g t l1 l1'" using check_ip_limits_same [OF assms, of ip] by (simp_all add: p1 q1)
  have s2: "b = b'" "limits_same g t l2 l2'" using check_email_limits_same [OF s1(2), of e] by (simp_all add: p2 q2)
  have s3: "c = c'" "limits_same g t l3 l3'" using consume_same [OF s2(2), of now] by (simp_all add: p3 q3)
  show ?thesis using assms s1 s2 s3 by (simp add: decide_def p1 q1 p2 q2 p3 q3 split: bool.splits)
qed

lemma limit_step_same:
  assumes "governor_laws g" "limits_same g t l l'" "\<And>t'. op_time op = Some t' \<Longrightarrow> t \<le> t'"
  shows "fst (limit_step g low op l) = fst (unpruned_step g low op l')
    \<and> limits_same g (case op_time op of None \<Rightarrow> t | Some t' \<Rightarrow> t')
        (snd (limit_step g low op l)) (snd (unpruned_step g low op l'))"
proof (cases op)
  case (Check t' now e ip)
  then have "limits_same g t' (maybe_prune g t' l) l'"
    using assms by (intro maybe_prune_same) (auto intro: limits_same_later)
  from decide_same [OF this] Check show ?thesis by (simp add: check_def)
next
  case (CheckIp t' ip)
  then have "limits_same g t' (maybe_prune g t' l) l'"
    using assms by (intro maybe_prune_same) (auto intro: limits_same_later)
  from check_ip_limits_same [OF this] CheckIp show ?thesis by (simp add: check_ip_def)
next
  case (Forget e)
  with assms show ?thesis by (auto simp: forget_email_def limits_same_def same_from_def Let_def)
qed

lemma limit_run_same:
  assumes "governor_laws g"
  shows "limits_same g t l l' \<Longrightarrow> clock_ok ops \<Longrightarrow> (\<forall>t' \<in> set (List.map_filter op_time ops). t \<le> t') \<Longrightarrow>
    fst (run_with (limit_step g low) ops l) = fst (run_with (unpruned_step g low) ops l')"
proof (induction ops arbitrary: t l l')
  case (Cons op ops)
  let ?t = "case op_time op of None \<Rightarrow> t | Some t' \<Rightarrow> t'"
  have "t \<le> t'" if "op_time op = Some t'" for t'
    using Cons.prems(3) that by (simp add: List.map_filter_simps)
  note step = limit_step_same [where op = op and low = low, OF assms Cons.prems(1) this]
  have "clock_ok ops" "\<forall>t' \<in> set (List.map_filter op_time ops). ?t \<le> t'"
    using Cons.prems(2,3) by (auto simp: clock_ok_def List.map_filter_simps split: option.splits)
  then have "fst (run_with (limit_step g low) ops (snd (limit_step g low op l)))
      = fst (run_with (unpruned_step g low) ops (snd (unpruned_step g low op l')))"
    using step by (intro Cons.IH [where t = ?t]) simp_all
  with step show ?case by (simp add: run_with_Cons del: run_with.simps)
qed simp

text \<open>
  Pruning changes no decision: for requests served in clock order, the limiter answers as
  the one that keeps every key it has ever seen would, given that governor drops only states
  that are indistinguishable from none.
\<close>

theorem pruning_invisible:
  assumes "governor_laws g" and "clock_ok ops"
  shows "fst (run_with (limit_step g low) ops l) = fst (run_with (unpruned_step g low) ops l)"
  by (rule limit_run_same [OF assms(1) _ assms(2), where t = 0]) (simp_all add: limits_same_def)

text \<open>A governor that refuses a key for ten units of time after it was admitted.\<close>

definition gap_governor :: governor where
  "gap_governor =
     \<lparr>gov_decide = (\<lambda>q t s. case s of None \<Rightarrow> Some t | Some u \<Rightarrow> if u + 10 \<le> t then Some t else None),
      gov_recent = (\<lambda>t s. t < s + 10)\<rparr>"

lemma gap_governor_laws: "governor_laws gap_governor"
  by (auto simp: governor_laws_def gap_governor_def)

theorem pruning_invisible_witness:
  "fst (run_with (limit_step gap_governor id) [CheckIp 0 ''ip'', CheckIp 5 ''ip'', CheckIp 15 ''ip'']
      (limits_new 9 0\<lparr>since_prune := 510\<rparr>))
   = [IpAdmitted True, IpAdmitted False, IpAdmitted True]"
proof -
  have "clock_ok [CheckIp 0 ''ip'', CheckIp 5 ''ip'', CheckIp 15 ''ip'']"
    by (simp add: clock_ok_def List.map_filter_simps)
  note pruning_invisible [OF gap_governor_laws this, of id "limits_new 9 0\<lparr>since_prune := 510\<rparr>"]
  then show ?thesis
    by (simp add: check_ip_limits_def admit_key_def gap_governor_def limits_new_def)
qed

section \<open>Keys\<close>

lemma maybe_prune_keys: "per_email_minute l k = None \<Longrightarrow> per_email_minute (maybe_prune g t l) k = None"
  by (simp add: maybe_prune_def prune_def retain_recent_def Let_def)

lemma check_ip_limits_keys: "per_email_minute (snd (check_ip_limits g t ip l)) = per_email_minute l"
  by (simp add: check_ip_limits_def split: prod.splits bool.splits)

lemma consume_keys: "per_email_minute (snd (consume_daily_budget now l)) = per_email_minute l"
  by (simp add: consume_daily_budget_def Let_def)

lemma check_email_limits_keys:
  "per_email_minute (snd (check_email_limits g t e l)) k \<noteq> None \<Longrightarrow> per_email_minute l k \<noteq> None \<or> k = e"
  by (auto simp: check_email_limits_def admit_key_def split: prod.splits bool.splits option.splits if_splits)

lemma plausible_email_length: "plausible_email e \<Longrightarrow> length e \<le> 254"
  by (auto simp: plausible_email_def MAX_EMAIL_LEN_def split: if_splits)

text \<open>
  An address becomes a key of the limiter only if it has the shape of one, of at most
  254 bytes, and only for a caller both of whose own limits admitted the request.
\<close>

theorem email_keys_guarded:
  assumes "per_email_minute l k = None"
    and "per_email_minute (snd (limit_step g low (Check t now e ip) l)) k \<noteq> None"
  shows "k = e \<and> plausible_email e \<and> length e \<le> 254
    \<and> fst (limit_step g low (Check t now e ip) l) \<noteq> Decision IpLimited
    \<and> fst (check_ip_limits g t ip (maybe_prune g t l))"
proof -
  obtain a l1 where 1: "check_ip_limits g t ip (maybe_prune g t l) = (a, l1)"
    by (cases "check_ip_limits g t ip (maybe_prune g t l)")
  obtain b l2 where 2: "check_email_limits g t e l1 = (b, l2)" by (cases "check_email_limits g t e l1")
  obtain c l3 where 3: "consume_daily_budget now l2 = (c, l3)" by (cases "consume_daily_budget now l2")
  have l0: "per_email_minute (maybe_prune g t l) k = None" using assms(1) by (rule maybe_prune_keys)
  then have l1: "per_email_minute l1 k = None" using check_ip_limits_keys [of g t ip "maybe_prune g t l"] 1 by simp
  have l2: "per_email_minute l2 k \<noteq> None \<Longrightarrow> k = e" using check_email_limits_keys [of g t e l1 k] 2 l1 by auto
  have l3: "per_email_minute l3 = per_email_minute l2" using consume_keys [of now l2] 3 by simp
  have "a \<and> plausible_email e \<and> per_email_minute l2 k \<noteq> None"
    using assms(2) l0 l1 l3 by (auto simp: check_def decide_def 1 2 3 split: if_splits bool.splits)
  then show ?thesis using l2 plausible_email_length [of e]
    by (simp add: check_def decide_def 1 2 3 split: bool.splits)
qed

theorem email_keys_guarded_witness:
  "per_email_minute (snd (limit_step gap_governor id (Check 3 50 ''a@b.c'' ''ip'') (limits_new 1 0))) ''a@b.c'' = Some 3
   \<and> fst (check_ip_limits gap_governor 3 ''ip'' (maybe_prune gap_governor 3 (limits_new 1 0)))"
proof -
  have "per_email_minute (snd (limit_step gap_governor id (Check 3 50 ''a@b.c'' ''ip'') (limits_new 1 0))) ''a@b.c'' = Some 3"
    by (simp add: limits_new_def check_def maybe_prune_def PRUNE_EVERY_def decide_def sample_email
        check_ip_limits_def check_email_limits_def admit_key_def gap_governor_def consume_daily_budget_def Let_def)
  with email_keys_guarded [of "limits_new 1 0" "''a@b.c''" gap_governor id 3 50 "''a@b.c''" "''ip''"]
  show ?thesis by (simp add: limits_new_def)
qed

end
