(* ===== verification/Sign_In.thy ===== *)
theory Sign_In
  imports Auth Rate_Limit
begin

text \<open>
  The sign-in and sign-out handlers of \<open>crates/server/src/auth/handlers.rs\<close>. The state is
  the database with the in-memory rate limits; a response is its status with the cookies it
  sets. Random tokens are arguments. The task \<open>send_link\<close> spawns to store and mail a link
  is run to its end; whether the mail arrives changes nothing here.
\<close>

section \<open>State and responses\<close>

record app =
  app_db :: db
  app_limits :: limits

record response =
  status_code :: int
  set_session :: "str option"
  set_exchange :: "str option"

definition respond :: "int \<Rightarrow> response" where
  "respond code = \<lparr>status_code = code, set_session = None, set_exchange = None\<rparr>"

text \<open>The two clocks of a request: wall time in seconds, the limiter's in nanoseconds.\<close>

record clocks =
  unix_now :: int
  mono_now :: nanos

section \<open>Helpers\<close>

definition constant_time_eq :: "8 word list \<Rightarrow> 8 word list \<Rightarrow> bool" where
  "constant_time_eq a b =
     (if length a \<noteq> length b then False
      else fold (\<lambda>xy diff. or diff (xor (fst xy) (snd xy))) (zip a b) 0 = 0)"

definition as_bytes :: "str \<Rightarrow> 8 word list" where
  "as_bytes s = map of_char s"

definition platform_admin_bootstrap :: "lib \<Rightarrow> auth_config \<Rightarrow> user \<Rightarrow> db \<Rightarrow> db" where
  "platform_admin_bootstrap l cfg u d =
     (if to_lowercase l (trim (us_email u)) \<notin> set (platform_admin_emails cfg) then d
      else if us_is_platform_admin u then d
      else snd (set_platform_admin (us_id u) True d))"

definition issue_session_cookie ::
  "lib \<Rightarrow> auth_config \<Rightarrow> int \<Rightarrow> str \<Rightarrow> int \<Rightarrow> int \<Rightarrow> db \<Rightarrow> response \<times> db" where
  "issue_session_cookie l cfg now token t u d =
     (case user_get t u d of
        None \<Rightarrow> (respond 401, d)
      | Some usr \<Rightarrow>
          if is_blocked usr then (respond 403, d)
          else
            let d1 = platform_admin_bootstrap l cfg usr d in
            case session_create now (hash_token l token) t u (session_ttl_secs cfg) d1 of
              Inl _ \<Rightarrow> (respond 500, d1)
            | Inr (_, d2) \<Rightarrow> ((respond 303)\<lparr>set_session := Some token\<rparr>, d2))"

text \<open>
  \<open>issue_and_send_link\<close> up to the mail: a refused insert is its error.
\<close>

definition issue_link :: "lib \<Rightarrow> auth_config \<Rightarrow> int \<Rightarrow> str \<Rightarrow> int \<Rightarrow> int \<Rightarrow> db \<Rightarrow> sql_error + db" where
  "issue_link l cfg now token t u d =
     magic_create now (hash_token l token) t u (now + magic_link_ttl_secs cfg) d"

section \<open>Requesting a link\<close>

definition send_link ::
  "lib \<Rightarrow> governor \<Rightarrow> auth_config \<Rightarrow> clocks \<Rightarrow> str \<Rightarrow> str \<Rightarrow> str \<Rightarrow> app \<Rightarrow> response \<times> app" where
  "send_link l g cfg clk token body_email ip s =
     (if on_prem cfg then (respond 404, s)
      else
        let email = to_lowercase l (trim body_email) in
        if email = [] then (respond 204, s)
        else
          let (r, lim) = check g (mono_now clk) (unix_now clk) email ip (app_limits s);
              s1 = s\<lparr>app_limits := lim\<rparr> in
          if r \<noteq> Allow then (respond 204, s1)
          else case find_by_email email (app_db s1) of
              None \<Rightarrow> (respond 204, s1)
            | Some u \<Rightarrow>
                if is_blocked u then (respond 204, s1)
                else (respond 204, s1\<lparr>app_db := attempted (app_db s1)
                        (issue_link l cfg (unix_now clk) token (us_tenant_id u) (us_id u) (app_db s1))\<rparr>))"

section \<open>Redeeming a link\<close>

definition exchange :: "auth_config \<Rightarrow> str \<Rightarrow> response" where
  "exchange cfg csrf =
     (if on_prem cfg then respond 404 else (respond 200)\<lparr>set_exchange := Some csrf\<rparr>)"

record confirm_form =
  form_t :: str
  form_csrf :: str

definition exchange_confirm ::
  "lib \<Rightarrow> auth_config \<Rightarrow> int \<Rightarrow> str \<Rightarrow> request \<Rightarrow> confirm_form \<Rightarrow> app \<Rightarrow> response \<times> app" where
  "exchange_confirm l cfg now token req form s =
     (if on_prem cfg then (respond 404, s)
      else if \<not> (case cookies req EXCHANGE_COOKIE of
                 None \<Rightarrow> False
               | Some c \<Rightarrow> constant_time_eq (as_bytes c) (as_bytes (form_csrf form)))
        then (respond 403, s)
      else case redeem now (hash_token l (form_t form)) (app_db s) of
          (None, d1) \<Rightarrow> (respond 401, s\<lparr>app_db := d1\<rparr>)
        | (Some (t, u), d1) \<Rightarrow>
            (case issue_session_cookie l cfg now token t u d1 of
               (resp, d2) \<Rightarrow>
                 (resp,
                  s\<lparr>app_db := d2,
                    app_limits :=
                      (if 300 \<le> status_code resp \<and> status_code resp < 400
                       then case user_get t u d2 of
                              Some usr \<Rightarrow> forget_email (to_lowercase l) (us_email usr) (app_limits s)
                            | None \<Rightarrow> app_limits s
                       else app_limits s)\<rparr>)))"

section \<open>The on-prem password\<close>

definition verify_admin_password :: "lib \<Rightarrow> auth_config \<Rightarrow> str \<Rightarrow> bool option" where
  "verify_admin_password l cfg offered =
     (case on_prem_admin_password_hash cfg of
        Some phc \<Rightarrow> argon2_verify l offered phc
      | None \<Rightarrow>
          (case on_prem_admin_password cfg of
             None \<Rightarrow> None
           | Some plain \<Rightarrow>
               if plain = [] then None
               else Some (constant_time_eq (as_bytes offered) (as_bytes plain))))"

definition on_prem_login ::
  "lib \<Rightarrow> governor \<Rightarrow> auth_config \<Rightarrow> clocks \<Rightarrow> str \<Rightarrow> str \<Rightarrow> str \<Rightarrow> str \<Rightarrow> app \<Rightarrow> response \<times> app" where
  "on_prem_login l g cfg clk token ip body_email body_password s =
     (if \<not> on_prem cfg then (respond 404, s)
      else
        let (admitted, lim) = check_ip g (mono_now clk) ip (app_limits s);
            s1 = s\<lparr>app_limits := lim\<rparr> in
        if \<not> admitted then (respond 429, s1)
        else
          let admin_email = (case on_prem_admin_email cfg of Some e \<Rightarrow> e | None \<Rightarrow> []) in
          if admin_email = [] then (respond 503, s1)
          else case verify_admin_password l cfg body_password of
              None \<Rightarrow> (respond 503, s1)
            | Some pw_match \<Rightarrow>
                if \<not> (eq_ignore_ascii_case (trim body_email) admin_email \<and> pw_match)
                then (respond 401, s1)
                else case find_by_email (to_lowercase l admin_email) (app_db s1) of
                    None \<Rightarrow> (respond 500, s1)
                  | Some u \<Rightarrow>
                      (case issue_session_cookie l cfg (unix_now clk) token (us_tenant_id u) (us_id u) (app_db s1) of
                         (resp, d) \<Rightarrow> (resp, s1\<lparr>app_db := d\<rparr>)))"

section \<open>Signing out\<close>

definition logout :: "lib \<Rightarrow> auth_config \<Rightarrow> request \<Rightarrow> app \<Rightarrow> response \<times> app" where
  "logout l cfg req s =
     (respond 204,
      case cookies req (session_cookie_name (cookie_secure cfg)) of
        None \<Rightarrow> s
      | Some c \<Rightarrow> s\<lparr>app_db := session_delete (hash_token l c) (app_db s)\<rparr>)"

definition logout_everywhere :: "authed_user \<Rightarrow> app \<Rightarrow> response \<times> app" where
  "logout_everywhere who s =
     (respond 204, s\<lparr>app_db := snd (delete_for_user (who_tenant who) (who_user who) (app_db s))\<rparr>)"

section \<open>The confirmation page\<close>

fun html_attr_escape :: "str \<Rightarrow> str" where
  "html_attr_escape [] = []"
| "html_attr_escape (c # cs) =
     (if c = CHR ''&'' then ''&amp;''
      else if c = CHR ''<'' then ''&lt;''
      else if c = CHR ''>'' then ''&gt;''
      else if c = CHR 0x22 then ''&quot;''
      else if c = CHR 0x27 then ''&#x27;''
      else [c]) @ html_attr_escape cs"

text \<open>The two hidden fields of the form, the only parts of the page that are not constant.\<close>

definition confirm_fields :: "str \<Rightarrow> str \<Rightarrow> str" where
  "confirm_fields token csrf =
     ''<input type='' @ [CHR 0x22] @ ''hidden'' @ [CHR 0x22] @ '' name='' @ [CHR 0x22] @ ''t'' @ [CHR 0x22]
       @ '' value='' @ [CHR 0x22] @ html_attr_escape token @ [CHR 0x22] @ ''>'' @ [CHR 0x0A]
     @ ''<input type='' @ [CHR 0x22] @ ''hidden'' @ [CHR 0x22] @ '' name='' @ [CHR 0x22] @ ''csrf'' @ [CHR 0x22]
       @ '' value='' @ [CHR 0x22] @ html_attr_escape csrf @ [CHR 0x22] @ ''>''"

section \<open>Comparing secrets\<close>

lemma xor_zero_iff: "xor x y = (0 :: 8 word) \<longleftrightarrow> x = y"
proof
  assume "xor x y = 0"
  then have "xor (xor x y) y = xor 0 y" by simp
  then show "x = y" by (simp add: xor.assoc)
qed simp

lemma or_zero_iff: "or x y = (0 :: 8 word) \<longleftrightarrow> x = 0 \<and> y = 0"
  by (auto simp: bit_eq_iff bit_or_iff)

lemma or_fold_zero:
  fixes xs :: "(8 word \<times> 8 word) list"
  shows "fold (\<lambda>xy diff. or diff (xor (fst xy) (snd xy))) xs acc = 0 \<longleftrightarrow> acc = 0 \<and> (\<forall>(x, y) \<in> set xs. x = y)"
  by (induction xs arbitrary: acc) (auto simp: or_zero_iff xor_zero_iff)

lemma constant_time_eq [simp]: "constant_time_eq a b \<longleftrightarrow> a = b"
proof (cases "length a = length b")
  case True
  have "(\<forall>(x, y) \<in> set (zip a b). x = y) \<longleftrightarrow> a = b"
    using True by (induction a b rule: list_induct2) auto
  with True show ?thesis by (simp add: constant_time_eq_def or_fold_zero)
qed (auto simp: constant_time_eq_def)

lemma as_bytes_inj [simp]: "as_bytes a = as_bytes b \<longleftrightarrow> a = b"
proof
  assume eq: "as_bytes a = as_bytes b"
  have "inj (of_char :: char \<Rightarrow> 8 word)"
  proof (rule injI)
    fix x y :: char
    assume "(of_char x :: 8 word) = of_char y"
    then have "(of_nat (of_char x) :: 8 word) = of_nat (of_char y)" by (simp add: of_nat_of_char)
    then have "unat (of_nat (of_char x) :: 8 word) = unat (of_nat (of_char y) :: 8 word)" by simp
    then show "x = y" by (simp add: unat_of_nat of_char_lt_256)
  qed
  with eq show "a = b" by (simp add: as_bytes_def inj_map_eq_map)
qed simp

section \<open>What a session proves\<close>

lemma issue_session_cookie_session:
  assumes "set_session (fst (issue_session_cookie l cfg now token t u d)) = Some tok"
  shows "tok = token \<and> (\<exists>r \<in> set (users d). is_user t u r \<and> u_blocked_at r = None)
    \<and> sessions (snd (issue_session_cookie l cfg now token t u d)) = sessions d @
        [\<lparr>s_id = hash_token l token, s_tenant = t, s_user = u,
          s_expires_at = now + session_ttl_secs cfg, s_last_used_at = now, s_created_at = now\<rparr>]"
proof -
  obtain usr where usr: "user_get t u d = Some usr" "\<not> is_blocked usr"
    using assms by (auto simp: issue_session_cookie_def respond_def split: option.splits if_splits)
  let ?d1 = "platform_admin_bootstrap l cfg usr d"
  obtain x where x: "session_create now (hash_token l token) t u (session_ttl_secs cfg) ?d1 = Inr x"
    using assms usr by (auto simp: issue_session_cookie_def respond_def Let_def split: sum.splits)
  have "sessions ?d1 = sessions d"
    by (simp add: platform_admin_bootstrap_def set_platform_admin_def)
  moreover have "\<exists>r \<in> set (users d). is_user t u r \<and> u_blocked_at r = None"
    using user_get_Some [OF usr(1)] usr(2) by (auto simp: map_user_def is_blocked_def)
  ultimately show ?thesis
    using assms usr x by (auto simp: issue_session_cookie_def Let_def session_create_def respond_def split: if_splits)
qed

text \<open>
  C23: redeeming a link buys a session only where the deployment uses links, the form's nonce
  is the one in the browser's confirmation cookie, the link is stored, unused and unexpired,
  and its user exists in its tenant and is not blocked; the session is that user's, it is the
  only one added, and the link is spent.
\<close>

theorem exchange_confirm_signs_in:
  assumes "users_ok (app_db s)"
    and "set_session (fst (exchange_confirm l cfg now token req form s)) = Some tok"
  shows "\<exists>lnk \<in> set (magic_links (app_db s)).
      tok = token \<and> \<not> on_prem cfg \<and> cookies req EXCHANGE_COOKIE = Some (form_csrf form)
      \<and> redeemable now (hash_token l (form_t form)) lnk
      \<and> (\<exists>r \<in> set (users (app_db s)). is_user (ml_tenant lnk) (ml_user lnk) r \<and> u_blocked_at r = None)
      \<and> sessions (app_db (snd (exchange_confirm l cfg now token req form s))) = sessions (app_db s) @
          [\<lparr>s_id = hash_token l token, s_tenant = ml_tenant lnk, s_user = ml_user lnk,
            s_expires_at = now + session_ttl_secs cfg, s_last_used_at = now, s_created_at = now\<rparr>]
      \<and> \<not> link_live (hash_token l (form_t form)) (app_db (snd (exchange_confirm l cfg now token req form s)))"
proof -
  let ?h = "hash_token l (form_t form)"
  obtain o1 d1 where red: "redeem now ?h (app_db s) = (o1, d1)" by (cases "redeem now ?h (app_db s)")
  have guard: "\<not> on_prem cfg" "cookies req EXCHANGE_COOKIE = Some (form_csrf form)" "o1 \<noteq> None"
    using assms(2) by (auto simp: exchange_confirm_def red respond_def split: if_splits option.splits)
  obtain t u where tu: "o1 = Some (t, u)" using guard(3) by (cases o1) auto
  obtain lnk where lnk: "lnk \<in> set (magic_links (app_db s))" "redeemable now ?h lnk"
      "t = ml_tenant lnk" "u = ml_user lnk"
    using red tu by (auto simp: redeem_def fetch_optional_def dest: find_SomeD)
  obtain resp d2 where iss: "issue_session_cookie l cfg now token t u d1 = (resp, d2)"
    by (cases "issue_session_cookie l cfg now token t u d1")
  have res: "fst (exchange_confirm l cfg now token req form s) = resp"
      "app_db (snd (exchange_confirm l cfg now token req form s)) = d2"
    using guard by (simp_all add: exchange_confirm_def red tu iss)
  have d1: "users d1 = users (app_db s)" "sessions d1 = sessions (app_db s)"
    using red by (auto simp: redeem_def)
  have "\<not> link_live ?h d1" using redeem_spends [OF assms(1), of now ?h] red tu by simp
  moreover have "magic_links d2 = magic_links d1"
    using iss by (auto simp: issue_session_cookie_def platform_admin_bootstrap_def set_platform_admin_def
        session_create_def Let_def split: option.splits if_splits)
  ultimately have "\<not> link_live ?h d2" by (simp add: link_live_def)
  with issue_session_cookie_session [of l cfg now token t u d1 tok] assms(2) guard lnk d1
  show ?thesis unfolding res iss by auto
qed

definition sample_app :: app where
  "sample_app = \<lparr>app_db = signed_in\<lparr>magic_links :=
     [\<lparr>ml_token_hash = hash_token sample_lib ''m'', ml_tenant = 1, ml_user = 7, ml_expires_at = 100,
       ml_used_at = None, ml_created_at = 0\<rparr>]\<rparr>, app_limits = limits_new 1 0\<rparr>"

definition sample_form :: confirm_form where
  "sample_form = \<lparr>form_t = ''m'', form_csrf = ''n''\<rparr>"

definition confirm_request :: request where
  "confirm_request = \<lparr>cookies = [''fleet_exchange'' \<mapsto> ''n''], authorization = None\<rparr>"

lemma sample_app_ok: "users_ok (app_db sample_app)"
  by (simp add: users_ok_def sample_app_def signed_in_def sample_auth_def)

lemma sample_confirm:
  "set_session (fst (exchange_confirm sample_lib sample_config 50 ''new'' confirm_request sample_form sample_app))
     = Some ''new''"
  by (simp add: exchange_confirm_def sample_config_def confirm_request_def EXCHANGE_COOKIE_def
      sample_form_def redeem_def sample_app_def fetch_optional_def redeemable_def hash_token_def sample_lib_def
      issue_session_cookie_def user_get_def signed_in_def sample_auth_def is_user_def map_user_def
      is_blocked_def platform_admin_bootstrap_def session_create_def tenant_exists_def sample_hosts_def
      user_id_exists_def respond_def digits_def)

theorem exchange_confirm_signs_in_witness:
  "\<not> link_live (hash_token sample_lib ''m'')
      (app_db (snd (exchange_confirm sample_lib sample_config 50 ''new'' confirm_request sample_form sample_app)))"
  using exchange_confirm_signs_in [OF sample_app_ok sample_confirm] by (auto simp: sample_form_def)

text \<open>
  C24: the password login gives a session only on an on-prem deployment, to a caller within
  its limits, for the configured address and the configured password: argon2's verdict where a
  hash is configured, else equality with a password that is not empty.
\<close>

theorem on_prem_login_signs_in:
  assumes ok: "users_ok (app_db s)"
    and signed: "set_session (fst (on_prem_login l g cfg clk token ip email pw s)) = Some tok"
  shows "tok = token \<and> on_prem cfg \<and> fst (check_ip g (mono_now clk) ip (app_limits s))
    \<and> (\<exists>admin_email. on_prem_admin_email cfg = Some admin_email \<and> admin_email \<noteq> []
          \<and> eq_ignore_ascii_case (trim email) admin_email
          \<and> (\<exists>r \<in> set (users (app_db s)). u_email r = to_lowercase l admin_email \<and> u_blocked_at r = None))
    \<and> (case on_prem_admin_password_hash cfg of
         Some phc \<Rightarrow> argon2_verify l pw phc = Some True
       | None \<Rightarrow> on_prem_admin_password cfg = Some pw \<and> pw \<noteq> [])"
proof -
  obtain ok lim where ip: "check_ip g (mono_now clk) ip (app_limits s) = (ok, lim)"
    by (cases "check_ip g (mono_now clk) ip (app_limits s)")
  have guard: "on_prem cfg" "ok"
    using signed by (auto simp: on_prem_login_def ip respond_def Let_def split: if_splits)
  obtain e where e: "on_prem_admin_email cfg = Some e" "e \<noteq> []"
    using signed guard
    by (cases "on_prem_admin_email cfg") (auto simp: on_prem_login_def ip respond_def Let_def split: if_splits)
  have pw: "verify_admin_password l cfg pw = Some True" "eq_ignore_ascii_case (trim email) e"
    using signed guard e
    by (auto simp: on_prem_login_def ip respond_def Let_def split: if_splits option.splits)
  obtain u where u: "find_by_email (to_lowercase l e) (app_db s) = Some u"
    using signed guard e pw
    by (auto simp: on_prem_login_def ip respond_def Let_def split: if_splits option.splits)
  have iss: "set_session (fst (issue_session_cookie l cfg (unix_now clk) token (us_tenant_id u) (us_id u) (app_db s))) = Some tok"
    using signed guard e pw u by (simp add: on_prem_login_def ip Let_def split: prod.splits)
  note sess = issue_session_cookie_session [OF this]
  obtain r where r: "r \<in> set (users (app_db s))" "u_email r = to_lowercase l e" "u = map_user r"
    using u by (auto simp: find_by_email_def fetch_optional_def dest: find_SomeD)
  obtain r' where r': "r' \<in> set (users (app_db s))" "u_id r' = u_id r" "u_blocked_at r' = None"
    using sess r(3) by (auto simp: is_user_def map_user_def)
  have "r' = r" using ok r r' by (auto simp: users_ok_def distinct_map dest: inj_onD)
  with r r' have "\<exists>r \<in> set (users (app_db s)). u_email r = to_lowercase l e \<and> u_blocked_at r = None" by blast
  moreover have "case on_prem_admin_password_hash cfg of
         Some phc \<Rightarrow> argon2_verify l pw phc = Some True
       | None \<Rightarrow> on_prem_admin_password cfg = Some pw \<and> pw \<noteq> []"
    using pw(1) by (auto simp: verify_admin_password_def split: option.splits if_splits)
  ultimately show ?thesis using sess guard e pw ip by simp
qed

definition on_prem_config :: auth_config where
  "on_prem_config = sample_config\<lparr>on_prem := True, on_prem_admin_email := Some ''A@b.c'',
     on_prem_admin_password := Some ''pw''\<rparr>"

lemma sample_login:
  "set_session (fst (on_prem_login sample_lib open_governor on_prem_config \<lparr>unix_now = 50, mono_now = 0\<rparr>
      ''new'' ''ip'' ''a@b.c'' ''pw'' sample_app)) = Some ''new''"
proof -
  have lower: "trim ''a@b.c'' = ''a@b.c''" "ascii_lower CHR ''A'' = CHR ''a''" "ascii_lower CHR ''@'' = CHR ''@''"
    "ascii_lower CHR ''b'' = CHR ''b''" "ascii_lower CHR ''.'' = CHR ''.''" "ascii_lower CHR ''c'' = CHR ''c''"
    "ascii_lower CHR ''a'' = CHR ''a''"
    by code_simp+
  show ?thesis
    by (simp add: on_prem_login_def on_prem_config_def sample_config_def check_ip_def maybe_prune_def
        PRUNE_EVERY_def check_ip_limits_def admit_key_def open_governor_def limits_new_def sample_app_def
        verify_admin_password_def eq_ignore_ascii_case_def lower find_by_email_def sample_lib_def
        signed_in_def sample_auth_def fetch_optional_def issue_session_cookie_def user_get_def is_user_def
        map_user_def is_blocked_def platform_admin_bootstrap_def session_create_def tenant_exists_def
        sample_hosts_def user_id_exists_def respond_def hash_token_def digits_def Let_def)
qed

theorem on_prem_login_signs_in_witness:
  "fst (check_ip open_governor 0 ''ip'' (app_limits sample_app))
   \<and> on_prem_admin_password on_prem_config = Some ''pw''"
  using on_prem_login_signs_in [OF sample_app_ok sample_login] by (simp add: on_prem_config_def sample_config_def)

section \<open>The confirmation page is inert\<close>

text \<open>
  How a browser reads a double-quoted attribute: up to the quote, with the character
  references the page uses resolved.
\<close>

function read_attr :: "str \<Rightarrow> str \<times> str" where
  "read_attr [] = ([], [])"
| "read_attr (c # cs) =
     (if c = CHR 0x22 then ([], c # cs)
      else if starts_with (c # cs) ''&amp;'' then map_prod (Cons (CHR ''&'')) id (read_attr (drop 4 cs))
      else if starts_with (c # cs) ''&lt;'' then map_prod (Cons (CHR ''<'')) id (read_attr (drop 3 cs))
      else if starts_with (c # cs) ''&gt;'' then map_prod (Cons (CHR ''>'')) id (read_attr (drop 3 cs))
      else if starts_with (c # cs) ''&quot;'' then map_prod (Cons (CHR 0x22)) id (read_attr (drop 5 cs))
      else if starts_with (c # cs) ''&#x27;'' then map_prod (Cons (CHR 0x27)) id (read_attr (drop 5 cs))
      else map_prod (Cons c) id (read_attr cs))"
  by pat_completeness auto
termination by (relation "measure length") auto

text \<open>
  Whatever token a link carries, a browser reads the attribute it is put in back as that
  token and finds the closing quote where the page put it: nothing in a token can end the
  attribute or add markup.
\<close>

theorem html_attr_escape_inert:
  "read_attr (html_attr_escape s @ CHR 0x22 # rest) = (s, CHR 0x22 # rest)
   \<and> set (html_attr_escape s) \<inter> {CHR 0x22, CHR ''<'', CHR ''>''} = {}"
proof
  show "read_attr (html_attr_escape s @ CHR 0x22 # rest) = (s, CHR 0x22 # rest)"
    by (induction s) (simp_all add: starts_with_def)
  show "set (html_attr_escape s) \<inter> {CHR 0x22, CHR ''<'', CHR ''>''} = {}"
    by (induction s) simp_all
qed

end
