(* ===== verification/Accounts.thy ===== *)
theory Accounts
  imports Sign_In
begin

text \<open>
  API keys (\<open>crates/server/src/auth/api_keys.rs\<close>) and tenant user management
  (\<open>crates/server/src/admin/users.rs\<close>). A handler returns its status, what it answers with
  and the new database. The random parts of tokens and ids, and whether an invitation's mail
  went out, are arguments; the audit entries the handlers write are not modelled.
\<close>

section \<open>API keys\<close>

definition MAX_NAME_LEN :: nat where "MAX_NAME_LEN = 128"
definition MAX_KEYS_PER_USER :: nat where "MAX_KEYS_PER_USER = 25"
definition MAX_EXPIRY_DAYS :: int where "MAX_EXPIRY_DAYS = 730"

definition key_expiry :: "int \<Rightarrow> int option \<Rightarrow> (int option) option" where
  "key_expiry now days =
     (case days of
        None \<Rightarrow> Some None
      | Some n \<Rightarrow> if 1 \<le> n \<and> n \<le> MAX_EXPIRY_DAYS then Some (Some (now + n * 86400)) else None)"

definition api_key_list :: "authed_user \<Rightarrow> db \<Rightarrow> api_key list" where
  "api_key_list who d = list_for_user (who_tenant who) (who_user who) d"

definition api_key_create ::
  "lib \<Rightarrow> str \<Rightarrow> str \<Rightarrow> int \<Rightarrow> authed_user \<Rightarrow> str \<Rightarrow> int option \<Rightarrow> db \<Rightarrow> int \<times> str option \<times> db" where
  "api_key_create l new_id random now who body_name days d =
     (if via who \<noteq> ViaSession then (403, None, d)
      else
        let name = trim body_name in
        if name = [] \<or> length name > MAX_NAME_LEN then (400, None, d)
        else case key_expiry now days of
            None \<Rightarrow> (400, None, d)
          | Some expires \<Rightarrow>
              if length (list_for_user (who_tenant who) (who_user who) d) \<ge> MAX_KEYS_PER_USER
              then (409, None, d)
              else
                let token = TOKEN_PREFIX @ random in
                case key_create new_id now (who_tenant who) (who_user who) name
                       (hash_token l token) (prefix_of token) expires d of
                  Inl _ \<Rightarrow> (500, None, d)
                | Inr (_, d') \<Rightarrow> (200, Some token, d'))"

definition api_key_delete :: "authed_user \<Rightarrow> str \<Rightarrow> db \<Rightarrow> int \<times> db" where
  "api_key_delete who i d =
     (case key_delete (who_tenant who) (who_user who) i d of
        (True, d') \<Rightarrow> (204, d')
      | (False, d') \<Rightarrow> (404, d'))"

section \<open>Managing a tenant's users\<close>

definition list_users :: "authed_user \<Rightarrow> db \<Rightarrow> int \<times> user list" where
  "list_users who d =
     (if \<not> can_manage_users (who_role who) then (403, []) else (200, user_list (who_tenant who) d))"

text \<open>\<open>sent\<close>: whether the mail went out. A refused insert of the link counts as not sent.\<close>

definition invite ::
  "lib \<Rightarrow> auth_config \<Rightarrow> int \<Rightarrow> str \<Rightarrow> bool \<Rightarrow> authed_user \<Rightarrow> str \<Rightarrow> role \<Rightarrow> db \<Rightarrow> int \<times> db" where
  "invite l cfg now token sent who body_email rl d =
     (if \<not> can_manage_users (who_role who) then (403, d)
      else if on_prem cfg then (404, d)
      else if \<not> is_assignable rl then (400, d)
      else
        let email = to_lowercase l (trim body_email) in
        if email = [] \<or> CHR ''@'' \<notin> set email then (400, d)
        else if find_by_email email d \<noteq> None then (409, d)
        else case user_create now (who_tenant who) email rl d of
            Inl _ \<Rightarrow> (500, d)
          | Inr (u, d1) \<Rightarrow>
              (case issue_link l cfg now token (who_tenant who) (us_id u) d1 of
                 Inl _ \<Rightarrow> (503, committed d1 (user_delete (who_tenant who) (us_id u) d1))
               | Inr d2 \<Rightarrow>
                   if sent then (200, d2)
                   else (503, committed d2 (user_delete (who_tenant who) (us_id u) d2))))"

definition set_role :: "authed_user \<Rightarrow> int \<Rightarrow> role \<Rightarrow> db \<Rightarrow> int \<times> db" where
  "set_role who u rl d =
     (if \<not> can_manage_users (who_role who) then (403, d)
      else if \<not> is_assignable rl then (400, d)
      else if u = who_user who then (400, d)
      else case user_get (who_tenant who) u d of
          None \<Rightarrow> (404, d)
        | Some target \<Rightarrow>
            if us_role target = Owner then (403, d)
            else case user_set_role (who_tenant who) u rl d of
                (True, d') \<Rightarrow> (204, d')
              | (False, d') \<Rightarrow> (404, d'))"

definition delete_user :: "authed_user \<Rightarrow> int \<Rightarrow> db \<Rightarrow> int \<times> db" where
  "delete_user who u d =
     (if \<not> can_manage_users (who_role who) then (403, d)
      else if u = who_user who then (400, d)
      else case user_get (who_tenant who) u d of
          None \<Rightarrow> (404, d)
        | Some target \<Rightarrow>
            if us_role target = Owner then (403, d)
            else case user_delete (who_tenant who) u d of
                Inl _ \<Rightarrow> (500, d)
              | Inr (True, d') \<Rightarrow> (204, d')
              | Inr (False, d') \<Rightarrow> (404, d'))"

section \<open>Keys stay bounded and personal\<close>

definition key_count :: "int \<Rightarrow> int \<Rightarrow> db \<Rightarrow> nat" where
  "key_count t u d = length (filter (\<lambda>k. k_tenant k = t \<and> k_user k = u) (api_keys d))"

lemma length_list_for_user: "length (list_for_user t u d) = key_count t u d"
  by (simp add: list_for_user_def order_desc_def key_count_def)

datatype key_request_op = CreateKey str str int authed_user str "int option" | DeleteKey authed_user str

fun key_op_apply :: "lib \<Rightarrow> key_request_op \<Rightarrow> db \<Rightarrow> db" where
  "key_op_apply l (CreateKey i rnd now who name days) d = snd (snd (api_key_create l i rnd now who name days d))"
| "key_op_apply l (DeleteKey who i) d = snd (api_key_delete who i d)"

fun key_op_caller :: "key_request_op \<Rightarrow> authed_user" where
  "key_op_caller (CreateKey i rnd now who name days) = who"
| "key_op_caller (DeleteKey who i) = who"

lemma api_key_create_keys:
  "api_keys (snd (snd (api_key_create l i rnd now who name days d))) = api_keys d \<or>
   (via who = ViaSession \<and> key_count (who_tenant who) (who_user who) d < MAX_KEYS_PER_USER \<and>
    (\<exists>row. api_keys (snd (snd (api_key_create l i rnd now who name days d))) = api_keys d @ [row]
       \<and> k_tenant row = who_tenant who \<and> k_user row = who_user who))"
  by (auto simp: api_key_create_def Let_def key_create_def length_list_for_user
      split: option.splits if_splits)

lemma api_key_delete_keys:
  "api_keys (snd (api_key_delete who i d)) =
     delete_where (\<lambda>k. k_tenant k = who_tenant who \<and> k_user k = who_user who \<and> k_id k = i) (api_keys d)"
  by (simp add: api_key_delete_def key_delete_def Let_def split: bool.splits)

lemma length_filter_delete: "length (filter q (delete_where p xs)) \<le> length (filter q xs)"
  by (induction xs) (auto simp: delete_where_def)

definition keys_bounded :: "db \<Rightarrow> bool" where
  "keys_bounded d \<longleftrightarrow> (\<forall>t u. key_count t u d \<le> MAX_KEYS_PER_USER)"

lemma keys_bounded_step: "keys_bounded d \<Longrightarrow> keys_bounded (key_op_apply l op d)"
proof (cases op)
  case (CreateKey i rnd now who name days)
  assume b: "keys_bounded d"
  show ?thesis
    using api_key_create_keys [of l i rnd now who name days d] b
    by (auto simp: CreateKey keys_bounded_def key_count_def less_eq_Suc_le)
next
  case (DeleteKey who i)
  assume b: "keys_bounded d"
  have "key_count t u (key_op_apply l op d) \<le> key_count t u d" for t u
    unfolding DeleteKey key_count_def key_op_apply.simps api_key_delete_keys by (rule length_filter_delete)
  with b show ?thesis by (meson keys_bounded_def order_trans)
qed

interpretation key_store: invariant_ops keys_bounded "key_op_apply l"
  by unfold_locales (rule keys_bounded_step)

lemma key_op_frame:
  assumes "who_tenant (key_op_caller op) = t \<longrightarrow> who_user (key_op_caller op) \<noteq> u"
  shows "filter (\<lambda>k. k_tenant k = t \<and> k_user k = u) (api_keys (key_op_apply l op d))
       = filter (\<lambda>k. k_tenant k = t \<and> k_user k = u) (api_keys d)"
proof (cases op)
  case (CreateKey i rnd now who name days)
  with assms api_key_create_keys [of l i rnd now who name days d] show ?thesis by auto
next
  case (DeleteKey who i)
  with assms show ?thesis
    by (simp add: api_key_delete_keys) (rule filter_delete_where, auto)
qed

lemma key_run_frame:
  "list_all (\<lambda>op. \<not> (who_tenant (key_op_caller op) = t \<and> who_user (key_op_caller op) = u)) ops \<Longrightarrow>
   filter (\<lambda>k. k_tenant k = t \<and> k_user k = u) (api_keys (fold (key_op_apply l) ops d))
     = filter (\<lambda>k. k_tenant k = t \<and> k_user k = u) (api_keys d)"
  by (induction ops arbitrary: d) (auto simp: key_op_frame)


definition admin_caller :: authed_user where
  "admin_caller = \<lparr>via = ViaSession, who_user = 7, who_tenant = 1, who_role = Admin, who_platform_admin = False\<rparr>"


section \<open>Owners stay\<close>

datatype manage_op =
    Invite int str bool authed_user str role
  | SetRole authed_user int role
  | DeleteUser authed_user int

fun manage_apply :: "lib \<Rightarrow> auth_config \<Rightarrow> manage_op \<Rightarrow> db \<Rightarrow> db" where
  "manage_apply l cfg (Invite now token sent who email rl) d = snd (invite l cfg now token sent who email rl d)"
| "manage_apply l cfg (SetRole who u rl) d = snd (set_role who u rl d)"
| "manage_apply l cfg (DeleteUser who u) d = snd (delete_user who u d)"

fun manage_caller :: "manage_op \<Rightarrow> authed_user" where
  "manage_caller (Invite now token sent who email rl) = who"
| "manage_caller (SetRole who u rl) = who"
| "manage_caller (DeleteUser who u) = who"

text \<open>
  What the three handlers do to the users: nothing, a new one with an assignable role, a new
  role for one who is not an owner nor the caller, or the removal of such a one.
\<close>

definition touchable :: "authed_user \<Rightarrow> db \<Rightarrow> int \<Rightarrow> bool" where
  "touchable who d u \<longleftrightarrow> u \<noteq> who_user who
     \<and> (\<exists>r \<in> set (users d). is_user (who_tenant who) u r \<and> u_role r \<noteq> ''owner'')"

lemma committed_user_delete:
  "users (committed d (user_delete t u d)) \<in> {users d, delete_where (is_user t u) (users d)}"
  by (auto simp: committed_def user_delete_def Let_def)

lemma not_owner: "us_role (map_user r) \<noteq> Owner \<longleftrightarrow> u_role r \<noteq> ''owner''"
  by (simp add: map_user_def role_from_db_def)

lemma user_get_not_owner:
  "user_get t u d = Some usr \<Longrightarrow> us_role usr \<noteq> Owner \<Longrightarrow>
   \<exists>r \<in> set (users d). is_user t u r \<and> u_role r \<noteq> ''owner''"
  using user_get_Some not_owner by blast

lemma set_role_users:
  "users (snd (set_role who u rl d)) = users d \<or>
   (touchable who d u \<and> rl \<noteq> Owner \<and>
    users (snd (set_role who u rl d)) = update_where (is_user (who_tenant who) u) (\<lambda>r. r\<lparr>u_role := role_as_db rl\<rparr>) (users d))"
  by (auto simp: set_role_def user_set_role_def touchable_def is_assignable_def ASSIGNABLE_def
      dest: user_get_not_owner split: option.splits bool.splits)

lemma delete_user_users:
  "users (snd (delete_user who u d)) = users d \<or>
   (touchable who d u \<and> users (snd (delete_user who u d)) = delete_where (is_user (who_tenant who) u) (users d))"
  by (auto simp: delete_user_def user_delete_def touchable_def Let_def
      dest: user_get_not_owner split: option.splits bool.splits sum.splits if_splits)

lemma invite_users:
  "users (snd (invite l cfg now token sent who email rl d)) = users d \<or>
   (\<exists>r. u_id r \<notin> u_id ` set (users d) \<and> u_role r \<noteq> ''owner'' \<and>
      users (snd (invite l cfg now token sent who email rl d)) \<in> {users d @ [r], delete_where (is_user (who_tenant who) (u_id r)) (users d @ [r])})"
proof -
  let ?e = "to_lowercase l (trim email)"
  show ?thesis
  proof (cases "user_create now (who_tenant who) ?e rl d")
    case (Inl a)
    then show ?thesis by (simp add: invite_def Let_def)
  next
    case user: (Inr p)
    obtain u d1 where p: "p = (u, d1)" by (cases p)
    define r where "r = \<lparr>u_id = next_rowid (map u_id (users d)), u_tenant = who_tenant who, u_email = ?e,
            u_role = role_as_db rl, u_created_at = now, u_is_platform_admin = 0, u_blocked_at = None\<rparr>"
    have d1: "users d1 = users d @ [r]" "us_id u = u_id r"
      using user p by (auto simp: user_create_def Let_def r_def map_user_def split: if_splits)
    have fresh: "u_id r \<notin> u_id ` set (users d)" by (simp add: r_def next_user_fresh)
    have role: "u_role r \<noteq> ''owner''" if "is_assignable rl"
      using that by (cases rl) (simp_all add: r_def is_assignable_def ASSIGNABLE_def)
    have link: "users d2 = users d1" if "issue_link l cfg now token (who_tenant who) (us_id u) d1 = Inr d2" for d2
      using that by (auto simp: issue_link_def magic_create_def split: if_splits)
    have committed_back: "users (committed d2 (user_delete (who_tenant who) (us_id u) d2)) = users d1 \<or>
        users (committed d2 (user_delete (who_tenant who) (us_id u) d2)) = delete_where (is_user (who_tenant who) (us_id u)) (users d1)"
      if "users d2 = users d1" for d2 :: db
      using committed_user_delete [where d = d2 and t = "who_tenant who" and u = "us_id u"] that by simp
    have "users (snd (invite l cfg now token sent who email rl d)) \<in>
        {users d, users d1, delete_where (is_user (who_tenant who) (us_id u)) (users d1)}"
    proof (cases "issue_link l cfg now token (who_tenant who) (us_id u) d1")
      case (Inl e)
      with committed_back [OF refl] show ?thesis by (simp add: invite_def Let_def user p)
    next
      case (Inr d2)
      with committed_back [OF link [OF Inr]] link [OF Inr] show ?thesis
        by (simp add: invite_def Let_def user p)
    qed
    then have mem: "users (snd (invite l cfg now token sent who email rl d)) = users d \<or>
        users (snd (invite l cfg now token sent who email rl d)) \<in>
          {users d @ [r], delete_where (is_user (who_tenant who) (u_id r)) (users d @ [r])}"
      unfolding d1 by blast
    show ?thesis
    proof (cases "is_assignable rl")
      case True
      with mem fresh role show ?thesis by blast
    qed (simp add: invite_def)
  qed
qed

text \<open>A filter that touchable users and new ones do not pass is left as it was.\<close>

lemma manage_frame:
  assumes ok: "users_ok d"
    and new: "\<And>r. u_id r \<notin> u_id ` set (users d) \<Longrightarrow> u_role r \<noteq> ''owner'' \<Longrightarrow> \<not> q r"
    and old: "\<And>r. r \<in> set (users d) \<Longrightarrow> u_id r \<noteq> who_user (manage_caller op) \<Longrightarrow> u_role r \<noteq> ''owner'' \<Longrightarrow> \<not> q r"
    and changed: "\<And>r rl. r \<in> set (users d) \<Longrightarrow> rl \<noteq> Owner \<Longrightarrow> u_id r \<noteq> who_user (manage_caller op) \<Longrightarrow>
        u_role r \<noteq> ''owner'' \<Longrightarrow> \<not> q (r\<lparr>u_role := role_as_db rl\<rparr>)"
  shows "filter q (users (manage_apply l cfg op d)) = filter q (users d)"
proof -
  have only: "u_role r \<noteq> ''owner''" if t: "touchable who d u" and r: "r \<in> set (users d)" "u_id r = u" for r u who
  proof -
    obtain r' where r': "r' \<in> set (users d)" "u_id r' = u" "u_role r' \<noteq> ''owner''"
      using t by (auto simp: touchable_def is_user_def)
    have "inj_on u_id (set (users d))" using ok by (simp add: users_ok_def distinct_map)
    then have "r = r'" using r r' by (metis inj_onD)
    with r' show ?thesis by simp
  qed
  show ?thesis
  proof (cases op)
    case (Invite now token sent who email rl)
    from invite_users [of l cfg now token sent who email rl d] show ?thesis
    proof (elim disjE exE conjE)
      fix r assume r: "u_id r \<notin> u_id ` set (users d)" "u_role r \<noteq> ''owner''"
        "users (snd (invite l cfg now token sent who email rl d))
           \<in> {users d @ [r], delete_where (is_user (who_tenant who) (u_id r)) (users d @ [r])}"
      have "delete_where (is_user (who_tenant who) (u_id r)) (users d @ [r]) \<in> {users d, users d @ [r]}"
      proof -
        have "delete_where (is_user (who_tenant who) (u_id r)) (users d) = users d"
          by (rule delete_where_none) (use r(1) in \<open>metis image_eqI is_user_def\<close>)
        then show ?thesis by (simp add: delete_where_def)
      qed
      with r new [of r] show ?thesis by (auto simp: Invite)
    qed (simp add: Invite)
  next
    case (SetRole who u rl)
    from set_role_users [of who u rl d] show ?thesis
    proof (elim disjE conjE)
      assume a: "touchable who d u" "rl \<noteq> Owner"
        "users (snd (set_role who u rl d)) = update_where (is_user (who_tenant who) u) (\<lambda>r. r\<lparr>u_role := role_as_db rl\<rparr>) (users d)"
      then have "u \<noteq> who_user (manage_caller op)" by (simp add: SetRole touchable_def)
      then show ?thesis using a only [OF a(1)] old changed
        by (simp add: SetRole) (rule filter_update_where, auto simp: is_user_def)
    qed (simp add: SetRole)
  next
    case (DeleteUser who u)
    from delete_user_users [of who u d] show ?thesis
    proof (elim disjE conjE)
      assume a: "touchable who d u"
        "users (snd (delete_user who u d)) = delete_where (is_user (who_tenant who) u) (users d)"
      then have "u \<noteq> who_user (manage_caller op)" by (simp add: DeleteUser touchable_def)
      then show ?thesis using a only [OF a(1)] old
        by (simp add: DeleteUser) (rule filter_delete_where, auto simp: is_user_def)
    qed (simp add: DeleteUser)
  qed
qed


lemma manage_apply_ok: "users_ok d \<Longrightarrow> users_ok (manage_apply l cfg op d)"
proof -
  assume ok: "users_ok d"
  have del: "users_ok (committed d' (user_delete t u d'))" if "users_ok d'" for t u d'
    using auth_apply_ok [OF that, of "UDelete t u"] by simp
  show ?thesis
  proof (cases op)
    case (Invite now token sent who email rl)
    let ?e = "to_lowercase l (trim email)"
    show ?thesis
    proof (cases "user_create now (who_tenant who) ?e rl d")
      case (Inr p)
      obtain u d1 where p: "p = (u, d1)" by (cases p)
      have d1: "users_ok d1"
        using auth_apply_ok [OF ok, of "UCreate now (who_tenant who) ?e rl"] Inr p by (simp add: committed_def)
      have link: "users_ok d2" if "issue_link l cfg now token (who_tenant who) (us_id u) d1 = Inr d2" for d2
        using auth_apply_ok [OF d1, of "MCreate now (hash_token l token) (who_tenant who) (us_id u) (now + magic_link_ttl_secs cfg)"] that
        by (simp add: attempted_def issue_link_def)
      show ?thesis using ok d1 link del [OF d1] del [OF link]
        by (simp add: Invite invite_def Let_def Inr p split: sum.splits)
    qed (use ok in \<open>simp add: Invite invite_def Let_def\<close>)
  next
    case (SetRole who u rl)
    show ?thesis using ok auth_apply_ok [OF ok, of "URole (who_tenant who) u rl"]
      by (auto simp: SetRole set_role_def split: option.splits prod.splits bool.splits)
  next
    case (DeleteUser who u)
    show ?thesis using ok del [OF ok, of "who_tenant who" u]
      by (auto simp: DeleteUser delete_user_def committed_def split: option.splits prod.splits bool.splits sum.splits)
  qed
qed

interpretation user_admin: invariant_ops users_ok "manage_apply l cfg"
  by unfold_locales (rule manage_apply_ok)

lemma owners_step:
  "users_ok d \<Longrightarrow> filter (\<lambda>r. u_role r = ''owner'') (users (manage_apply l cfg op d))
     = filter (\<lambda>r. u_role r = ''owner'') (users d)"
proof (rule manage_frame)
  show "rl \<noteq> Owner \<Longrightarrow> u_role (r\<lparr>u_role := role_as_db rl\<rparr>) \<noteq> ''owner''" for rl r by (cases rl) auto
qed auto

lemma caller_step:
  "users_ok d \<Longrightarrow> who_user (manage_caller op) = w \<Longrightarrow> w \<in> u_id ` set (users d) \<Longrightarrow>
   filter (\<lambda>r. u_id r = w) (users (manage_apply l cfg op d)) = filter (\<lambda>r. u_id r = w) (users d)"
  by (rule manage_frame) auto

lemma caller_kept: "filter (\<lambda>r. u_id r = w) xs = filter (\<lambda>r. u_id r = w) ys \<Longrightarrow> w \<in> u_id ` set ys \<Longrightarrow> w \<in> u_id ` set xs"
proof -
  assume eq: "filter (\<lambda>r. u_id r = w) xs = filter (\<lambda>r. u_id r = w) ys" and "w \<in> u_id ` set ys"
  then obtain r where "r \<in> set (filter (\<lambda>r. u_id r = w) ys)" by auto
  then have "r \<in> set (filter (\<lambda>r. u_id r = w) xs)" using eq by simp
  then show "w \<in> u_id ` set xs" by auto
qed

lemma owners_run:
  "users_ok d \<Longrightarrow> filter (\<lambda>r. u_role r = ''owner'') (users (fold (manage_apply l cfg) ops d))
     = filter (\<lambda>r. u_role r = ''owner'') (users d)"
  by (induction ops arbitrary: d) (simp_all add: owners_step manage_apply_ok)

lemma caller_run:
  "users_ok d \<Longrightarrow> list_all (\<lambda>op. who_user (manage_caller op) = w) ops \<Longrightarrow> w \<in> u_id ` set (users d) \<Longrightarrow>
   filter (\<lambda>r. u_id r = w) (users (fold (manage_apply l cfg) ops d)) = filter (\<lambda>r. u_id r = w) (users d)"
proof (induction ops arbitrary: d)
  case (Cons op ops)
  have step: "filter (\<lambda>r. u_id r = w) (users (manage_apply l cfg op d)) = filter (\<lambda>r. u_id r = w) (users d)"
    using Cons.prems by (intro caller_step) simp_all
  have "filter (\<lambda>r. u_id r = w) (users (fold (manage_apply l cfg) ops (manage_apply l cfg op d)))
      = filter (\<lambda>r. u_id r = w) (users (manage_apply l cfg op d))"
    using Cons.prems caller_kept [OF step] by (intro Cons.IH) (simp_all add: manage_apply_ok)
  with step show ?case by simp
qed simp

text \<open>
  C28: managing users cannot lock a tenant out of itself: whatever invitations, role changes
  and removals follow each other, successful or failing, by whichever callers, the owners are
  exactly the rows they were, and a caller whose requests these are keeps their own row.
\<close>

theorem owners_and_callers_stay:
  assumes "users_ok d"
  shows "filter (\<lambda>r. u_role r = ''owner'') (users (fold (manage_apply l cfg) ops d))
           = filter (\<lambda>r. u_role r = ''owner'') (users d)
    \<and> (list_all (\<lambda>op. who_user (manage_caller op) = w) ops \<longrightarrow> w \<in> u_id ` set (users d) \<longrightarrow>
       filter (\<lambda>r. u_id r = w) (users (fold (manage_apply l cfg) ops d)) = filter (\<lambda>r. u_id r = w) (users d))"
  using assms owners_run caller_run by blast

definition three_users :: db where
  "three_users = two_users\<lparr>users := users two_users @
     [\<lparr>u_id = 9, u_tenant = 1, u_email = ''c@b.c'', u_role = ''add_hosts'', u_created_at = 0,
       u_is_platform_admin = 0, u_blocked_at = None\<rparr>]\<rparr>"

theorem owners_and_callers_stay_witness:
  "fst (set_role admin_caller 9 ViewOnly three_users) = 204
   \<and> filter (\<lambda>r. u_id r = 7) (users (fold (manage_apply sample_lib sample_config)
        [SetRole admin_caller 9 ViewOnly, DeleteUser admin_caller 8] three_users)) = filter (\<lambda>r. u_id r = 7) (users three_users)"
proof -
  have "users_ok three_users"
    by (simp add: users_ok_def three_users_def two_users_def signed_in_def sample_auth_def)
  note owners_and_callers_stay [OF this, of sample_lib sample_config "[SetRole admin_caller 9 ViewOnly, DeleteUser admin_caller 8]" 7]
  moreover have "list_all (\<lambda>op. who_user (manage_caller op) = 7) [SetRole admin_caller 9 ViewOnly, DeleteUser admin_caller 8]"
    by (simp add: admin_caller_def)
  moreover have "7 \<in> u_id ` set (users three_users)"
    by (simp add: three_users_def two_users_def signed_in_def sample_auth_def)
  moreover have "fst (set_role admin_caller 9 ViewOnly three_users) = 204"
    by (simp add: set_role_def admin_caller_def can_manage_users_def is_assignable_def ASSIGNABLE_def user_get_def
        three_users_def two_users_def signed_in_def sample_auth_def fetch_optional_def is_user_def map_user_def
        role_from_db_def user_set_role_def affected_def)
  ultimately show ?thesis by blast
qed

end
