(* ===== verification/Tier.thy ===== *)
theory Tier
  imports Json "HOL-Library.Word"
begin

text \<open>
  \<open>crates/core/src/tier.rs\<close>: the limits of the named tiers and their per-tenant
  overrides. Limits are \<open>u32\<close>. What \<open>serde_json\<close> reads from the override text before it
  fills the struct (an object's members in text order, or an array's elements) is a
  parameter; filling the struct, with its refusal of unknown and repeated fields, is modelled.
\<close>

record tier_limits =
  tier_name :: str
  max_hosts :: "32 word"
  min_poll_interval_secs :: "32 word"
  per_host_requests_per_minute :: "32 word"
  max_bundle_mb :: "32 word"
  max_bundles :: "32 word"

record tier_overrides =
  ov_max_hosts :: "32 word option"
  ov_min_poll_interval_secs :: "32 word option"
  ov_per_host_requests_per_minute :: "32 word option"
  ov_max_bundle_mb :: "32 word option"
  ov_max_bundles :: "32 word option"

definition FREE :: tier_limits where
  "FREE = \<lparr>tier_name = ''free'', max_hosts = 5, min_poll_interval_secs = 60,
     per_host_requests_per_minute = 10, max_bundle_mb = 10, max_bundles = 50\<rparr>"

definition STARTER :: tier_limits where
  "STARTER = \<lparr>tier_name = ''starter'', max_hosts = 50, min_poll_interval_secs = 30,
     per_host_requests_per_minute = 30, max_bundle_mb = 50, max_bundles = 200\<rparr>"

definition PRO :: tier_limits where
  "PRO = \<lparr>tier_name = ''pro'', max_hosts = 500, min_poll_interval_secs = 30,
     per_host_requests_per_minute = 60, max_bundle_mb = 100, max_bundles = 500\<rparr>"

definition ENTERPRISE :: tier_limits where
  "ENTERPRISE = \<lparr>tier_name = ''enterprise'', max_hosts = 5000, min_poll_interval_secs = 15,
     per_host_requests_per_minute = 120, max_bundle_mb = 250, max_bundles = 2000\<rparr>"

definition ONPREM :: tier_limits where
  "ONPREM = \<lparr>tier_name = ''onprem'', max_hosts = - 1, min_poll_interval_secs = 15,
     per_host_requests_per_minute = 120, max_bundle_mb = 250, max_bundles = - 1\<rparr>"

definition ALL_TIERS :: "tier_limits list" where
  "ALL_TIERS = [FREE, STARTER, PRO, ENTERPRISE, ONPREM]"

definition lookup_tier :: "str \<Rightarrow> tier_limits option" where
  "lookup_tier n = find (\<lambda>t. tier_name t = n) ALL_TIERS"

definition lookup_or_free :: "str \<Rightarrow> tier_limits" where
  "lookup_or_free n = (case lookup_tier n of Some t \<Rightarrow> t | None \<Rightarrow> FREE)"

definition MAX_BUNDLE_MB_ANY_TIER :: "32 word" where
  "MAX_BUNDLE_MB_ANY_TIER = 250"

definition unwrap_or :: "'a option \<Rightarrow> 'a \<Rightarrow> 'a" where
  "unwrap_or x y = (case x of Some v \<Rightarrow> v | None \<Rightarrow> y)"

definition apply_to :: "tier_overrides \<Rightarrow> tier_limits \<Rightarrow> tier_limits" where
  "apply_to ov base =
     \<lparr>tier_name = tier_name base,
      max_hosts = unwrap_or (ov_max_hosts ov) (max_hosts base),
      min_poll_interval_secs = unwrap_or (ov_min_poll_interval_secs ov) (min_poll_interval_secs base),
      per_host_requests_per_minute =
        unwrap_or (ov_per_host_requests_per_minute ov) (per_host_requests_per_minute base),
      max_bundle_mb = unwrap_or (ov_max_bundle_mb ov) (max_bundle_mb base),
      max_bundles = unwrap_or (ov_max_bundles ov) (max_bundles base)\<rparr>"

section \<open>Reading an override\<close>

datatype raw_overrides = RawObject "(str \<times> json) list" | RawArray "json list" | RawOther

text \<open>\<open>Option<u32>\<close>: null is none, an integer in range is itself, anything else an error.\<close>

fun opt_u32 :: "json \<Rightarrow> (32 word option) option" where
  "opt_u32 JNull = Some None"
| "opt_u32 (JNum (NInt i)) = (if 0 \<le> i \<and> i < 2 ^ 32 then Some (Some (word_of_int i)) else None)"
| "opt_u32 _ = None"

definition override_fields :: "str list" where
  "override_fields = [''max_hosts'', ''min_poll_interval_secs'', ''per_host_requests_per_minute'',
     ''max_bundle_mb'', ''max_bundles'']"

definition overrides_of :: "(str \<Rightarrow> 32 word option) \<Rightarrow> tier_overrides" where
  "overrides_of f = \<lparr>ov_max_hosts = f ''max_hosts'',
     ov_min_poll_interval_secs = f ''min_poll_interval_secs'',
     ov_per_host_requests_per_minute = f ''per_host_requests_per_minute'',
     ov_max_bundle_mb = f ''max_bundle_mb'', ov_max_bundles = f ''max_bundles''\<rparr>"

fun read_fields :: "(str \<times> json) list \<Rightarrow> (str \<rightharpoonup> 32 word option) \<Rightarrow> (str \<rightharpoonup> 32 word option) option" where
  "read_fields [] seen = Some seen"
| "read_fields ((k, v) # m) seen =
     (if k \<notin> set override_fields \<or> seen k \<noteq> None then None
      else case opt_u32 v of None \<Rightarrow> None | Some x \<Rightarrow> read_fields m (seen(k \<mapsto> x)))"

fun read_elements :: "json list \<Rightarrow> str list \<Rightarrow> (str \<Rightarrow> 32 word option) \<Rightarrow> (str \<Rightarrow> 32 word option) option" where
  "read_elements [] ks acc = (if ks = [] \<or> ks = [''max_bundles''] then Some acc else None)"
| "read_elements (v # vs) [] acc = None"
| "read_elements (v # vs) (k # ks) acc =
     (case opt_u32 v of None \<Rightarrow> None | Some x \<Rightarrow> read_elements vs ks (acc(k := x)))"

fun overrides_from_raw :: "raw_overrides \<Rightarrow> tier_overrides option" where
  "overrides_from_raw (RawObject m) =
     map_option (\<lambda>seen. overrides_of (\<lambda>k. case seen k of Some x \<Rightarrow> x | None \<Rightarrow> None))
       (read_fields m Map.empty)"
| "overrides_from_raw (RawArray vs) = map_option overrides_of (read_elements vs override_fields (\<lambda>k. None))"
| "overrides_from_raw RawOther = None"

definition overrides_from_json :: "(str \<Rightarrow> raw_overrides option) \<Rightarrow> str \<Rightarrow> tier_overrides option" where
  "overrides_from_json raw s = Option.bind (raw s) overrides_from_raw"

definition effective :: "(str \<Rightarrow> raw_overrides option) \<Rightarrow> str \<Rightarrow> str option \<Rightarrow> tier_limits" where
  "effective raw n overrides_json =
     (let base = lookup_or_free n in
      case overrides_json of
        None \<Rightarrow> base
      | Some s \<Rightarrow>
          (case overrides_from_json raw s of
             Some ov \<Rightarrow> apply_to ov base
           | None \<Rightarrow> base))"

section \<open>What a tenant is granted\<close>

lemma lookup_or_free_cases: "lookup_or_free n \<in> set ALL_TIERS"
  by (auto simp: lookup_or_free_def lookup_tier_def ALL_TIERS_def find_Some_iff split: option.splits)

lemma read_fields_unknown: "fst ` set m - set override_fields \<noteq> {} \<Longrightarrow> read_fields m seen = None"
  by (induction m seen rule: read_fields.induct) (auto split: option.splits)

text \<open>
  An override that cannot be read grants nothing: text that is not JSON, a member that is
  no limit, a limit that is not a number of the type, or a limit given twice, leaves every
  limit of the named tier as it is, and an unknown tier is the free one. An override never
  renames a tier.
\<close>

theorem bad_override_grants_nothing:
  "(raw s = None \<longrightarrow> effective raw n (Some s) = lookup_or_free n)
   \<and> (raw s = Some (RawObject m) \<longrightarrow> k \<in> fst ` set m \<longrightarrow> k \<notin> set override_fields \<longrightarrow>
        effective raw n (Some s) = lookup_or_free n)
   \<and> (raw s = Some (RawObject (m1 @ (k, v) # m2)) \<longrightarrow> opt_u32 v = None \<longrightarrow>
        effective raw n (Some s) = lookup_or_free n)
   \<and> tier_name (effective raw n ov) = tier_name (lookup_or_free n)
   \<and> lookup_or_free n \<in> set ALL_TIERS
   \<and> (n \<notin> tier_name ` set ALL_TIERS \<longrightarrow> lookup_or_free n = FREE)"
proof -
  have bad: "read_fields (m1 @ (k, v) # m2) seen = None" if "opt_u32 v = None" for seen
    using that by (induction m1 seen rule: read_fields.induct) (auto split: option.splits)
  have free: "lookup_or_free n = FREE" if "n \<notin> tier_name ` set ALL_TIERS"
  proof -
    have "lookup_tier n = None" unfolding lookup_tier_def find_None_iff using that by blast
    then show ?thesis by (simp add: lookup_or_free_def)
  qed
  have unknown: "read_fields m Map.empty = None" if "k \<in> fst ` set m" "k \<notin> set override_fields"
    using that by (intro read_fields_unknown) blast
  show ?thesis
    using bad unknown free lookup_or_free_cases
    by (auto simp: effective_def overrides_from_json_def Let_def apply_to_def split: option.splits)
qed

text \<open>An override with a misspelt member beside a generous one.\<close>

theorem bad_override_grants_nothing_witness:
  "effective (\<lambda>s. Some (RawObject [(''max_hosts'', JNum (NInt 900)), (''max_bundle'', JNum (NInt 250))])) ''pro'' (Some ''x'') = PRO
   \<and> effective (\<lambda>s. Some (RawObject [(''max_hosts'', JNum (NInt 900))])) ''gold'' None = FREE"
proof -
  have "effective (\<lambda>s. Some (RawObject [(''max_hosts'', JNum (NInt 900)), (''max_bundle'', JNum (NInt 250))])) ''pro'' (Some ''x'')
      = lookup_or_free ''pro''"
    using bad_override_grants_nothing [where raw = "\<lambda>s. Some (RawObject [(''max_hosts'', JNum (NInt 900)), (''max_bundle'', JNum (NInt 250))])"
        and s = "''x''" and m = "[(''max_hosts'', JNum (NInt 900)), (''max_bundle'', JNum (NInt 250))]" and k = "''max_bundle''"
        and n = "''pro''"] by (simp add: override_fields_def)
  moreover have "lookup_or_free ''pro'' = PRO" "lookup_or_free ''gold'' = FREE"
    by (simp_all add: lookup_or_free_def lookup_tier_def ALL_TIERS_def FREE_def STARTER_def PRO_def ENTERPRISE_def ONPREM_def)
  ultimately show ?thesis by (simp add: effective_def)
qed

end
