(* ===== verification/Crypto.thy ===== *)
theory Crypto
  imports Prelude
begin

text \<open>
  \<open>crates/core/src/crypto\<close>: what the ciphers and signatures are fed. \<open>aead.rs\<close>
  (encryption at rest, bound to a purpose), \<open>bundlesig.rs\<close> (the bytes a bundle's
  signature covers) and \<open>encbundle.rs\<close> (the encrypted bundle envelope). The ciphers, the
  hash and the key derivation are parameters; nonces are arguments.
\<close>

section \<open>Fields ended by a separator\<close>

definition NUL :: char where "NUL = CHR 0x00"

definition nul_free :: "str \<Rightarrow> bool" where
  "nul_free s \<longleftrightarrow> NUL \<notin> set s"

fun nul_fields :: "str list \<Rightarrow> bytes" where
  "nul_fields [] = []"
| "nul_fields (f # fs) = NUL # f @ nul_fields fs"

lemma nul_split:
  "nul_free f \<Longrightarrow> nul_free g \<Longrightarrow> f @ xs = g @ ys \<Longrightarrow> xs = [] \<or> hd xs = NUL \<Longrightarrow> ys = [] \<or> hd ys = NUL \<Longrightarrow>
   f = g \<and> xs = ys"
proof (induction f arbitrary: g)
  case Nil
  then show ?case by (cases g) (auto simp: nul_free_def)
next
  case (Cons c f)
  then show ?case by (cases g) (auto simp: nul_free_def)
qed

lemma nul_fields_hd: "nul_fields fs = [] \<or> hd (nul_fields fs) = NUL"
  by (cases fs) simp_all

lemma nul_fields_inj:
  "list_all nul_free fs \<Longrightarrow> list_all nul_free gs \<Longrightarrow> nul_fields fs = nul_fields gs \<Longrightarrow> fs = gs"
proof (induction fs arbitrary: gs)
  case Nil
  then show ?case by (cases gs) simp_all
next
  case (Cons f fs)
  then obtain g gs' where gs: "gs = g # gs'" by (cases gs) simp_all
  with Cons.prems have "f = g \<and> nul_fields fs = nul_fields gs'"
    by (intro nul_split) (simp_all add: nul_fields_hd)
  with Cons gs show ?case by simp
qed

lemma show_int_nul_free [simp]: "nul_free (show_int i)"
proof -
  have "c \<noteq> NUL" if "c \<in> set (show_int i)" for c
    using show_int_chars [OF that] by (auto simp: is_digit_def NUL_def)
  then show ?thesis by (auto simp: nul_free_def)
qed

lemma nul_free_lit: "nul_free [] \<and> (nul_free (c # s) \<longleftrightarrow> c \<noteq> CHR 0x00 \<and> nul_free s)"
  by (auto simp: nul_free_def NUL_def)

section \<open>Encryption at rest\<close>

datatype aead_error = Truncated | Decrypt

datatype purpose =
    TenantCaKey int
  | TenantBundleSigningKey int
  | HostOverride int str

definition AAD_PREFIX :: str where "AAD_PREFIX = ''nsclient-fleet/aead/v1''"

fun purpose_fields :: "purpose \<Rightarrow> str list" where
  "purpose_fields (TenantCaKey t) = [''tenant_ca_key'', show_int t]"
| "purpose_fields (TenantBundleSigningKey t) = [''tenant_bundle_signing_key'', show_int t]"
| "purpose_fields (HostOverride t h) = [''host_override'', show_int t, h]"

definition aad :: "purpose \<Rightarrow> bytes" where
  "aad p = AAD_PREFIX @ nul_fields (purpose_fields p)"

text \<open>
  The cipher under one key: sealing takes nonce, associated data and plaintext, and opening
  undoes it for the same nonce and associated data.
\<close>

record cipher =
  seal :: "bytes \<Rightarrow> bytes \<Rightarrow> bytes \<Rightarrow> bytes"
  unseal :: "bytes \<Rightarrow> bytes \<Rightarrow> bytes \<Rightarrow> bytes option"

definition encrypt_at_rest :: "cipher \<Rightarrow> bytes \<Rightarrow> purpose \<Rightarrow> bytes \<Rightarrow> bytes" where
  "encrypt_at_rest c nonce p plaintext = nonce @ seal c nonce (aad p) plaintext"

definition open_at_rest :: "cipher \<Rightarrow> bytes \<Rightarrow> bytes \<Rightarrow> aead_error + bytes" where
  "open_at_rest c blob ad =
     (if length blob < 12 + 16 then Inl Truncated
      else case unseal c (take 12 blob) ad (drop 12 blob) of
          None \<Rightarrow> Inl Decrypt
        | Some pt \<Rightarrow> Inr pt)"

definition decrypt_at_rest :: "cipher \<Rightarrow> purpose \<Rightarrow> bytes \<Rightarrow> aead_error + bytes" where
  "decrypt_at_rest c p blob = open_at_rest c blob (aad p)"

definition decrypt_unbound :: "cipher \<Rightarrow> bytes \<Rightarrow> aead_error + bytes" where
  "decrypt_unbound c blob = open_at_rest c blob []"

text \<open>
  What an AEAD promises for the associated data in use: the tag is 16 bytes, opening what was
  sealed gives the plaintext back, and what was sealed under other associated data does not
  open. The last cannot hold for all byte strings at once, tags being 16 bytes, so the set of
  those in use is named.
\<close>

definition aead_laws :: "cipher \<Rightarrow> bytes set \<Rightarrow> bool" where
  "aead_laws c A \<longleftrightarrow>
     (\<forall>n a m. length (seal c n a m) = length m + 16 \<and> unseal c n a (seal c n a m) = Some m)
     \<and> (\<forall>n m. \<forall>a \<in> A. \<forall>a' \<in> A. a \<noteq> a' \<longrightarrow> unseal c n a' (seal c n a m) = None)"

text \<open>A cipher in the clear whose tag marks one associated data among all others.\<close>

definition marking_cipher :: "bytes \<Rightarrow> cipher" where
  "marking_cipher x =
     (let tag = (\<lambda>a. replicate 16 (if a = x then CHR ''y'' else CHR ''n'')) in
      \<lparr>seal = (\<lambda>n a m. m @ tag a),
       unseal = (\<lambda>n a ct. if drop (length ct - 16) ct = tag a then Some (take (length ct - 16) ct) else None)\<rparr>)"

lemma marking_cipher_laws: "aead_laws (marking_cipher x) {x, y}"
  by (auto simp: aead_laws_def marking_cipher_def Let_def)

fun purpose_ok :: "purpose \<Rightarrow> bool" where
  "purpose_ok (HostOverride t h) = nul_free h"
| "purpose_ok _ = True"

lemma purpose_fields_inj: "purpose_fields p = purpose_fields q \<Longrightarrow> p = q"
  by (cases p; cases q) (auto dest: show_int_inj)

lemma aad_inj: "purpose_ok p \<Longrightarrow> purpose_ok q \<Longrightarrow> aad p = aad q \<longleftrightarrow> p = q"
proof
  assume ok: "purpose_ok p" "purpose_ok q" and "aad p = aad q"
  then have eq: "nul_fields (purpose_fields p) = nul_fields (purpose_fields q)" by (simp add: aad_def)
  have free: "list_all nul_free (purpose_fields r)" if "purpose_ok r" for r
    using that by (cases r) (simp_all add: nul_free_lit)
  show "p = q" using nul_fields_inj [OF free free eq] ok purpose_fields_inj by blast
qed simp

text \<open>
  C25: what is encrypted for a purpose decrypts to itself for that purpose and to nothing for
  any other: a secret moved to another tenant, another host or another column of the database
  is refused. Host ids, being ULIDs, hold no NUL.
\<close>

theorem ciphertext_bound_to_purpose:
  assumes "aead_laws c A" and "length nonce = 12" and "purpose_ok p" and "purpose_ok q"
    and "aad p \<in> A" and "aad q \<in> A"
  shows "decrypt_at_rest c q (encrypt_at_rest c nonce p m) = (if p = q then Inr m else Inl Decrypt)"
  using assms aad_inj [of p q]
  by (auto simp: decrypt_at_rest_def encrypt_at_rest_def open_at_rest_def aead_laws_def)

theorem ciphertext_bound_to_purpose_witness:
  "decrypt_at_rest (marking_cipher (aad (HostOverride 1 ''h''))) (HostOverride 2 ''h'')
     (encrypt_at_rest (marking_cipher (aad (HostOverride 1 ''h''))) ''abcdefghijkl'' (HostOverride 1 ''h'') ''secret'')
   = Inl Decrypt"
proof -
  have ok: "purpose_ok (HostOverride 1 ''h'')" "purpose_ok (HostOverride 2 ''h'')"
    by (simp_all add: nul_free_def NUL_def)
  have len: "length ''abcdefghijkl'' = 12" by simp
  show ?thesis
    using ciphertext_bound_to_purpose [OF marking_cipher_laws len ok, of "aad (HostOverride 1 ''h'')" "aad (HostOverride 2 ''h'')"]
    by simp
qed

section \<open>What a bundle signature covers\<close>

record bundle_descriptor =
  bd_tenant_id :: int
  bd_bundle_id :: str
  bd_name :: str
  bd_version :: str
  bd_format :: str
  bd_sha256_hex :: str

definition SIG_DOMAIN :: str where "SIG_DOMAIN = ''nsclient-fleet/bundle-sig/v2''"

definition descriptor_fields :: "bundle_descriptor \<Rightarrow> str list" where
  "descriptor_fields b = [show_int (bd_tenant_id b), bd_bundle_id b, bd_name b, bd_version b,
     bd_format b, bd_sha256_hex b]"

definition to_signing_bytes :: "bundle_descriptor \<Rightarrow> bytes" where
  "to_signing_bytes b = SIG_DOMAIN @ nul_fields (descriptor_fields b)"

definition descriptor_ok :: "bundle_descriptor \<Rightarrow> bool" where
  "descriptor_ok b \<longleftrightarrow> list_all nul_free (descriptor_fields b)"

text \<open>
  C27: two bundles whose signatures cover the same bytes are the same bundle: same tenant, id,
  name, version, format and digest. A signature cannot be carried over to another one.
\<close>

theorem signing_bytes_identify:
  assumes "descriptor_ok a" and "descriptor_ok b" and "to_signing_bytes a = to_signing_bytes b"
  shows "a = b"
proof -
  have "descriptor_fields a = descriptor_fields b"
    using assms by (intro nul_fields_inj) (simp_all add: descriptor_ok_def to_signing_bytes_def)
  then show ?thesis by (cases a; cases b) (auto simp: descriptor_fields_def dest: show_int_inj)
qed

definition sample_descriptor :: bundle_descriptor where
  "sample_descriptor = \<lparr>bd_tenant_id = 1, bd_bundle_id = ''b1'', bd_name = ''web'', bd_version = ''1'',
     bd_format = ''plain'', bd_sha256_hex = ''aa''\<rparr>"

lemma sample_descriptor_ok: "descriptor_ok sample_descriptor"
  by (simp add: descriptor_ok_def descriptor_fields_def sample_descriptor_def nul_free_lit)

theorem signing_bytes_identify_witness:
  "to_signing_bytes sample_descriptor \<noteq> to_signing_bytes (sample_descriptor\<lparr>bd_name := ''site''\<rparr>)"
proof
  assume eq: "to_signing_bytes sample_descriptor = to_signing_bytes (sample_descriptor\<lparr>bd_name := ''site''\<rparr>)"
  have "descriptor_ok (sample_descriptor\<lparr>bd_name := ''site''\<rparr>)"
    by (simp add: descriptor_ok_def descriptor_fields_def sample_descriptor_def nul_free_lit)
  from signing_bytes_identify [OF sample_descriptor_ok this eq] show False by (simp add: sample_descriptor_def)
qed

section \<open>The encrypted bundle envelope\<close>

definition MAGIC :: bytes where "MAGIC = ''NSEB1''"
definition FORMAT_ENC_V1 :: str where "FORMAT_ENC_V1 = ''enc-v1''"
definition FORMAT_PLAIN :: str where "FORMAT_PLAIN = ''plain''"
definition FINGERPRINT_LEN :: nat where "FINGERPRINT_LEN = 8"
definition NONCE_LEN :: nat where "NONCE_LEN = 12"
definition TAG_LEN :: nat where "TAG_LEN = 16"
definition HEADER_LEN :: nat where "HEADER_LEN = length MAGIC + FINGERPRINT_LEN + NONCE_LEN"

datatype enc_bundle_error = NotEncrypted | EncTruncated | WrongKey | EncDecrypt

record enc_header =
  eh_fingerprint :: bytes
  eh_nonce :: bytes

text \<open>A key: the cipher under it and its fingerprint, the first eight bytes of its digest.\<close>

record bundle_key =
  bk_cipher :: cipher
  bk_digest :: bytes

definition fingerprint :: "bundle_key \<Rightarrow> bytes" where
  "fingerprint k = take FINGERPRINT_LEN (bk_digest k)"

definition fingerprint_hex :: "bytes \<Rightarrow> str" where
  "fingerprint_hex fp = hex fp"

definition is_encrypted :: "bytes \<Rightarrow> bool" where
  "is_encrypted bs \<longleftrightarrow> take (length MAGIC) bs = MAGIC"

definition parse_header :: "bytes \<Rightarrow> enc_bundle_error + enc_header" where
  "parse_header bs =
     (if \<not> is_encrypted bs then Inl NotEncrypted
      else if length bs < HEADER_LEN + TAG_LEN then Inl EncTruncated
      else Inr \<lparr>eh_fingerprint = take FINGERPRINT_LEN (drop (length MAGIC) bs),
               eh_nonce = take NONCE_LEN (drop (length MAGIC + FINGERPRINT_LEN) bs)\<rparr>)"

definition aad_for :: "str \<Rightarrow> str \<Rightarrow> bytes" where
  "aad_for name version = name @ NUL # version"

definition bundle_encrypt :: "bundle_key \<Rightarrow> bytes \<Rightarrow> str \<Rightarrow> str \<Rightarrow> bytes \<Rightarrow> bytes" where
  "bundle_encrypt k nonce name version plaintext =
     MAGIC @ fingerprint k @ nonce @ seal (bk_cipher k) nonce (aad_for name version) plaintext"

definition bundle_decrypt :: "bundle_key \<Rightarrow> str \<Rightarrow> str \<Rightarrow> bytes \<Rightarrow> enc_bundle_error + bytes" where
  "bundle_decrypt k name version blob =
     (case parse_header blob of
        Inl e \<Rightarrow> Inl e
      | Inr h \<Rightarrow>
          if eh_fingerprint h \<noteq> fingerprint k then Inl WrongKey
          else case unseal (bk_cipher k) (eh_nonce h) (aad_for name version) (drop HEADER_LEN blob) of
              None \<Rightarrow> Inl EncDecrypt
            | Some m \<Rightarrow> Inr m)"

lemma aad_for_inj: "nul_free n \<Longrightarrow> nul_free n' \<Longrightarrow> aad_for n v = aad_for n' v' \<longleftrightarrow> n = n' \<and> v = v'"
proof -
  assume free: "nul_free n" "nul_free n'"
  have "n = n' \<and> NUL # v = NUL # v'" if "n @ NUL # v = n' @ NUL # v'"
    using free that by (intro nul_split) simp_all
  then show ?thesis by (auto simp: aad_for_def)
qed

lemma encrypted_header:
  assumes "length (bk_digest k) \<ge> 8" "length nonce = 12" "length ct \<ge> 16"
  shows "parse_header (MAGIC @ fingerprint k @ nonce @ ct) = Inr \<lparr>eh_fingerprint = fingerprint k, eh_nonce = nonce\<rparr>"
    and "drop HEADER_LEN (MAGIC @ fingerprint k @ nonce @ ct) = ct"
  using assms by (simp_all add: parse_header_def is_encrypted_def HEADER_LEN_def TAG_LEN_def NONCE_LEN_def
      FINGERPRINT_LEN_def fingerprint_def MAGIC_def)

text \<open>
  C26: an encrypted bundle opens only as what it was encrypted as: under the same name and
  version it gives its content back, under any other name or version it is refused, and with a
  key of another fingerprint it is reported as the wrong key before the cipher is asked.
\<close>

theorem envelope_opens_only_as_itself:
  assumes "aead_laws (bk_cipher k) A" and "aad_for name version \<in> A" and "aad_for name' version' \<in> A"
    and "length (bk_digest k) = 32" and "length (bk_digest k') = 32"
    and "length nonce = 12" and "nul_free name" and "nul_free name'"
  shows "bundle_decrypt k name' version' (bundle_encrypt k nonce name version m)
           = (if name' = name \<and> version' = version then Inr m else Inl EncDecrypt)
    \<and> (fingerprint k' \<noteq> fingerprint k \<longrightarrow>
        bundle_decrypt k' name version (bundle_encrypt k nonce name version m) = Inl WrongKey)"
proof -
  have len: "length (seal (bk_cipher k) nonce (aad_for name version) m) \<ge> 16"
    using assms(1) by (simp add: aead_laws_def)
  have dig: "length (bk_digest k) \<ge> 8" using assms(4) by simp
  note h = encrypted_header [OF dig \<open>length nonce = 12\<close> len]
  have same: "unseal (bk_cipher k) nonce (aad_for name' version') (seal (bk_cipher k) nonce (aad_for name version) m)
      = (if name' = name \<and> version' = version then Some m else None)"
    using assms aad_for_inj [of name name' version version'] by (auto simp: aead_laws_def)
  show ?thesis unfolding bundle_decrypt_def bundle_encrypt_def h by (simp add: h(2) same)
qed

definition sample_key :: bundle_key where
  "sample_key = \<lparr>bk_cipher = marking_cipher (aad_for ''web'' ''1''), bk_digest = replicate 32 (CHR ''k'')\<rparr>"

theorem envelope_opens_only_as_itself_witness:
  "bundle_decrypt sample_key ''web'' ''2'' (bundle_encrypt sample_key ''abcdefghijkl'' ''web'' ''1'' ''zip'') = Inl EncDecrypt"
proof -
  have laws: "aead_laws (bk_cipher sample_key) {aad_for ''web'' ''1'', aad_for ''web'' ''2''}"
    by (simp add: sample_key_def marking_cipher_laws)
  have in_A: "aad_for ''web'' ''1'' \<in> {aad_for ''web'' ''1'', aad_for ''web'' ''2''}"
    "aad_for ''web'' ''2'' \<in> {aad_for ''web'' ''1'', aad_for ''web'' ''2''}" by simp_all
  have rest: "length (bk_digest sample_key) = 32" "length ''abcdefghijkl'' = 12" "nul_free ''web''"
    by (simp_all add: sample_key_def nul_free_lit)
  show ?thesis
    using envelope_opens_only_as_itself [OF laws in_A rest(1) rest(1) rest(2) rest(3) rest(3), of "''zip''"] by simp
qed

end
