(* ===== verification/Host_Tags.thy ===== *)
theory Host_Tags
  imports Hosts_Repo
begin

text \<open>
  \<open>crates/storage/src/repos/hosts.rs\<close>: \<open>HostTagsRepo\<close> and \<open>HostOverridesRepo\<close>. A
  \<open>BTreeMap\<close> of reported tags is its entries in key order.
\<close>

section \<open>Tags\<close>

definition agent_tag_of :: "int \<Rightarrow> str \<Rightarrow> tag_row \<Rightarrow> bool" where
  "agent_tag_of t i r \<longleftrightarrow> tg_tenant r = t \<and> tg_host r = i \<and> tg_source r = ''agent''"

text \<open>\<open>INSERT ... ON CONFLICT(host_id, key, source)\<close>, with the foreign keys it is checked for.\<close>

definition upsert_tag :: "tag_row \<Rightarrow> db \<Rightarrow> sql_error + db" where
  "upsert_tag new d =
     (let clash = (\<lambda>r. tg_host r = tg_host new \<and> tg_key r = tg_key new \<and> tg_source r = tg_source new) in
      if \<not> tenant_exists (tg_tenant new) d
         \<or> (\<not> (\<exists>r \<in> set (host_tags d). clash r) \<and> \<not> host_id_exists (tg_host new) d)
      then Inl ForeignKeyViolation
      else Inr (d\<lparr>host_tags := upsert clash
             (\<lambda>r. r\<lparr>tg_value := tg_value new, tg_updated_at := tg_updated_at new,
                    tg_tenant := tg_tenant new\<rparr>) new (host_tags d)\<rparr>))"

definition existing_tag :: "str \<Rightarrow> str \<Rightarrow> str \<Rightarrow> db \<Rightarrow> str option" where
  "existing_tag i key source d =
     map_option tg_value
       (fetch_optional (\<lambda>r. tg_host r = i \<and> tg_key r = key \<and> tg_source r = source) (host_tags d))"

fun delete_stale :: "int \<Rightarrow> str \<Rightarrow> str list \<Rightarrow> db \<Rightarrow> db" where
  "delete_stale t i [] d = d"
| "delete_stale t i (key # keys) d =
     delete_stale t i keys
       (d\<lparr>host_tags := delete_where (\<lambda>r. agent_tag_of t i r \<and> tg_key r = key) (host_tags d)\<rparr>)"

fun store_tags :: "int \<Rightarrow> int \<Rightarrow> str \<Rightarrow> (str \<times> str) list \<Rightarrow> bool \<Rightarrow> db \<Rightarrow> sql_error + bool \<times> db" where
  "store_tags now t i [] changed d = Inr (changed, d)"
| "store_tags now t i ((key, val) # tags) changed d =
     (let changed' = (changed \<or> existing_tag i key ''agent'' d \<noteq> Some val) in
      case upsert_tag \<lparr>tg_tenant = t, tg_host = i, tg_key = key, tg_value = val,
                       tg_source = ''agent'', tg_updated_at = now\<rparr> d of
        Inl e \<Rightarrow> Inl e
      | Inr d' \<Rightarrow> store_tags now t i tags changed' d')"

definition replace_agent_tags ::
  "int \<Rightarrow> int \<Rightarrow> str \<Rightarrow> (str \<times> str) list \<Rightarrow> db \<Rightarrow> sql_error + bool \<times> db" where
  "replace_agent_tags now t i tags d =
     (let stale = map tg_key (filter (agent_tag_of t i) (host_tags d));
          gone = filter (\<lambda>k. bt_get tags k = None) stale
      in store_tags now t i tags (gone \<noteq> []) (delete_stale t i gone d))"

definition list_for_host :: "int \<Rightarrow> str \<Rightarrow> db \<Rightarrow> (str \<times> str \<times> str) list" where
  "list_for_host t i d =
     map (\<lambda>r. (tg_key r, tg_value r, tg_source r))
       (order_asc tg_key (filter (\<lambda>r. tg_tenant r = t \<and> tg_host r = i) (host_tags d)))"

definition list_for_tenant :: "int \<Rightarrow> db \<Rightarrow> (str \<times> str \<times> str \<times> str) list" where
  "list_for_tenant t d =
     map (\<lambda>r. (tg_host r, tg_key r, tg_value r, tg_source r))
       (order_asc tg_host (order_asc tg_key (filter (\<lambda>r. tg_tenant r = t) (host_tags d))))"

definition upsert_manual_tag :: "int \<Rightarrow> int \<Rightarrow> str \<Rightarrow> str \<Rightarrow> str \<Rightarrow> db \<Rightarrow> sql_error + bool \<times> db" where
  "upsert_manual_tag now t i key val d =
     (let changed = (existing_tag i key ''manual'' d \<noteq> Some val) in
      case upsert_tag \<lparr>tg_tenant = t, tg_host = i, tg_key = key, tg_value = val,
                       tg_source = ''manual'', tg_updated_at = now\<rparr> d of
        Inl e \<Rightarrow> Inl e
      | Inr d' \<Rightarrow> Inr (changed, d'))"

definition delete_manual_tag :: "int \<Rightarrow> str \<Rightarrow> str \<Rightarrow> db \<Rightarrow> bool \<times> db" where
  "delete_manual_tag t i key d =
     (let p = (\<lambda>r. tg_tenant r = t \<and> tg_host r = i \<and> tg_key r = key \<and> tg_source r = ''manual'')
      in (affected p (host_tags d) > 0, d\<lparr>host_tags := delete_where p (host_tags d)\<rparr>))"

definition values_for_key :: "int \<Rightarrow> str \<Rightarrow> db \<Rightarrow> (str \<times> str) list" where
  "values_for_key t key d =
     map (\<lambda>r. (tg_host r, tg_value r))
       (filter (\<lambda>r. tg_tenant r = t \<and> tg_key r = key) (host_tags d))"

definition to_tag_value :: "tag_row \<Rightarrow> tag_value" where
  "to_tag_value r = \<lparr>tag_text = tg_value r, tag_src = tag_source_from_db (tg_source r)\<rparr>"

text \<open>\<open>or_default().push\<close> over the rows: each key's values in row order.\<close>

definition map_for_host :: "int \<Rightarrow> str \<Rightarrow> db \<Rightarrow> host_tags" where
  "map_for_host t i d =
     fold (\<lambda>r m. m(tg_key r \<mapsto> (case m (tg_key r) of None \<Rightarrow> [] | Some vs \<Rightarrow> vs) @ [to_tag_value r]))
       (filter (\<lambda>r. tg_tenant r = t \<and> tg_host r = i) (host_tags d)) Map.empty"

definition maps_for_tenant :: "int \<Rightarrow> db \<Rightarrow> str \<rightharpoonup> host_tags" where
  "maps_for_tenant t d =
     fold (\<lambda>r m. let tags = (case m (tg_host r) of None \<Rightarrow> Map.empty | Some h \<Rightarrow> h);
                     vs = (case tags (tg_key r) of None \<Rightarrow> [] | Some vs \<Rightarrow> vs)
                 in m(tg_host r \<mapsto> tags(tg_key r \<mapsto> vs @ [to_tag_value r])))
       (filter (\<lambda>r. tg_tenant r = t) (host_tags d)) Map.empty"

section \<open>Host overrides\<close>

record stored_override =
  so_host_id :: str
  so_patch_encrypted :: bytes
  so_priority :: int
  so_template :: "str option"

definition override_upsert ::
  "int \<Rightarrow> int \<Rightarrow> str \<Rightarrow> bytes \<Rightarrow> int \<Rightarrow> str option \<Rightarrow> int option \<Rightarrow> db \<Rightarrow> sql_error + db" where
  "override_upsert now t i patch priority template by_user d =
     (let clash = (\<lambda>r. o_host r = i);
          new = \<lparr>o_tenant = t, o_host = i, o_patch_encrypted = patch, o_priority = priority,
                 o_updated_at = now, o_updated_by_user = by_user, o_template = template\<rparr> in
      if \<not> tenant_exists t d \<or> \<not> host_id_exists i d
         \<or> (case by_user of None \<Rightarrow> False | Some u \<Rightarrow> \<forall>r \<in> set (users d). u_id r \<noteq> u)
      then Inl ForeignKeyViolation
      else Inr (d\<lparr>host_overrides := upsert clash
             (\<lambda>r. r\<lparr>o_patch_encrypted := patch, o_priority := priority, o_template := template,
                    o_updated_at := now, o_updated_by_user := by_user, o_tenant := t\<rparr>)
             new (host_overrides d)\<rparr>))"

definition override_delete :: "int \<Rightarrow> str \<Rightarrow> db \<Rightarrow> bool \<times> db" where
  "override_delete t i d =
     (let p = (\<lambda>r. o_tenant r = t \<and> o_host r = i)
      in (affected p (host_overrides d) > 0, d\<lparr>host_overrides := delete_where p (host_overrides d)\<rparr>))"

definition override_list_all :: "db \<Rightarrow> (int \<times> str \<times> bytes) list" where
  "override_list_all d = map (\<lambda>r. (o_tenant r, o_host r, o_patch_encrypted r)) (host_overrides d)"

definition replace_ciphertext :: "int \<Rightarrow> str \<Rightarrow> bytes \<Rightarrow> db \<Rightarrow> db" where
  "replace_ciphertext t i patch d =
     d\<lparr>host_overrides := update_where (\<lambda>r. o_tenant r = t \<and> o_host r = i)
         (\<lambda>r. r\<lparr>o_patch_encrypted := patch\<rparr>) (host_overrides d)\<rparr>"

definition override_get :: "int \<Rightarrow> str \<Rightarrow> db \<Rightarrow> stored_override option" where
  "override_get t i d =
     map_option (\<lambda>r. \<lparr>so_host_id = o_host r, so_patch_encrypted = o_patch_encrypted r,
                       so_priority = o_priority r, so_template = o_template r\<rparr>)
       (fetch_optional (\<lambda>r. o_tenant r = t \<and> o_host r = i) (host_overrides d))"

section \<open>Reading tags back\<close>

lemma fold_push:
  "fold (\<lambda>r m. m(k r \<mapsto> (case m (k r) of None \<Rightarrow> [] | Some vs \<Rightarrow> vs) @ [v r])) rows m key =
     (let vs = map v (filter (\<lambda>r. k r = key) rows) in
      if vs = [] then m key else Some ((case m key of None \<Rightarrow> [] | Some us \<Rightarrow> us) @ vs))"
  by (induction rows arbitrary: m) (auto simp: Let_def filter_empty_conv split: option.splits)

lemma map_for_host_key:
  "(case map_for_host t i d key of None \<Rightarrow> [] | Some vs \<Rightarrow> vs) =
     map to_tag_value (filter (\<lambda>r. tg_tenant r = t \<and> tg_host r = i \<and> tg_key r = key) (host_tags d))"
proof -
  have "filter (\<lambda>r. tg_key r = key) (filter (\<lambda>r. tg_tenant r = t \<and> tg_host r = i) (host_tags d)) =
      filter (\<lambda>r. tg_tenant r = t \<and> tg_host r = i \<and> tg_key r = key) (host_tags d)"
    by (simp add: conj_assoc)
  then show ?thesis by (simp only: map_for_host_def fold_push Let_def) (auto simp: filter_empty_conv)
qed

text \<open>The operator's tags of a host are read off its manual rows.\<close>

lemma operator_tags_rows:
  "operator_tags (map_for_host t i d) key =
     map tg_value (filter (\<lambda>r. tg_tenant r = t \<and> tg_host r = i \<and> tg_key r = key)
       (filter (\<lambda>r. tg_source r = ''manual'') (host_tags d)))"
proof -
  have "operator_tags (map_for_host t i d) key = map tag_text (filter (\<lambda>v. accepts FManual (tag_src v))
     (map to_tag_value (filter (\<lambda>r. tg_tenant r = t \<and> tg_host r = i \<and> tg_key r = key) (host_tags d))))"
    by (simp only: operator_tags_def matching_def map_for_host_key)
  also have "\<dots> = map tg_value (filter (\<lambda>r. tg_source r = ''manual'')
      (filter (\<lambda>r. tg_tenant r = t \<and> tg_host r = i \<and> tg_key r = key) (host_tags d)))"
    by (simp add: filter_map o_def to_tag_value_def tag_source_from_db_def del: filter_filter)
  finally show ?thesis by (auto intro!: arg_cong [where f = "map tg_value"] filter_cong)
qed

text \<open>What the host says of itself under a key: the values of its non-manual rows.\<close>

definition agent_values :: "int \<Rightarrow> str \<Rightarrow> db \<Rightarrow> str \<Rightarrow> str list" where
  "agent_values t i d key = map tag_text (matching (map_for_host t i d) key FAgent)"

definition agent_row :: "int \<Rightarrow> str \<Rightarrow> str \<Rightarrow> tag_row \<Rightarrow> bool" where
  "agent_row t i key r \<longleftrightarrow> agent_tag_of t i r \<and> tg_key r = key"

definition tag_pk :: "tag_row \<Rightarrow> str \<times> str \<times> str" where
  "tag_pk r = (tg_host r, tg_key r, tg_source r)"

definition tags_ok :: "db \<Rightarrow> bool" where
  "tags_ok d \<longleftrightarrow> distinct (map tag_pk (host_tags d))
     \<and> (\<forall>r \<in> set (host_tags d). tg_source r = ''manual'' \<or> tg_source r = ''agent'')"

lemma agent_values_rows:
  assumes "tags_ok d"
  shows "agent_values t i d key = map tg_value (filter (agent_row t i key) (host_tags d))"
proof -
  have "agent_values t i d key = map tag_text (filter (\<lambda>v. accepts FAgent (tag_src v))
     (map to_tag_value (filter (\<lambda>r. tg_tenant r = t \<and> tg_host r = i \<and> tg_key r = key) (host_tags d))))"
    by (simp only: agent_values_def matching_def map_for_host_key)
  also have "\<dots> = map tg_value (filter (\<lambda>r. tg_source r \<noteq> ''manual'')
      (filter (\<lambda>r. tg_tenant r = t \<and> tg_host r = i \<and> tg_key r = key) (host_tags d)))"
    by (simp add: filter_map o_def to_tag_value_def tag_source_from_db_def del: filter_filter)
  also have "\<dots> = map tg_value (filter (agent_row t i key) (host_tags d))"
    using assms by (auto simp: tags_ok_def agent_row_def agent_tag_of_def
        intro!: arg_cong [where f = "map tg_value"] filter_cong)
  finally show ?thesis .
qed

section \<open>Replacing the reported tags\<close>

lemma delete_stale_rows:
  "delete_stale t i keys d =
     d\<lparr>host_tags := filter (\<lambda>r. \<not> (agent_tag_of t i r \<and> tg_key r \<in> set keys)) (host_tags d)\<rparr>"
  by (induction keys arbitrary: d) (auto simp: delete_where_def intro!: arg_cong2 [where f = db.host_tags_update] filter_cong)

text \<open>What storing one tag does to the rows of a key.\<close>

lemma upsert_tag_agent:
  assumes ok: "tags_ok d"
    and up: "upsert_tag \<lparr>tg_tenant = t, tg_host = i, tg_key = k, tg_value = v,
                       tg_source = ''agent'', tg_updated_at = now\<rparr> d = Inr d'"
  shows "tags_ok d'"
    and "map tg_value (filter (agent_row t i k) (host_tags d')) = [v]"
    and "key \<noteq> k \<Longrightarrow> filter (agent_row t i key) (host_tags d') = filter (agent_row t i key) (host_tags d)"
    and "filter (\<lambda>r. tg_source r = ''manual'') (host_tags d') = filter (\<lambda>r. tg_source r = ''manual'') (host_tags d)"
proof -
  define clash where "clash = (\<lambda>r :: tag_row. tg_host r = i \<and> tg_key r = k \<and> tg_source r = ''agent'')"
  define f where "f = (\<lambda>r :: tag_row. r\<lparr>tg_value := v, tg_updated_at := now, tg_tenant := t\<rparr>)"
  define new where "new = \<lparr>tg_tenant = t, tg_host = i, tg_key = k, tg_value = v,
                       tg_source = ''agent'', tg_updated_at = now\<rparr>"
  have d': "host_tags d' = upsert clash f new (host_tags d)"
    using up by (auto simp: upsert_tag_def Let_def clash_def f_def new_def split: if_splits)
  have pk: "distinct (map tag_pk (host_tags d))" using ok by (simp add: tags_ok_def)
  have "distinct (map tag_pk (host_tags d'))"
    unfolding d' by (rule distinct_map_upsert [OF pk]) (auto simp: f_def tag_pk_def clash_def new_def)
  moreover have "set (host_tags d') \<subseteq> insert new (set (host_tags d) \<union> f ` set (host_tags d))"
    by (auto simp: d' upsert_def set_update_where)
  ultimately show "tags_ok d'"
    using ok by (fastforce simp: tags_ok_def new_def f_def)
  show "map tg_value (filter (agent_row t i k) (host_tags d')) = [v]"
  proof (cases "\<exists>r \<in> set (host_tags d). clash r")
    case True
    then obtain r where r: "r \<in> set (host_tags d)" "clash r" by blast
    have "filter clash (host_tags d) = [r]"
      by (rule filter_unique [where p = clash, OF pk r]) (use r(2) in \<open>simp add: clash_def tag_pk_def\<close>)
    moreover have "filter (agent_row t i k) (update_where clash f (host_tags d)) = map f (filter clash (host_tags d))"
      by (rule filter_update_selected)
         (auto simp: clash_def f_def agent_row_def agent_tag_of_def)
    ultimately show ?thesis using True by (simp add: d' upsert_def f_def)
  next
    case False
    then have "filter (agent_row t i k) (host_tags d) = []"
      by (auto simp: filter_empty_conv clash_def agent_row_def agent_tag_of_def)
    with False show ?thesis by (simp add: d' upsert_def) (simp add: new_def agent_row_def agent_tag_of_def)
  qed
  show "filter (agent_row t i key) (host_tags d') = filter (agent_row t i key) (host_tags d)" if "key \<noteq> k"
    unfolding d' by (rule filter_upsert) (use that in \<open>auto simp: clash_def f_def new_def agent_row_def\<close>)
  show "filter (\<lambda>r. tg_source r = ''manual'') (host_tags d') = filter (\<lambda>r. tg_source r = ''manual'') (host_tags d)"
    unfolding d' by (rule filter_upsert) (auto simp: clash_def f_def new_def)
qed


text \<open>Before the upserts: the stale keys' rows are gone.\<close>

lemma tags_ok_delete_stale: "tags_ok d \<Longrightarrow> tags_ok (delete_stale t i keys d)"
  by (auto simp: tags_ok_def delete_stale_rows distinct_map_filter)

lemma existing_agent_tag:
  assumes "tags_ok d" and own: "\<forall>r \<in> set (host_tags d). tg_host r = i \<longrightarrow> tg_tenant r = t"
  shows "existing_tag i key ''agent'' d = Some v \<longleftrightarrow> map tg_value (filter (agent_row t i key) (host_tags d)) = [v]"
proof -
  let ?p = "\<lambda>r. tg_host r = i \<and> tg_key r = key \<and> tg_source r = ''agent''"
  have p: "filter (agent_row t i key) (host_tags d) = filter ?p (host_tags d)"
    using own by (auto simp: agent_row_def agent_tag_of_def intro!: filter_cong)
  have pk: "distinct (map tag_pk (host_tags d))" using assms(1) by (simp add: tags_ok_def)
  show ?thesis
  proof (cases "find ?p (host_tags d)")
    case None
    then have "filter ?p (host_tags d) = []" by (auto simp: find_None_iff filter_empty_conv)
    with None show ?thesis by (simp add: p existing_tag_def fetch_optional_def)
  next
    case (Some r)
    then have r: "r \<in> set (host_tags d)" "?p r" by (auto dest: find_SomeD)
    have "filter ?p (host_tags d) = [r]"
      by (rule filter_unique [where p = ?p, OF pk r]) (use r(2) in \<open>simp add: tag_pk_def\<close>)
    with Some show ?thesis by (simp add: p existing_tag_def fetch_optional_def)
  qed
qed

lemma upsert_tag_owned:
  "upsert_tag new d = Inr d' \<Longrightarrow> tg_tenant new = t \<Longrightarrow>
   \<forall>r \<in> set (host_tags d). tg_host r = i \<longrightarrow> tg_tenant r = t \<Longrightarrow>
   \<forall>r \<in> set (host_tags d'). tg_host r = i \<longrightarrow> tg_tenant r = t"
  by (auto simp: upsert_tag_def Let_def upsert_def set_update_where split: if_splits)

lemma store_tags_spec:
  "store_tags now t i tags changed d = Inr (c, d') \<Longrightarrow> tags_ok d \<Longrightarrow> bt_ok tags \<Longrightarrow>
   \<forall>r \<in> set (host_tags d). tg_host r = i \<longrightarrow> tg_tenant r = t \<Longrightarrow>
   tags_ok d'
   \<and> (\<forall>key. map tg_value (filter (agent_row t i key) (host_tags d')) =
        (case bt_get tags key of
           None \<Rightarrow> map tg_value (filter (agent_row t i key) (host_tags d)) | Some v \<Rightarrow> [v]))
   \<and> filter (\<lambda>r. tg_source r = ''manual'') (host_tags d') = filter (\<lambda>r. tg_source r = ''manual'') (host_tags d)
   \<and> (c \<longleftrightarrow> changed \<or> (\<exists>(k, v) \<in> set tags. map tg_value (filter (agent_row t i k) (host_tags d)) \<noteq> [v]))"
proof (induction tags arbitrary: changed d)
  case Nil
  then show ?case by auto
next
  case (Cons kv tags)
  obtain k v where kv: "kv = (k, v)" by (cases kv)
  let ?new = "\<lparr>tg_tenant = t, tg_host = i, tg_key = k, tg_value = v, tg_source = ''agent'', tg_updated_at = now\<rparr>"
  from Cons.prems(1) obtain d1 where up: "upsert_tag ?new d = Inr d1"
    and rec: "store_tags now t i tags (changed \<or> existing_tag i k ''agent'' d \<noteq> Some v) d1 = Inr (c, d')"
    by (auto simp: kv Let_def split: sum.splits)
  note one = upsert_tag_agent [OF Cons.prems(2) up]
  have k: "bt_get tags k = None" and ok: "bt_ok tags" and above: "\<And>k' v'. (k', v') \<in> set tags \<Longrightarrow> k' \<noteq> k"
    using Cons.prems(3) by (force simp: kv bt_ok_Cons map_of_eq_None_iff)+
  have own1: "\<forall>r \<in> set (host_tags d1). tg_host r = i \<longrightarrow> tg_tenant r = t"
    using upsert_tag_owned [OF up _ Cons.prems(4)] by simp
  note IH = Cons.IH [OF rec one(1) ok own1]
  have "(\<exists>(k', v') \<in> set tags. map tg_value (filter (agent_row t i k') (host_tags d1)) \<noteq> [v'])
      \<longleftrightarrow> (\<exists>(k', v') \<in> set tags. map tg_value (filter (agent_row t i k') (host_tags d)) \<noteq> [v'])"
  proof (rule bex_cong [OF refl])
    fix e assume "e \<in> set tags"
    then have "fst e \<noteq> k" using above [of "fst e" "snd e"] by simp
    from one(3) [OF this] show "(case e of (k', v') \<Rightarrow> map tg_value (filter (agent_row t i k') (host_tags d1)) \<noteq> [v'])
      = (case e of (k', v') \<Rightarrow> map tg_value (filter (agent_row t i k') (host_tags d)) \<noteq> [v'])"
      by (cases e) simp
  qed
  moreover have "map tg_value (filter (agent_row t i key) (host_tags d')) =
        (case bt_get (kv # tags) key of
           None \<Rightarrow> map tg_value (filter (agent_row t i key) (host_tags d)) | Some w \<Rightarrow> [w])" for key
    using IH one(2,3) k by (cases "key = k") (auto simp: kv split: option.splits)
  ultimately show ?case
    using IH one(4) existing_agent_tag [OF Cons.prems(2,4), of k v] by (auto simp: kv)
qed

text \<open>
  C34: a report replaces what the host said before: afterwards the host's values are exactly
  the reported ones, key by key, a key it stopped reporting is gone, the operator's tags are
  as they were, and the call says "changed" exactly when some key's values changed.
\<close>

theorem replace_agent_tags_exact:
  assumes ok: "tags_ok d" and tags: "bt_ok tags"
    and own: "\<forall>r \<in> set (host_tags d). tg_host r = i \<longrightarrow> tg_tenant r = t"
    and res: "replace_agent_tags now t i tags d = Inr (changed, d')"
  shows "(\<forall>key. agent_values t i d' key = (case bt_get tags key of None \<Rightarrow> [] | Some v \<Rightarrow> [v]))
    \<and> (\<forall>key. operator_tags (map_for_host t i d') key = operator_tags (map_for_host t i d) key)
    \<and> (changed \<longleftrightarrow> (\<exists>key. agent_values t i d' key \<noteq> agent_values t i d key))"
proof -
  define gone where "gone = filter (\<lambda>k. bt_get tags k = None) (map tg_key (filter (agent_tag_of t i) (host_tags d)))"
  define d1 where "d1 = delete_stale t i gone d"
  have st: "store_tags now t i tags (gone \<noteq> []) d1 = Inr (changed, d')"
    using res by (simp add: replace_agent_tags_def Let_def gone_def d1_def)
  have ok1: "tags_ok d1" and own1: "\<forall>r \<in> set (host_tags d1). tg_host r = i \<longrightarrow> tg_tenant r = t"
    using tags_ok_delete_stale [OF ok] own by (auto simp: d1_def) (simp add: delete_stale_rows)
  note spec = store_tags_spec [OF st ok1 tags own1]
  have goneI: "k \<in> set gone \<longleftrightarrow> bt_get tags k = None \<and> filter (agent_row t i k) (host_tags d) \<noteq> []" for k
    by (auto simp: gone_def agent_row_def filter_empty_conv)
  have rows1: "filter (agent_row t i key) (host_tags d1) =
      (if bt_get tags key = None then [] else filter (agent_row t i key) (host_tags d))" for key
    by (auto simp: d1_def delete_stale_rows gone_def agent_row_def filter_empty_conv intro!: filter_cong)
  have new: "agent_values t i d' key = (case bt_get tags key of None \<Rightarrow> [] | Some v \<Rightarrow> [v])" for key
    using spec by (auto simp: agent_values_rows rows1 split: option.splits)
  have "filter (\<lambda>r. tg_source r = ''manual'') (host_tags d1) = filter (\<lambda>r. tg_source r = ''manual'') (host_tags d)"
    by (auto simp: d1_def delete_stale_rows agent_tag_of_def intro!: filter_cong)
  then have "operator_tags (map_for_host t i d') key = operator_tags (map_for_host t i d) key" for key
    using spec by (simp only: operator_tags_rows)
  moreover have "changed \<longleftrightarrow> (\<exists>key. agent_values t i d' key \<noteq> agent_values t i d key)"
  proof -
    have "changed \<longleftrightarrow> (\<exists>k. bt_get tags k = None \<and> filter (agent_row t i k) (host_tags d) \<noteq> [])
        \<or> (\<exists>k v. bt_get tags k = Some v \<and> map tg_value (filter (agent_row t i k) (host_tags d)) \<noteq> [v])"
    proof -
      have "(\<exists>(k, v) \<in> set tags. map tg_value (filter (agent_row t i k) (host_tags d1)) \<noteq> [v]) \<longleftrightarrow>
          (\<exists>k v. bt_get tags k = Some v \<and> map tg_value (filter (agent_row t i k) (host_tags d1)) \<noteq> [v])"
        by (auto simp: bt_get_in_set [OF tags])
      also have "\<dots> \<longleftrightarrow> (\<exists>k v. bt_get tags k = Some v \<and> map tg_value (filter (agent_row t i k) (host_tags d)) \<noteq> [v])"
        by (auto simp: rows1)
      finally have "changed \<longleftrightarrow> gone \<noteq> []
          \<or> (\<exists>k v. bt_get tags k = Some v \<and> map tg_value (filter (agent_row t i k) (host_tags d)) \<noteq> [v])"
        using spec by simp
      moreover have "gone \<noteq> [] \<longleftrightarrow> (\<exists>k. k \<in> set gone)" by (cases gone) auto
      ultimately show ?thesis by (simp only: goneI)
    qed
    also have "\<dots> \<longleftrightarrow> (\<exists>key. agent_values t i d' key \<noteq> agent_values t i d key)"
    proof -
      have "agent_values t i d' key \<noteq> agent_values t i d key \<longleftrightarrow>
          (bt_get tags key = None \<and> filter (agent_row t i key) (host_tags d) \<noteq> [])
          \<or> (\<exists>v. bt_get tags key = Some v \<and> map tg_value (filter (agent_row t i key) (host_tags d)) \<noteq> [v])" for key
        by (cases "bt_get tags key") (auto simp: new agent_values_rows [OF ok])
      then show ?thesis by blast
    qed
    finally show ?thesis .
  qed
  ultimately show ?thesis using new by blast
qed


definition tagged_host :: db where
  "tagged_host = sample_hosts\<lparr>host_tags := [
     \<lparr>tg_tenant = 1, tg_host = ''h'', tg_key = ''role'', tg_value = ''web'', tg_source = ''manual'', tg_updated_at = 1\<rparr>,
     \<lparr>tg_tenant = 1, tg_host = ''h'', tg_key = ''os'', tg_value = ''linux'', tg_source = ''agent'', tg_updated_at = 1\<rparr>]\<rparr>"

lemmas tag_eval = tagged_host_def sample_defs replace_agent_tags_def agent_tag_of_def upsert_tag_def
  upsert_def existing_tag_def fetch_optional_def tenant_exists_def host_id_exists_def Let_def
  delete_where_def update_where_def bt_ok_def tags_ok_def tag_pk_def

definition reported :: "(str \<times> str) list" where
  "reported = [(''arch'', ''arm''), (''role'', ''db'')]"

lemma tagged_host_reports:
  "replace_agent_tags 9 1 ''h'' reported tagged_host =
     Inr (True, committed tagged_host (replace_agent_tags 9 1 ''h'' reported tagged_host))"
  by (simp add: tag_eval reported_def committed_def)

theorem replace_agent_tags_exact_witness:
  "agent_values 1 ''h'' (committed tagged_host (replace_agent_tags 9 1 ''h'' reported tagged_host)) ''role'' = [''db'']
   \<and> agent_values 1 ''h'' (committed tagged_host (replace_agent_tags 9 1 ''h'' reported tagged_host)) ''os'' = []"
proof -
  have "tags_ok tagged_host" "bt_ok reported"
    "\<forall>r \<in> set (host_tags tagged_host). tg_host r = ''h'' \<longrightarrow> tg_tenant r = 1"
    by (simp_all add: tag_eval reported_def)
  from replace_agent_tags_exact [OF this tagged_host_reports] show ?thesis
    by (simp add: reported_def)
qed

text \<open>Whatever the report and the state, the operator's rows are not touched.\<close>

lemma store_tags_manual:
  "store_tags now t i tags changed d = Inr (c, d') \<Longrightarrow>
   filter (\<lambda>r. tg_source r = ''manual'') (host_tags d') = filter (\<lambda>r. tg_source r = ''manual'') (host_tags d)"
proof (induction tags arbitrary: changed d)
  case (Cons kv tags)
  obtain k v where kv: "kv = (k, v)" by (cases kv)
  let ?new = "\<lparr>tg_tenant = t, tg_host = i, tg_key = k, tg_value = v, tg_source = ''agent'', tg_updated_at = now\<rparr>"
  from Cons.prems obtain d1 where up: "upsert_tag ?new d = Inr d1"
    and rec: "store_tags now t i tags (changed \<or> existing_tag i k ''agent'' d \<noteq> Some v) d1 = Inr (c, d')"
    by (auto simp: kv Let_def split: sum.splits)
  have "filter (\<lambda>r. tg_source r = ''manual'') (host_tags d1) = filter (\<lambda>r. tg_source r = ''manual'') (host_tags d)"
    using up by (auto simp: upsert_tag_def Let_def intro!: filter_upsert split: if_splits)
  with Cons.IH [OF rec] show ?case by simp
qed auto

text \<open>
  C21: a host cannot report its way into a group: the tags and the document an agent sends
  change nothing about its membership in a group whose selector is not host-controlled.
\<close>

theorem report_keeps_membership:
  assumes "\<not> is_host_controlled s"
    and "replace_agent_tags now t i tags d = Inr (changed, d')"
    and "\<forall>source. source \<noteq> AGENT_SOURCE \<longrightarrow> facts' source = facts source"
  shows "matches s (map_for_host t i d') facts' = matches s (map_for_host t i d) facts"
proof (rule matches_independent [OF assms(1)])
  define gone where "gone = filter (\<lambda>k. bt_get tags k = None) (map tg_key (filter (agent_tag_of t i) (host_tags d)))"
  have "store_tags now t i tags (gone \<noteq> []) (delete_stale t i gone d) = Inr (changed, d')"
    using assms(2) by (simp add: replace_agent_tags_def Let_def gone_def)
  from store_tags_manual [OF this]
  have "filter (\<lambda>r. tg_source r = ''manual'') (host_tags d') = filter (\<lambda>r. tg_source r = ''manual'') (host_tags d)"
    by (auto simp: delete_stale_rows agent_tag_of_def intro!: filter_cong)
  then show "same_for_operator (map_for_host t i d') facts' (map_for_host t i d) facts"
    using assms(3) by (simp add: same_for_operator_def operator_tags_rows)
qed

theorem report_keeps_membership_witness:
  "matches \<lparr>clauses = [Eq ''role'' ''db'' FManual]\<rparr>
     (map_for_host 1 ''h'' (committed tagged_host (replace_agent_tags 9 1 ''h'' reported tagged_host))) [''agent'' \<mapsto> JNull]
   = matches \<lparr>clauses = [Eq ''role'' ''db'' FManual]\<rparr> (map_for_host 1 ''h'' tagged_host) Map.empty"
  by (rule report_keeps_membership [OF _ tagged_host_reports])
     (simp_all add: is_host_controlled_def filter_is_host_controlled_def AGENT_SOURCE_def)


end
