(* ===== verification/Facts_Repo.thy ===== *)
theory Facts_Repo
  imports Host_Tags
begin

text \<open>
  \<open>crates/storage/src/repos/facts.rs\<close>: the stored facts documents, their history and the
  hashes of the exchange with the agent, one definition per method of \<open>HostFactsRepo\<close>. A
  method that streams rows to a callback is the list of what it hands over.
\<close>

section \<open>The repository\<close>

record stored_facts =
  sf_source :: str
  sf_hash :: str
  sf_json :: str
  sf_collected_at :: "str option"
  sf_received_at :: int
  sf_size_bytes :: int

record facts_refusal =
  rf_hash :: "str option"
  rf_at :: int
  rf_status :: "16 word"

record facts_hashes =
  held :: "str option"
  reported_hash :: "str option"
  reported_since :: "int option"
  refused :: "facts_refusal option"

record new_facts =
  nf_source :: str
  nf_hash :: str
  nf_json :: str
  nf_collected_at :: "str option"
  nf_expected_previous :: "str option"
  nf_history :: "str option"

datatype replace_outcome = Stored | Unchanged | Conflict | NoHost

datatype facts_error = InvalidSource str | FactsSql sql_error

definition is_facts :: "int \<Rightarrow> str \<Rightarrow> str \<Rightarrow> facts_row \<Rightarrow> bool" where
  "is_facts t i source r \<longleftrightarrow> f_tenant r = t \<and> f_host r = i \<and> f_source r = source"

definition is_change :: "int \<Rightarrow> str \<Rightarrow> str \<Rightarrow> fact_change_row \<Rightarrow> bool" where
  "is_change t i source r \<longleftrightarrow> fc_tenant r = t \<and> fc_host r = i \<and> fc_source r = source"

definition to_stored :: "facts_row \<Rightarrow> stored_facts" where
  "to_stored r = \<lparr>sf_source = f_source r, sf_hash = f_hash r, sf_json = f_json r,
     sf_collected_at = f_collected_at r, sf_received_at = f_received_at r,
     sf_size_bytes = f_size_bytes r\<rparr>"

text \<open>\<open>u16::try_from(status).unwrap_or(0)\<close>.\<close>

definition status_u16 :: "int \<Rightarrow> 16 word" where
  "status_u16 v = (if 0 \<le> v \<and> v < 2 ^ 16 then word_of_int v else 0)"

definition facts_hashes_of :: "int \<Rightarrow> str \<Rightarrow> db \<Rightarrow> facts_hashes option" where
  "facts_hashes_of t i d =
     map_option (\<lambda>h. \<lparr>held = map_option f_hash (fetch_optional (is_facts t i AGENT_SOURCE) (host_facts d)),
        reported_hash = h_reported_hash h, reported_since = h_reported_at h,
        refused = (case (h_refused_at h, h_refused_status h) of
            (Some refused_at, Some st) \<Rightarrow>
              Some \<lparr>rf_hash = h_refused_hash h, rf_at = refused_at, rf_status = status_u16 st\<rparr>
          | _ \<Rightarrow> None)\<rparr>)
       (fetch_optional (is_host t i) (hosts d))"

definition record_refusal :: "int \<Rightarrow> int \<Rightarrow> str \<Rightarrow> 16 word \<Rightarrow> str option \<Rightarrow> db \<Rightarrow> db" where
  "record_refusal now t i st h d =
     d\<lparr>hosts := update_where (is_host t i)
         (\<lambda>r. r\<lparr>h_refused_hash := coalesce h (h_reported_hash r), h_refused_at := Some now,
                h_refused_status := Some (uint st)\<rparr>) (hosts d)\<rparr>"

definition set_reported_hash :: "int \<Rightarrow> int \<Rightarrow> str \<Rightarrow> str \<Rightarrow> db \<Rightarrow> bool \<times> db" where
  "set_reported_hash now t i h d =
     (let p = (\<lambda>r. is_host t i r \<and> h_reported_hash r \<noteq> Some h)
      in (affected p (hosts d) > 0,
          d\<lparr>hosts := update_where p
              (\<lambda>r. r\<lparr>h_reported_hash := Some h, h_reported_at := Some now\<rparr>) (hosts d)\<rparr>))"

definition facts_get :: "int \<Rightarrow> str \<Rightarrow> str \<Rightarrow> db \<Rightarrow> stored_facts option" where
  "facts_get t i source d = map_option to_stored (fetch_optional (is_facts t i source) (host_facts d))"

text \<open>\<open>LIMIT n\<close>: no limit when negative.\<close>

definition sql_limit :: "int \<Rightarrow> 'r list \<Rightarrow> 'r list" where
  "sql_limit n rows = (if n < 0 then rows else take (nat n) rows)"

definition newest_changes :: "int \<Rightarrow> str \<Rightarrow> str \<Rightarrow> int \<Rightarrow> db \<Rightarrow> fact_change_row list" where
  "newest_changes t i source n d =
     sql_limit n (order_desc fc_id (filter (is_change t i source) (host_fact_changes d)))"

definition add_history :: "int \<Rightarrow> int \<Rightarrow> str \<Rightarrow> str \<Rightarrow> str \<Rightarrow> str \<Rightarrow> int \<Rightarrow> db \<Rightarrow> db" where
  "add_history now t i source h entry keep d =
     (let d1 = d\<lparr>host_fact_changes := host_fact_changes d @
            [\<lparr>fc_id = next_rowid (map fc_id (host_fact_changes d)), fc_tenant = t, fc_host = i,
              fc_source = source, fc_at = now, fc_hash = h, fc_changes_json = entry\<rparr>]\<rparr>
      in d1\<lparr>host_fact_changes := delete_where
            (\<lambda>r. is_change t i source r \<and> fc_id r \<notin> fc_id ` set (newest_changes t i source keep d1))
            (host_fact_changes d1)\<rparr>)"

definition facts_replace ::
  "int \<Rightarrow> int \<Rightarrow> str \<Rightarrow> new_facts \<Rightarrow> int \<Rightarrow> db \<Rightarrow> facts_error + replace_outcome \<times> db" where
  "facts_replace now t i doc keep_history d =
     (if \<not> valid_source (nf_source doc) then Inl (InvalidSource (nf_source doc))
      else if fetch_optional (is_host t i) (hosts d) = None then Inr (NoHost, d)
      else
        let current = map_option f_hash (fetch_optional (is_facts t i (nf_source doc)) (host_facts d)) in
        if current = Some (nf_hash doc) then Inr (Unchanged, d)
        else if current \<noteq> nf_expected_previous doc then Inr (Conflict, d)
        else if \<not> tenant_exists t d then Inl (FactsSql ForeignKeyViolation)
        else
          let d1 = d\<lparr>host_facts := upsert (\<lambda>r. f_host r = i \<and> f_source r = nf_source doc)
                (\<lambda>r. r\<lparr>f_hash := nf_hash doc, f_json := nf_json doc,
                       f_collected_at := nf_collected_at doc, f_received_at := now,
                       f_size_bytes := int (length (nf_json doc))\<rparr>)
                \<lparr>f_tenant = t, f_host = i, f_source = nf_source doc, f_hash = nf_hash doc,
                 f_json = nf_json doc, f_collected_at = nf_collected_at doc, f_received_at = now,
                 f_size_bytes = int (length (nf_json doc))\<rparr>
                (host_facts d)\<rparr>
          in case nf_history doc of
              None \<Rightarrow> Inr (Stored, d1)
            | Some entry \<Rightarrow>
                Inr (Stored, add_history now t i (nf_source doc) (nf_hash doc) entry keep_history d1))"

definition clear_reported_hash :: "int \<Rightarrow> int \<Rightarrow> str \<Rightarrow> db \<Rightarrow> bool \<times> db" where
  "clear_reported_hash now t i d =
     (let p = (\<lambda>r. is_host t i r \<and> h_reported_hash r \<noteq> None)
      in (affected p (hosts d) > 0,
          d\<lparr>hosts := update_where p
              (\<lambda>r. r\<lparr>h_reported_hash := None, h_reported_at := Some now\<rparr>) (hosts d)\<rparr>))"

definition refresh_collected_at :: "int \<Rightarrow> int \<Rightarrow> str \<Rightarrow> str \<Rightarrow> str \<Rightarrow> str \<Rightarrow> db \<Rightarrow> bool \<times> db" where
  "refresh_collected_at now t i source h collected d =
     (let p = (\<lambda>r. is_facts t i source r \<and> f_hash r = h \<and> f_collected_at r \<noteq> Some collected)
      in (affected p (host_facts d) > 0,
          d\<lparr>host_facts := update_where p
              (\<lambda>r. r\<lparr>f_collected_at := Some collected, f_received_at := now\<rparr>) (host_facts d)\<rparr>))"

record change_entry =
  ce_id :: int
  ce_source :: str
  ce_at :: int
  ce_hash :: str
  ce_changes_json :: str

definition list_changes :: "int \<Rightarrow> str \<Rightarrow> str \<Rightarrow> int \<Rightarrow> db \<Rightarrow> change_entry list" where
  "list_changes t i source limit d =
     map (\<lambda>r. \<lparr>ce_id = fc_id r, ce_source = fc_source r, ce_at = fc_at r, ce_hash = fc_hash r,
               ce_changes_json = fc_changes_json r\<rparr>) (newest_changes t i source limit d)"

definition for_each_host_document :: "int \<Rightarrow> str list \<Rightarrow> db \<Rightarrow> (str \<times> str \<times> str) list" where
  "for_each_host_document t sources d =
     (if sources = [] then []
      else map (\<lambda>r. (f_host r, f_source r, f_json r))
        (order_asc f_host (order_asc f_source
          (filter (\<lambda>r. f_tenant r = t \<and> f_source r \<in> set sources) (host_facts d)))))"

definition for_each_document :: "int \<Rightarrow> str \<Rightarrow> int \<Rightarrow> db \<Rightarrow> (str \<times> str) list" where
  "for_each_document t source limit d =
     map (\<lambda>r. (f_host r, f_json r))
       (sql_limit limit (order_asc f_host
         (filter (\<lambda>r. f_tenant r = t \<and> f_source r = source) (host_facts d))))"

definition list_for_host_except :: "int \<Rightarrow> str \<Rightarrow> str \<Rightarrow> db \<Rightarrow> stored_facts list" where
  "list_for_host_except t i except d =
     map to_stored (order_asc f_source
       (filter (\<lambda>r. f_tenant r = t \<and> f_host r = i \<and> f_source r \<noteq> except) (host_facts d)))"

definition hosts_with_source :: "int \<Rightarrow> str \<Rightarrow> db \<Rightarrow> str list" where
  "hosts_with_source t source d =
     map f_host (order_asc f_host (filter (\<lambda>r. f_tenant r = t \<and> f_source r = source) (host_facts d)))"

definition facts_delete :: "int \<Rightarrow> str \<Rightarrow> str \<Rightarrow> db \<Rightarrow> bool \<times> db" where
  "facts_delete t i source d =
     (affected (is_facts t i source) (host_facts d) > 0,
      d\<lparr>host_facts := delete_where (is_facts t i source) (host_facts d),
        host_fact_changes := delete_where (is_change t i source) (host_fact_changes d)\<rparr>)"

definition delete_source :: "int \<Rightarrow> str \<Rightarrow> db \<Rightarrow> str list \<times> db" where
  "delete_source t source d =
     (let p = (\<lambda>r. f_tenant r = t \<and> f_source r = source)
      in (map f_host (filter p (host_facts d)),
          d\<lparr>host_facts := delete_where p (host_facts d),
            host_fact_changes :=
              delete_where (\<lambda>r. fc_tenant r = t \<and> fc_source r = source) (host_fact_changes d)\<rparr>))"

definition list_sources :: "int \<Rightarrow> db \<Rightarrow> str list" where
  "list_sources t d = order_asc (\<lambda>s. s) (remdups (map f_source (filter (\<lambda>r. f_tenant r = t) (host_facts d))))"

section \<open>The invariant\<close>

text \<open>
  One document per host and source, every document in its host's tenant, host ids unique,
  history ids in the order they were given out.
\<close>

definition facts_pk :: "facts_row \<Rightarrow> str \<times> str" where
  "facts_pk r = (f_host r, f_source r)"

definition facts_ok :: "db \<Rightarrow> bool" where
  "facts_ok d \<longleftrightarrow> distinct (map facts_pk (host_facts d)) \<and> distinct (map h_id (hosts d))
     \<and> (\<forall>r \<in> set (host_facts d). \<exists>h \<in> set (hosts d). is_host (f_tenant r) (f_host r) h)
     \<and> sorted_wrt (<) (map fc_id (host_fact_changes d))"

datatype facts_op =
    FRefusal int int str "16 word" "str option"
  | FReported int int str str
  | FReplace int int str new_facts int
  | FClear int int str
  | FRefresh int int str str str str
  | FDelete int str str
  | FDeleteSource int str

definition facts_committed :: "db \<Rightarrow> 'e + 'a \<times> db \<Rightarrow> db" where
  "facts_committed d r = (case r of Inl _ \<Rightarrow> d | Inr (_, d') \<Rightarrow> d')"

fun facts_apply :: "facts_op \<Rightarrow> db \<Rightarrow> db" where
  "facts_apply (FRefusal now t i st h) d = record_refusal now t i st h d"
| "facts_apply (FReported now t i h) d = snd (set_reported_hash now t i h d)"
| "facts_apply (FReplace now t i doc keep) d = facts_committed d (facts_replace now t i doc keep d)"
| "facts_apply (FClear now t i) d = snd (clear_reported_hash now t i d)"
| "facts_apply (FRefresh now t i s h c) d = snd (refresh_collected_at now t i s h c d)"
| "facts_apply (FDelete t i s) d = snd (facts_delete t i s d)"
| "facts_apply (FDeleteSource t s) d = snd (delete_source t s d)"

lemma facts_ok_hosts:
  assumes "facts_ok d" "\<And>r. h_id (f r) = h_id r \<and> h_tenant (f r) = h_tenant r"
  shows "facts_ok (d\<lparr>hosts := update_where p f (hosts d)\<rparr>)"
proof -
  have "\<exists>h \<in> set (update_where p f (hosts d)). is_host t i h" if "h \<in> set (hosts d)" "is_host t i h" for t i h
  proof -
    have "(if p h then f h else h) \<in> set (update_where p f (hosts d))"
      unfolding set_update_where using that(1) by blast
    moreover have "is_host t i (if p h then f h else h)" using that(2) assms(2) by (simp add: is_host_def)
    ultimately show ?thesis by blast
  qed
  with assms show ?thesis by (auto simp: facts_ok_def map_update_where)
qed

lemma facts_ok_delete:
  "facts_ok d \<Longrightarrow> facts_ok (d\<lparr>host_facts := delete_where p (host_facts d),
     host_fact_changes := delete_where q (host_fact_changes d)\<rparr>)"
  by (auto simp: facts_ok_def distinct_map_delete sorted_wrt_map_delete)

lemma facts_ok_add_history: "facts_ok d \<Longrightarrow> facts_ok (add_history now t i source h entry keep d)"
  by (auto simp: facts_ok_def add_history_def Let_def sorted_wrt_append next_rowid_fresh
      intro!: sorted_wrt_map_delete)

lemma fetch_host: "fetch_optional p rows = None \<longleftrightarrow> (\<forall>r \<in> set rows. \<not> p r)"
  by (auto simp: fetch_optional_def find_None_iff)

definition stored_row :: "int \<Rightarrow> int \<Rightarrow> str \<Rightarrow> new_facts \<Rightarrow> facts_row" where
  "stored_row now t i doc = \<lparr>f_tenant = t, f_host = i, f_source = nf_source doc, f_hash = nf_hash doc,
     f_json = nf_json doc, f_collected_at = nf_collected_at doc, f_received_at = now,
     f_size_bytes = int (length (nf_json doc))\<rparr>"

definition with_document :: "int \<Rightarrow> int \<Rightarrow> str \<Rightarrow> new_facts \<Rightarrow> db \<Rightarrow> db" where
  "with_document now t i doc d = d\<lparr>host_facts := upsert (\<lambda>r. f_host r = i \<and> f_source r = nf_source doc)
     (\<lambda>r. r\<lparr>f_hash := nf_hash doc, f_json := nf_json doc, f_collected_at := nf_collected_at doc,
            f_received_at := now, f_size_bytes := int (length (nf_json doc))\<rparr>)
     (stored_row now t i doc) (host_facts d)\<rparr>"

text \<open>What a stored replacement required, and what it did.\<close>

lemma facts_replace_stored:
  assumes "facts_replace now t i doc keep d = Inr (Stored, d')"
  shows "valid_source (nf_source doc)" "\<exists>h \<in> set (hosts d). is_host t i h"
    "map_option sf_hash (facts_get t i (nf_source doc) d) = nf_expected_previous doc"
    "nf_expected_previous doc \<noteq> Some (nf_hash doc)"
    "d' = (case nf_history doc of None \<Rightarrow> with_document now t i doc d
           | Some e \<Rightarrow> add_history now t i (nf_source doc) (nf_hash doc) e keep (with_document now t i doc d))"
proof -
  have sf: "map_option sf_hash (facts_get t i s d) = map_option f_hash (fetch_optional (is_facts t i s) (host_facts d))" for s
    by (simp add: facts_get_def to_stored_def option.map_comp o_def)
  show "valid_source (nf_source doc)"
    using assms by (auto simp: facts_replace_def split: if_splits)
  show "\<exists>h \<in> set (hosts d). is_host t i h"
    using assms fetch_host [of "is_host t i" "hosts d"] by (auto simp: facts_replace_def split: if_splits)
  show "map_option sf_hash (facts_get t i (nf_source doc) d) = nf_expected_previous doc"
    "nf_expected_previous doc \<noteq> Some (nf_hash doc)"
    unfolding sf using assms by (auto simp: facts_replace_def Let_def split: if_splits option.splits)
  show "d' = (case nf_history doc of None \<Rightarrow> with_document now t i doc d
           | Some e \<Rightarrow> add_history now t i (nf_source doc) (nf_hash doc) e keep (with_document now t i doc d))"
    using assms
    by (auto simp: facts_replace_def Let_def with_document_def stored_row_def split: if_splits option.splits)
qed

lemma facts_ok_with_document:
  assumes "facts_ok d" "\<exists>h \<in> set (hosts d). is_host t i h"
  shows "facts_ok (with_document now t i doc d)"
proof -
  have "distinct (map facts_pk (host_facts (with_document now t i doc d)))"
    unfolding with_document_def using assms(1)
    by (auto intro!: distinct_map_upsert simp: facts_ok_def facts_pk_def stored_row_def)
  moreover have "\<exists>h \<in> set (hosts d). is_host (f_tenant r) (f_host r) h"
    if r: "r \<in> set (host_facts (with_document now t i doc d))" for r
  proof -
    have "(f_tenant r = t \<and> f_host r = i)
        \<or> (\<exists>r0 \<in> set (host_facts d). f_tenant r0 = f_tenant r \<and> f_host r0 = f_host r)"
      using r by (auto simp: with_document_def upsert_def set_update_where stored_row_def split: if_splits)
    then show ?thesis using assms by (auto simp: facts_ok_def) metis
  qed
  moreover have "hosts (with_document now t i doc d) = hosts d"
    "host_fact_changes (with_document now t i doc d) = host_fact_changes d"
    by (simp_all add: with_document_def)
  ultimately show ?thesis using assms(1) by (simp add: facts_ok_def)
qed

lemma facts_apply_ok: "facts_ok d \<Longrightarrow> facts_ok (facts_apply op d)"
proof (cases op)
  case (FReplace now t i doc keep)
  assume d: "facts_ok d"
  show ?thesis
  proof (cases "facts_replace now t i doc keep d")
    case (Inr r)
    obtain out d' where r: "r = (out, d')" by (cases r)
    show ?thesis
    proof (cases "out = Stored")
      case True
      note st = facts_replace_stored [OF Inr [unfolded r True]]
      then show ?thesis
        using facts_ok_with_document [OF d st(2)] facts_ok_add_history
        by (simp add: FReplace facts_committed_def Inr r split: option.splits)
    next
      case False
      then have "d' = d"
        using Inr r by (auto simp: facts_replace_def Let_def split: if_splits option.splits)
      with d show ?thesis by (simp add: FReplace facts_committed_def Inr r)
    qed
  qed (use d in \<open>simp add: FReplace facts_committed_def\<close>)
next
  case (FRefresh now t i s h c)
  assume "facts_ok d"
  then show ?thesis
    by (simp add: FRefresh refresh_collected_at_def Let_def facts_ok_def map_update_where facts_pk_def)
       (auto simp: set_update_where)
qed (auto simp: record_refusal_def set_reported_hash_def clear_reported_hash_def facts_delete_def
    delete_source_def Let_def intro: facts_ok_hosts facts_ok_delete)

interpretation facts_store: invariant_ops facts_ok facts_apply
  by unfold_locales (rule facts_apply_ok)

section \<open>Storing a document\<close>

lemma facts_get_history: "facts_get u j s (add_history now t i src h e keep d) = facts_get u j s d"
  by (simp add: facts_get_def add_history_def Let_def)

lemma find_append: "find p (xs @ ys) = (case find p xs of None \<Rightarrow> find p ys | Some x \<Rightarrow> Some x)"
  by (induction xs) auto

lemma find_update_keep:
  "(\<And>r. q r \<Longrightarrow> \<not> p r \<and> \<not> p (f r)) \<Longrightarrow> find p (update_where q f xs) = find p xs"
  by (induction xs) (auto simp: update_where_def)

lemma owner_unique:
  assumes "facts_ok d" "\<exists>h \<in> set (hosts d). is_host t i h" "r \<in> set (host_facts d)" "f_host r = i"
  shows "f_tenant r = t"
proof -
  obtain h h' where h: "h \<in> set (hosts d)" "is_host t i h" and h': "h' \<in> set (hosts d)" "is_host (f_tenant r) i h'"
    using assms by (auto simp: facts_ok_def)
  have "h = h'" using assms(1) h h' by (auto simp: facts_ok_def is_host_def distinct_map dest: inj_onD)
  with h h' show ?thesis by (simp add: is_host_def)
qed

lemma facts_get_stored:
  assumes "facts_ok d" "\<exists>h \<in> set (hosts d). is_host t i h"
  shows "facts_get t i (nf_source doc) (with_document now t i doc d) = Some (to_stored (stored_row now t i doc))"
proof -
  let ?c = "\<lambda>r. f_host r = i \<and> f_source r = nf_source doc"
  let ?d = "with_document now t i doc d"
  have mem: "stored_row now t i doc \<in> set (host_facts ?d)"
  proof (cases "\<exists>r \<in> set (host_facts d). ?c r")
    case True
    then obtain r where r: "r \<in> set (host_facts d)" "?c r" by blast
    then have "f_tenant r = t" using owner_unique [OF assms] by blast
    then have "r\<lparr>f_hash := nf_hash doc, f_json := nf_json doc, f_collected_at := nf_collected_at doc,
            f_received_at := now, f_size_bytes := int (length (nf_json doc))\<rparr> = stored_row now t i doc"
      using r(2) by (simp add: stored_row_def)
    with r True show ?thesis
      by (auto simp: with_document_def upsert_def set_update_where intro: rev_image_eqI)
  qed (auto simp: with_document_def upsert_def)
  have "distinct (map facts_pk (host_facts ?d))"
    using facts_ok_with_document [OF assms] by (simp add: facts_ok_def)
  from find_unique [OF this mem, of "is_facts t i (nf_source doc)"]
  show ?thesis by (simp add: facts_get_def fetch_optional_def is_facts_def facts_pk_def stored_row_def)
qed

lemma facts_get_other:
  assumes "(j, s) \<noteq> (i, nf_source doc)"
  shows "facts_get u j s (with_document now t i doc d) = facts_get u j s d"
proof -
  let ?c = "\<lambda>r. f_host r = i \<and> f_source r = nf_source doc"
  let ?f = "\<lambda>r. r\<lparr>f_hash := nf_hash doc, f_json := nf_json doc, f_collected_at := nf_collected_at doc,
            f_received_at := now, f_size_bytes := int (length (nf_json doc))\<rparr>"
  have "find (is_facts u j s) (update_where ?c ?f (host_facts d)) = find (is_facts u j s) (host_facts d)"
    by (rule find_update_keep) (use assms in \<open>auto simp: is_facts_def\<close>)
  moreover have "\<not> is_facts u j s (stored_row now t i doc)"
    using assms by (auto simp: is_facts_def stored_row_def)
  ultimately show ?thesis
    by (simp add: facts_get_def fetch_optional_def with_document_def upsert_def find_append split: option.splits)
qed

text \<open>
  C12: a document is stored only over the one its sender compared it with, and then exactly as
  sent: the outcome is \<open>Stored\<close> only if the hash held was the expected one and the new hash
  differs; the document then reads back as sent and every other document, of any host and
  source, as before. With any other outcome nothing is written.
\<close>

theorem facts_replace_compare_and_set:
  assumes "facts_ok d" and "facts_replace now t i doc keep d = Inr (outcome, d')"
  shows "if outcome = Stored
     then map_option sf_hash (facts_get t i (nf_source doc) d) = nf_expected_previous doc
        \<and> nf_expected_previous doc \<noteq> Some (nf_hash doc)
        \<and> facts_get t i (nf_source doc) d' =
            Some \<lparr>sf_source = nf_source doc, sf_hash = nf_hash doc, sf_json = nf_json doc,
                  sf_collected_at = nf_collected_at doc, sf_received_at = now,
                  sf_size_bytes = int (length (nf_json doc))\<rparr>
        \<and> (\<forall>u j s. facts_get u j s d' = facts_get u j s d \<or> (j, s) = (i, nf_source doc))
     else d' = d"
proof (cases "outcome = Stored")
  case True
  note st = facts_replace_stored [OF assms(2) [unfolded True]]
  have get: "facts_get u j s d' = facts_get u j s (with_document now t i doc d)" for u j s
    using st(5) by (auto simp: facts_get_history split: option.splits)
  have "facts_get u j s d' = facts_get u j s d \<or> (j, s) = (i, nf_source doc)" for u j s
    unfolding get using facts_get_other by blast
  moreover have "facts_get t i (nf_source doc) d' = Some \<lparr>sf_source = nf_source doc, sf_hash = nf_hash doc,
      sf_json = nf_json doc, sf_collected_at = nf_collected_at doc, sf_received_at = now,
      sf_size_bytes = int (length (nf_json doc))\<rparr>"
    unfolding get using facts_get_stored [OF assms(1) st(2)] by (simp add: to_stored_def stored_row_def)
  ultimately show ?thesis using True st(3,4) by simp
next
  case False
  then show ?thesis
    using assms(2) by (auto simp: facts_replace_def Let_def split: if_splits option.splits)
qed

definition inventory :: "str \<Rightarrow> str option \<Rightarrow> new_facts" where
  "inventory h prev = \<lparr>nf_source = ''agent'', nf_hash = h, nf_json = ''{}'', nf_collected_at = None,
     nf_expected_previous = prev, nf_history = Some ''[]''\<rparr>"

lemmas facts_eval = sample_defs inventory_def facts_replace_def fetch_optional_def is_host_def is_facts_def
  valid_source_def is_lower_def is_digit_def MAX_SOURCE_LEN_def tenant_exists_def Let_def

lemma sample_facts_ok: "facts_ok sample_hosts"
  by (simp add: sample_defs facts_ok_def)

lemma inventory_stored:
  "facts_replace 5 1 ''h'' (inventory ''aa'' None) 10 sample_hosts =
     Inr (Stored, facts_committed sample_hosts (facts_replace 5 1 ''h'' (inventory ''aa'' None) 10 sample_hosts))"
  by (simp add: facts_eval facts_committed_def)

theorem facts_replace_compare_and_set_witness:
  "map_option sf_hash (facts_get 1 ''h'' ''agent''
     (facts_committed sample_hosts (facts_replace 5 1 ''h'' (inventory ''aa'' None) 10 sample_hosts))) = Some ''aa''"
  using facts_replace_compare_and_set [OF sample_facts_ok inventory_stored] by (simp add: inventory_def)



section \<open>History\<close>

lemma order_desc_increasing:
  assumes "sorted_wrt (<) (map f rows)"
  shows "order_desc f rows = rev rows"
proof -
  have "distinct (map f rows)" using assms by (simp add: strict_sorted_iff)
  have "filter (\<lambda>x. - f k = - f x) (rev rows) = filter (\<lambda>x. - f k = - f x) rows" if "k \<in> set (rev rows)" for k
  proof -
    have "filter (\<lambda>x. f k = f x) rows = [k]"
      using that \<open>distinct (map f rows)\<close> by (intro filter_unique [of f]) auto
    then show ?thesis by (simp flip: rev_filter)
  qed
  moreover have "sorted (map (\<lambda>x. - f x) (rev rows))"
  proof -
    have "sorted_wrt (\<lambda>x y. f x < f y) rows" using assms by (simp add: sorted_wrt_map)
    then have "sorted_wrt (\<lambda>x y. - f x \<le> - f y) (rev rows)"
      by (simp add: sorted_wrt_rev) (erule sorted_wrt_mono_rel [rotated], simp)
    then show ?thesis by (simp add: sorted_wrt_map)
  qed
  ultimately show ?thesis
    unfolding order_desc_def by (intro properties_for_sort_key) simp_all
qed

lemma filter_taken:
  "distinct (map g xs) \<Longrightarrow> filter (\<lambda>r. g r \<in> g ` set (take n xs)) xs = take n xs"
proof (induction xs arbitrary: n)
  case (Cons x xs)
  show ?case
  proof (cases n)
    case (Suc k)
    have "filter (\<lambda>r. g r \<in> g ` set (take n (x # xs))) xs = filter (\<lambda>r. g r \<in> g ` set (take k xs)) xs"
    proof (rule filter_cong [OF refl])
      fix r assume "r \<in> set xs"
      then have "g r \<noteq> g x" using Cons.prems by (auto simp: image_iff)
      then show "(g r \<in> g ` set (take n (x # xs))) = (g r \<in> g ` set (take k xs))" by (simp add: Suc)
    qed
    with Cons show ?thesis by (simp add: Suc)
  qed simp
qed simp

text \<open>
  C36: the history of a source is its newest entries: storing a document with an entry puts
  that entry in front of the list and keeps the first \<open>keep_history\<close> of the result.
\<close>

theorem history_keeps_newest:
  assumes "facts_ok d" and "facts_replace now t i doc keep d = Inr (Stored, d')"
    and "nf_history doc = Some entry" and "0 \<le> keep"
  shows "\<exists>new_id. list_changes t i (nf_source doc) (-1) d' =
    take (nat keep)
      (\<lparr>ce_id = new_id, ce_source = nf_source doc, ce_at = now, ce_hash = nf_hash doc,
        ce_changes_json = entry\<rparr> # list_changes t i (nf_source doc) (-1) d)"
proof -
  let ?s = "nf_source doc"
  let ?mine = "filter (is_change t i ?s)"
  define new where "new = \<lparr>fc_id = next_rowid (map fc_id (host_fact_changes d)), fc_tenant = t, fc_host = i,
              fc_source = ?s, fc_at = now, fc_hash = nf_hash doc, fc_changes_json = entry\<rparr>"
  define rows where "rows = host_fact_changes d @ [new]"
  have inc: "sorted_wrt (<) (map fc_id rows)"
    using assms(1) by (auto simp: facts_ok_def sorted_wrt_append next_rowid_fresh rows_def new_def)
  have inc_filter: "sorted_wrt (<) (map fc_id (filter p xs))" if "sorted_wrt (<) (map fc_id xs)" for p xs
    using that by (induction xs) auto
  have newest: "order_desc fc_id (?mine xs) = rev (?mine xs)" if "sorted_wrt (<) (map fc_id xs)" for xs
    using order_desc_increasing inc_filter [OF that] by blast
  have mine: "?mine rows = ?mine (host_fact_changes d) @ [new]" by (simp add: is_change_def rows_def new_def)
  define kept where "kept = take (nat keep) (rev (?mine rows))"
  have d': "host_fact_changes d' =
      filter (\<lambda>r. \<not> (is_change t i ?s r \<and> fc_id r \<notin> fc_id ` set kept)) rows"
  proof -
    have "host_fact_changes d' = delete_where
        (\<lambda>r. is_change t i ?s r \<and> fc_id r \<notin> fc_id ` set (sql_limit keep (order_desc fc_id (?mine rows)))) rows"
      using facts_replace_stored(5) [OF assms(2)] assms(3)
      by (simp add: add_history_def Let_def newest_changes_def with_document_def rows_def new_def)
    then show ?thesis
      using assms(4) by (simp add: newest [OF inc] sql_limit_def kept_def delete_where_def)
  qed
  have "?mine (host_fact_changes d') = filter (\<lambda>r. fc_id r \<in> fc_id ` set kept) (?mine rows)"
    unfolding d' by (auto simp: conj_commute intro!: filter_cong)
  also have "\<dots> = rev kept"
  proof -
    have "distinct (map fc_id (rev (?mine rows)))"
      using inc_filter [OF inc] by (simp add: strict_sorted_iff rev_map [symmetric] del: filter_append)
    from filter_taken [OF this, of "nat keep"] show ?thesis
      by (simp add: kept_def rev_filter [symmetric] rev_swap del: filter_append)
  qed
  finally have "order_desc fc_id (?mine (host_fact_changes d')) = kept"
    using newest [of "host_fact_changes d'"] inc_filter [OF inc] by (simp add: d')
  then have "list_changes t i ?s (-1) d' = take (nat keep)
      (\<lparr>ce_id = fc_id new, ce_source = ?s, ce_at = now, ce_hash = nf_hash doc, ce_changes_json = entry\<rparr>
       # list_changes t i ?s (-1) d)"
    using newest [of "host_fact_changes d"] assms(1)
    by (simp add: list_changes_def newest_changes_def sql_limit_def kept_def mine facts_ok_def flip: take_map)
       (simp add: new_def)
  then show ?thesis by blast
qed

theorem history_keeps_newest_witness:
  "\<exists>new_id. list_changes 1 ''h'' ''agent'' (-1)
      (facts_committed sample_hosts (facts_replace 5 1 ''h'' (inventory ''aa'' None) 10 sample_hosts)) =
    [\<lparr>ce_id = new_id, ce_source = ''agent'', ce_at = 5, ce_hash = ''aa'', ce_changes_json = ''[]''\<rparr>]"
  using history_keeps_newest [OF sample_facts_ok inventory_stored, of "''[]''"]
  by (simp add: inventory_def list_changes_def newest_changes_def sample_defs order_desc_def sql_limit_def)

end
