(* ===== verification/Facts_Catalog.thy ===== *)
theory Facts_Catalog
  imports Facts_Repo
begin

text \<open>
  \<open>crates/server/src/facts/catalog.rs\<close>: the paths and values of the stored documents that the
  selector editor offers, and the cache of built catalogs. The maps are the ordered maps of
  the code; a \<open>HashMap\<close> whose order only the final sort decides is ordered too. The parser
  of JSON text is a parameter.
\<close>

section \<open>Walking a document\<close>

definition MAX_CATALOG_PATHS :: nat where "MAX_CATALOG_PATHS = 2000"
definition MAX_DISTINCT_VALUES :: nat where "MAX_DISTINCT_VALUES = 500"
definition MAX_VALUES_SHOWN :: nat where "MAX_VALUES_SHOWN = 50"
definition MAX_CATALOG_DEPTH :: nat where "MAX_CATALOG_DEPTH = 16"
definition MAX_CATALOG_HOSTS :: int where "MAX_CATALOG_HOSTS = 2000"
definition CATALOG_REFRESH_SECS :: int where "CATALOG_REFRESH_SECS = 60"

datatype path_kind = KScalar | KList | KMap | KMixed

definition merge_kind :: "path_kind \<Rightarrow> path_kind \<Rightarrow> path_kind" where
  "merge_kind k k' = (if k = k' then k else KMixed)"

type_synonym local_paths = "(str \<times> path_kind \<times> (str \<times> unit) list) list"

definition note_path :: "str \<Rightarrow> path_kind \<Rightarrow> str option \<Rightarrow> local_paths \<Rightarrow> local_paths" where
  "note_path path kind v l =
     (let (k, vs) = (case bt_get l path of None \<Rightarrow> (kind, []) | Some e \<Rightarrow> e)
      in bt_insert path (merge_kind k kind,
           case v of None \<Rightarrow> vs | Some s \<Rightarrow> if length s \<le> MAX_VALUE_LEN then bt_insert s () vs else vs) l)"

function (sequential) walk :: "json \<Rightarrow> str \<Rightarrow> nat \<Rightarrow> local_paths \<Rightarrow> local_paths"
and walk_items :: "json list \<Rightarrow> str \<Rightarrow> nat \<Rightarrow> local_paths \<Rightarrow> local_paths"
and walk_children :: "(str \<times> json) list \<Rightarrow> str \<Rightarrow> bool \<Rightarrow> nat \<Rightarrow> local_paths \<Rightarrow> local_paths" where
  "walk v path depth l =
     (case v of
        JNull \<Rightarrow> l
      | JObj m \<Rightarrow>
          walk_children m path False depth
            (fold (\<lambda>kv. note_path path KMap (Some (fst kv))) m (note_path path KMap None l))
      | JArr items \<Rightarrow> walk_items items path depth (note_path path KList None l)
      | _ \<Rightarrow> note_path path KScalar (scalar_text v) l)"
| "walk_items [] path depth l = l"
| "walk_items (item # items) path depth l =
     walk_items items path depth
       (case item of
          JObj r \<Rightarrow> walk_children r path True depth
            (note_path path KList (Option.bind (bt_get r ''id'') as_str) l)
        | _ \<Rightarrow> note_path path KList (scalar_text item) l)"
| "walk_children [] path in_record depth l = l"
| "walk_children (kv # m) path in_record depth l =
     (if depth \<ge> MAX_CATALOG_DEPTH then l
      else walk_children m path in_record depth
        (case child path (fst kv) in_record of None \<Rightarrow> l | Some c \<Rightarrow> walk (snd kv) c (depth + 1) l))"
  by pat_completeness auto
termination
  by (relation "measure (\<lambda>x. case x of
        Inl (v, _) \<Rightarrow> 2 * size v + 1
      | Inr (Inl (items, _)) \<Rightarrow> 2 * size_list size items
      | Inr (Inr (m, _)) \<Rightarrow> 2 * size_list (size_prod (\<lambda>_. 0) size) m)") auto

declare walk.simps [simp del]

definition document_paths :: "json \<Rightarrow> local_paths" where
  "document_paths doc = (case doc of JObj m \<Rightarrow> walk_children m [] False 0 [] | _ \<Rightarrow> [])"

section \<open>Building a catalog\<close>

record path_acc =
  pa_kind :: path_kind
  pa_hosts :: nat
  pa_values :: "(str \<times> nat) list"

record catalog_acc =
  ca_paths :: "(str \<times> path_acc) list"
  ca_truncated :: bool

record catalog_path =
  cp_path :: str
  cp_kind :: path_kind
  cp_hosts :: nat
  cp_values :: "(str \<times> nat) list"

record catalog_source =
  cs_source :: str
  cs_hosts :: nat
  cs_paths :: "catalog_path list"
  cs_truncated :: bool

definition count_value :: "str \<Rightarrow> (str \<times> nat) list \<Rightarrow> (str \<times> nat) list" where
  "count_value v vs =
     (case bt_get vs v of
        Some n \<Rightarrow> bt_insert v (n + 1) vs
      | None \<Rightarrow> if length vs < MAX_DISTINCT_VALUES then bt_insert v 1 vs else vs)"

definition add_path :: "str \<times> path_kind \<times> (str \<times> unit) list \<Rightarrow> catalog_acc \<Rightarrow> catalog_acc" where
  "add_path e c =
     (case e of (path, kind, values) \<Rightarrow>
       if bt_get (ca_paths c) path = None \<and> length (ca_paths c) \<ge> MAX_CATALOG_PATHS
       then c\<lparr>ca_truncated := True\<rparr>
       else let a = (case bt_get (ca_paths c) path of
                None \<Rightarrow> \<lparr>pa_kind = kind, pa_hosts = 0, pa_values = []\<rparr> | Some a \<Rightarrow> a)
            in c\<lparr>ca_paths := bt_insert path
                  \<lparr>pa_kind = merge_kind (pa_kind a) kind, pa_hosts = pa_hosts a + 1,
                   pa_values = fold (\<lambda>v. count_value (fst v)) values (pa_values a)\<rparr> (ca_paths c)\<rparr>)"

definition add_document :: "json \<Rightarrow> catalog_acc \<Rightarrow> catalog_acc" where
  "add_document doc c = fold add_path (document_paths doc) c"

text \<open>Most common first; equally common ones by the value.\<close>

definition catalog_finish :: "str \<Rightarrow> nat \<Rightarrow> catalog_acc \<Rightarrow> catalog_source" where
  "catalog_finish source n c =
     \<lparr>cs_source = source, cs_hosts = n,
      cs_paths = map (\<lambda>(path, a). \<lparr>cp_path = path, cp_kind = pa_kind a, cp_hosts = pa_hosts a,
          cp_values = take MAX_VALUES_SHOWN (sort_key (\<lambda>v. - int (snd v)) (pa_values a))\<rparr>) (ca_paths c),
      cs_truncated = ca_truncated c\<rparr>"

record source_build =
  sb_acc :: catalog_acc
  sb_hosts :: nat
  sb_seen :: int
  sb_cap :: int

definition build_new :: "int \<Rightarrow> source_build" where
  "build_new cap = \<lparr>sb_acc = \<lparr>ca_paths = [], ca_truncated = False\<rparr>, sb_hosts = 0, sb_seen = 0, sb_cap = cap\<rparr>"

definition offer :: "(str \<Rightarrow> json option) \<Rightarrow> str \<Rightarrow> source_build \<Rightarrow> source_build" where
  "offer parse_stored json b =
     (let b1 = b\<lparr>sb_seen := sb_seen b + 1\<rparr> in
      if sb_seen b1 > sb_cap b1 then b1\<lparr>sb_acc := (sb_acc b1)\<lparr>ca_truncated := True\<rparr>\<rparr>
      else case parse_stored json of
          None \<Rightarrow> b1
        | Some doc \<Rightarrow> b1\<lparr>sb_acc := add_document doc (sb_acc b1), sb_hosts := sb_hosts b1 + 1\<rparr>)"

definition build_source :: "(str \<Rightarrow> json option) \<Rightarrow> str \<Rightarrow> (str \<times> str) list \<Rightarrow> catalog_source" where
  "build_source parse_stored source rows =
     (let b = fold (\<lambda>r. offer parse_stored (snd r)) rows (build_new MAX_CATALOG_HOSTS)
      in catalog_finish source (sb_hosts b) (sb_acc b))"

definition build_catalog :: "(str \<Rightarrow> json option) \<Rightarrow> int \<Rightarrow> db \<Rightarrow> catalog_source list" where
  "build_catalog parse_stored t d =
     map (\<lambda>source. build_source parse_stored source (for_each_document t source (MAX_CATALOG_HOSTS + 1) d))
       (order_asc (\<lambda>s. s) (remdups (AGENT_SOURCE # list_sources t d)))"

section \<open>The cache of catalogs\<close>

datatype catalog_change = CStored | CRemoved | COperator

record catalog_generation =
  cg_any :: nat
  cg_removed :: nat

record catalog_cache =
  generations :: "int \<Rightarrow> catalog_generation option"
  built :: "int \<Rightarrow> (catalog_generation \<times> int \<times> catalog_source list) option"

definition catalog_cache_new :: catalog_cache where
  "catalog_cache_new = \<lparr>generations = Map.empty, built = Map.empty\<rparr>"

definition generation_now :: "int \<Rightarrow> catalog_cache \<Rightarrow> catalog_generation" where
  "generation_now t m =
     (case generations m t of None \<Rightarrow> \<lparr>cg_any = 0, cg_removed = 0\<rparr> | Some g \<Rightarrow> g)"

definition catalog_bump :: "int \<Rightarrow> catalog_change \<Rightarrow> catalog_cache \<Rightarrow> catalog_cache" where
  "catalog_bump t change m =
     (let g = generation_now t m in
      m\<lparr>generations := (generations m)(t \<mapsto> \<lparr>cg_any = cg_any g + 1,
          cg_removed = (if change \<noteq> CStored then cg_removed g + 1 else cg_removed g)\<rparr>)\<rparr>)"

definition catalog_lookup ::
  "int \<Rightarrow> int \<Rightarrow> catalog_cache \<Rightarrow> catalog_generation + catalog_source list" where
  "catalog_lookup t now m =
     (let current = generation_now t m in
      case built m t of
        Some (g, at, c) \<Rightarrow>
          if g = current \<or> (cg_removed g = cg_removed current \<and> now - at < CATALOG_REFRESH_SECS
              \<and> (\<exists>s \<in> set c. cs_hosts s > 0))
          then Inr c else Inl current
      | None \<Rightarrow> Inl current)"

definition catalog_keep ::
  "int \<Rightarrow> catalog_generation \<Rightarrow> int \<Rightarrow> catalog_source list \<Rightarrow> catalog_cache \<Rightarrow> catalog_cache" where
  "catalog_keep t g now c m = m\<lparr>built := (built m)(t \<mapsto> (g, now, c))\<rparr>"

text \<open>
  \<open>GET /api/facts/catalog\<close>, one request: the second lookup, under the build lock, is the one
  a sequential request answers from.
\<close>

definition catalog_handler ::
  "(str \<Rightarrow> json option) \<Rightarrow> int \<Rightarrow> int \<Rightarrow> db \<Rightarrow> catalog_cache \<Rightarrow> catalog_source list \<times> catalog_cache" where
  "catalog_handler parse_stored now t d m =
     (case catalog_lookup t now m of
        Inr c \<Rightarrow> (c, m)
      | Inl _ \<Rightarrow>
          (case catalog_lookup t now m of
             Inr c \<Rightarrow> (c, m)
           | Inl g \<Rightarrow>
               let c = build_catalog parse_stored t d in (c, catalog_keep t g now c m)))"

section \<open>What the walk notes is there\<close>

text \<open>The tests the editor writes for a value of a path, by what sits at it.\<close>

fun tests_for :: "path_kind \<Rightarrow> str \<Rightarrow> fact_test_t list" where
  "tests_for KScalar v = [TEq v]"
| "tests_for KMixed v = [TEq v, THas v]"
| "tests_for _ v = [THas v]"

definition at_path :: "json \<Rightarrow> json \<Rightarrow> str \<Rightarrow> bool" where
  "at_path doc v path \<longleftrightarrow> (\<exists>Q. fact_path_try_from path = Inr Q \<and> v \<in> set (resolve Q doc))"

definition shown_true :: "json \<Rightarrow> str \<Rightarrow> path_kind \<Rightarrow> str \<Rightarrow> bool" where
  "shown_true doc path kind v \<longleftrightarrow> (\<exists>w. at_path doc w path \<and> (\<exists>test \<in> set (tests_for kind v). fact_test test w))"

definition paths_true :: "json \<Rightarrow> local_paths \<Rightarrow> bool" where
  "paths_true doc l \<longleftrightarrow> (\<forall>(path, kind, vs) \<in> set l. \<forall>v \<in> fst ` set vs. shown_true doc path kind v)"

lemma tests_merge: "test \<in> set (tests_for k v) \<Longrightarrow> test \<in> set (tests_for (merge_kind k k') v)
    \<and> test \<in> set (tests_for (merge_kind k' k) v)"
  by (cases k; cases k') (auto simp: merge_kind_def)

lemma shown_merge: "shown_true doc path k v \<Longrightarrow> shown_true doc path (merge_kind k k') v \<and> shown_true doc path (merge_kind k' k) v"
  unfolding shown_true_def using tests_merge by metis

lemma note_path_true:
  assumes "paths_true doc l"
    and "\<And>s. v = Some s \<Longrightarrow> shown_true doc path kind s"
  shows "paths_true doc (note_path path kind v l)"
proof -
  obtain k vs where e: "(case bt_get l path of None \<Rightarrow> (kind, []) | Some e \<Rightarrow> e) = (k, vs)" by fastforce
  have old: "shown_true doc path (merge_kind k kind) s" if "s \<in> fst ` set vs" for s
  proof -
    have "(path, k, vs) \<in> set l" using e that by (auto split: option.splits dest: map_of_SomeD)
    then have "shown_true doc path k s" using assms(1) that by (auto simp: paths_true_def)
    then show ?thesis using shown_merge by blast
  qed
  have "shown_true doc path (merge_kind k kind) s" if "v = Some s" for s
    using assms(2) [OF that] shown_merge by blast
  note calculation = this
  have "\<forall>s \<in> fst ` set (case v of None \<Rightarrow> vs | Some s \<Rightarrow> if length s \<le> MAX_VALUE_LEN then bt_insert s () vs else vs).
      shown_true doc path (merge_kind k kind) s"
  proof (cases v)
    case (Some s')
    have "\<forall>s \<in> insert s' (fst ` set vs). shown_true doc path (merge_kind k kind) s"
      using calculation Some old by blast
    then show ?thesis
      unfolding Some option.case bt_keys_insert [of s' "()" vs, symmetric] using old by (cases "length s' \<le> MAX_VALUE_LEN") simp_all
  qed (use old in simp)
  then show ?thesis
    using assms(1) e bt_set_insert_subset [of path _ l]
    unfolding note_path_def paths_true_def Let_def by (fastforce split: prod.splits)
qed

text \<open>A map whose keys are being walked: the document, a map at a path, a record of a list.\<close>

definition map_at :: "json \<Rightarrow> (str \<times> json) list \<Rightarrow> str \<Rightarrow> bool \<Rightarrow> bool" where
  "map_at doc m path in_record \<longleftrightarrow>
     (if in_record then \<exists>items. at_path doc (JArr items) path \<and> JObj m \<in> set items
      else path = [] \<and> doc = JObj m \<or> at_path doc (JObj m) path)"

lemma resolve_segmentI: "v \<in> set vs \<Longrightarrow> w \<in> set (step_key k v) \<Longrightarrow> w \<in> set (concat (map (step_key k) vs))"
  by auto

lemma map_filter_mem: "x \<in> set xs \<Longrightarrow> f x = Some y \<Longrightarrow> y \<in> set (List.map_filter f xs)"
  by (force simp: List.map_filter_def)

lemma at_path_nonempty: "at_path doc v path \<Longrightarrow> path \<noteq> []"
  by (auto simp: at_path_def fact_path_try_from_def parse_def)

lemma child_at:
  assumes "map_at doc m path in_record" and "bt_get m k = Some w" and "child path k in_record = Some p"
  shows "at_path doc w p"
proof -
  have len: "\<not> length p > MAX_FACT_PATH_LEN" using child_length [OF assms(3)] by simp
  show ?thesis
  proof (cases "path = []")
    case True
    then have "doc = JObj m" "\<not> in_record" using assms(1) at_path_nonempty by (auto simp: map_at_def split: if_splits)
    then show ?thesis
      using child_top_parses [of k in_record p] assms(2,3) True len
      by (simp add: at_path_def fact_path_try_from_def resolve_def resolve_segment_def)
  next
    case False
    then obtain v where v: "at_path doc v path" "w \<in> set (step_key k v)" "\<not> in_record \<Longrightarrow> is_object v"
    proof (cases in_record)
      case True
      then obtain items where "at_path doc (JArr items) path" "JObj m \<in> set items"
        using assms(1) by (auto simp: map_at_def)
      then show thesis using that [of "JArr items"] True assms(2) map_filter_mem [of "JObj m" items "\<lambda>i. get_member i k" w]
        by simp
    next
      case rec: False
      then have "at_path doc (JObj m) path" using assms(1) False by (simp add: map_at_def)
      then show thesis using that [of "JObj m"] assms(2) by simp
    qed
    then obtain P where P: "parse path = Inr P" "v \<in> set (resolve P doc)"
      by (auto simp: at_path_def fact_path_try_from_def split: if_splits sum.splits)
    from child_parses [OF P(1) assms(3)] show ?thesis
    proof
      assume "parse p = Inr \<lparr>raw = p, segments = segments P @ [\<lparr>seg_key = k, seg_ids = []\<rparr>]\<rparr>"
      moreover have "w \<in> set (concat (map (step_key k) (resolve P doc)))" using P(2) v(2) by auto
      ultimately show ?thesis
        using len resolve_snoc [of "segments P" k "[doc]"] by (simp add: at_path_def fact_path_try_from_def resolve_def del: fold_append)
    next
      assume a: "\<not> in_record \<and> parse p = Inr \<lparr>raw = p, segments = add_id (segments P) k\<rparr>"
      have "w \<in> set (concat (map (\<lambda>v. pick v k) (resolve P doc)))"
        unfolding set_concat set_map UN_iff using P(2) v(2,3) a pick_object [of v k] by (metis imageI)
      then show ?thesis
        using a len resolve_add_id [OF parse_segmentsD(2) [OF P(1)], of k "[doc]"]
        by (simp add: at_path_def fact_path_try_from_def resolve_def)
    qed
  qed
qed

lemma map_filter_in: "bt_ok m \<Longrightarrow> (k, v) \<in> set m \<Longrightarrow> bt_get m k = Some v"
  by (simp add: bt_get_in_set)

definition child_ctx :: "json \<Rightarrow> (str \<times> json) list \<Rightarrow> str \<Rightarrow> bool \<Rightarrow> bool" where
  "child_ctx doc m path in_record \<longleftrightarrow> (\<exists>whole. map_at doc whole path in_record \<and> set m \<subseteq> set whole \<and> wf_json (JObj whole))"

lemma noted_scalar:
  "at_path doc v path \<Longrightarrow> scalar_text v = Some s \<Longrightarrow> shown_true doc path KScalar s"
  by (auto simp: shown_true_def)

lemma noted_key:
  "at_path doc (JObj m) path \<Longrightarrow> k \<in> fst ` set m \<Longrightarrow> shown_true doc path KMap k"
  unfolding shown_true_def by (intro exI [of _ "JObj m"]) (auto simp: map_of_eq_None_iff)

lemma noted_item:
  "at_path doc (JArr items) path \<Longrightarrow> item \<in> set items \<Longrightarrow>
   (case item of JObj r \<Rightarrow> Option.bind (bt_get r ''id'') as_str | _ \<Rightarrow> scalar_text item) = Some s \<Longrightarrow>
   shown_true doc path KList s"
  unfolding shown_true_def by (intro exI [of _ "JArr items"]) (auto split: json.splits)

lemma walk_true:
  "at_path doc v path \<Longrightarrow> wf_json v \<Longrightarrow> paths_true doc l \<Longrightarrow> paths_true doc (walk v path depth l)"
  and walk_items_true: "(\<exists>all. at_path doc (JArr all) path \<and> set items \<subseteq> set all) \<Longrightarrow> \<forall>x \<in> set items. wf_json x \<Longrightarrow> paths_true doc l \<Longrightarrow>
    paths_true doc (walk_items items path depth l)"
  and walk_children_true: "child_ctx doc m path r \<Longrightarrow> paths_true doc l \<Longrightarrow> paths_true doc (walk_children m path r depth l)"
proof (induction v path depth l and items path depth l and m path r depth l rule: walk_walk_items_walk_children.induct)
  case (1 v path depth l)
  show ?case
  proof (cases v)
    case (JObj m)
    have "paths_true doc (fold (\<lambda>kv. note_path path KMap (Some (fst kv))) xs (note_path path KMap None l))"
      if "set xs \<subseteq> set m" for xs
      using that
    proof (induction xs rule: rev_induct)
      case Nil
      show ?case using 1 by (auto intro: note_path_true)
    next
      case (snoc kv xs)
      then show ?case using 1(3) JObj by (auto intro!: note_path_true noted_key)
    qed
    then show ?thesis
      using 1 JObj by (auto simp: walk.simps child_ctx_def map_at_def)
  next
    case (JArr items)
    then show ?thesis using 1 by (auto simp: walk.simps intro!: note_path_true)
  qed (use 1 in \<open>auto simp: walk.simps intro!: note_path_true noted_scalar\<close>)
next
  case (2 path depth l)
  then show ?case by (simp add: walk.simps)
next
  case (3 item items path depth l)
  obtain whole where whole: "at_path doc (JArr whole) path" "set (item # items) \<subseteq> set whole" using 3 by blast
  have "paths_true doc (case item of
          JObj r \<Rightarrow> walk_children r path True depth (note_path path KList (Option.bind (bt_get r ''id'') as_str) l)
        | _ \<Rightarrow> note_path path KList (scalar_text item) l)"
  proof (cases item)
    case (JObj r)
    have "paths_true doc (note_path path KList (Option.bind (bt_get r ''id'') as_str) l)"
      using whole 3(5) JObj by (intro note_path_true noted_item) auto
    moreover have "child_ctx doc r path True"
      using whole JObj 3(4) unfolding child_ctx_def map_at_def by auto
    ultimately show ?thesis using 3(1) [OF JObj] JObj by simp
  qed (use whole 3(5) in \<open>auto intro!: note_path_true noted_item\<close>)
  then show ?case using 3(2) whole 3(4) by (auto simp: walk.simps)
next
  case (4 path in_record depth l)
  then show ?case by (simp add: walk.simps)
next
  case (5 kv m path in_record depth l)
  obtain whole where w: "map_at doc whole path in_record" "set (kv # m) \<subseteq> set whole" "wf_json (JObj whole)"
    using 5(3) unfolding child_ctx_def by blast
  have ctx: "child_ctx doc m path in_record" using w unfolding child_ctx_def by auto
  have get: "bt_get whole (fst kv) = Some (snd kv)" "wf_json (snd kv)"
    using w by (auto simp: bt_get_in_set)
  have "paths_true doc (case child path (fst kv) in_record of None \<Rightarrow> l | Some c \<Rightarrow> walk (snd kv) c (depth + 1) l)"
    if "\<not> depth \<ge> MAX_CATALOG_DEPTH"
    using 5(1) [OF that] child_at [OF w(1) get(1)] get(2) 5(4) by (auto split: option.split)
  then show ?case using 5(2) ctx 5(4) by (auto simp: walk.simps)
qed

section \<open>What a catalog lists\<close>

lemma document_paths_true: "wf_json doc \<Longrightarrow> paths_true doc (document_paths doc)"
  by (cases doc) (auto simp: document_paths_def paths_true_def [of _ "[]"] child_ctx_def map_at_def intro!: walk_children_true)

definition acc_true :: "json set \<Rightarrow> catalog_acc \<Rightarrow> bool" where
  "acc_true docs c \<longleftrightarrow> bt_ok (ca_paths c) \<and> length (ca_paths c) \<le> MAX_CATALOG_PATHS \<and> (\<forall>(path, a) \<in> set (ca_paths c).
     bt_ok (pa_values a) \<and> length (pa_values a) \<le> MAX_DISTINCT_VALUES
     \<and> (\<forall>v \<in> fst ` set (pa_values a). \<exists>doc \<in> docs. shown_true doc path (pa_kind a) v))"

lemma length_bt_insert_le: "length (bt_insert k v m) \<le> Suc (length m)"
  by (induction m) auto

lemma length_bt_insert_present:
  "bt_ok m \<Longrightarrow> bt_get m k \<noteq> None \<Longrightarrow> length (bt_insert k v m) = length m"
proof (induction m)
  case (Cons e m)
  obtain a b where e: "e = (a, b)" by (cases e)
  have "\<not> k < a"
  proof
    assume "k < a"
    with Cons.prems e have "k \<in> fst ` set m" by (auto dest!: map_of_SomeD simp: image_iff split: if_splits) force
    with Cons.prems e \<open>k < a\<close> show False by (auto simp: bt_ok_Cons)
  qed
  with Cons e show ?case by (auto simp: bt_ok_Cons split: if_splits)
qed simp

lemma count_value_ok:
  assumes "bt_ok vs" "length vs \<le> MAX_DISTINCT_VALUES"
  shows "bt_ok (count_value v vs) \<and> length (count_value v vs) \<le> MAX_DISTINCT_VALUES
    \<and> fst ` set (count_value v vs) \<subseteq> insert v (fst ` set vs)"
  using assms length_bt_insert_present [of vs v] length_bt_insert_le [of v 1 vs]
  by (auto simp: count_value_def split: option.split)

lemma count_values_ok:
  "bt_ok vs \<Longrightarrow> length vs \<le> MAX_DISTINCT_VALUES \<Longrightarrow>
   bt_ok (fold (\<lambda>v. count_value (fst v)) us vs) \<and> length (fold (\<lambda>v. count_value (fst v)) us vs) \<le> MAX_DISTINCT_VALUES
   \<and> fst ` set (fold (\<lambda>v. count_value (fst v)) us vs) \<subseteq> fst ` set us \<union> fst ` set vs"
proof (induction us arbitrary: vs)
  case (Cons u us)
  note u = count_value_ok [OF Cons.prems, of "fst u"]
  then have "bt_ok (count_value (fst u) vs)" "length (count_value (fst u) vs) \<le> MAX_DISTINCT_VALUES" by simp_all
  note rest = Cons.IH [OF this]
  have "fst ` set (fold (\<lambda>v. count_value (fst v)) us (count_value (fst u) vs)) \<subseteq> insert (fst u) (fst ` set us \<union> fst ` set vs)"
    using u rest by blast
  then show ?case using rest by simp
qed simp

lemma add_path_true:
  assumes acc: "acc_true docs c" and doc: "doc \<in> docs" and e: "\<forall>v \<in> fst ` set vs. shown_true doc path kind v"
  shows "acc_true docs (add_path (path, kind, vs) c)"
proof (cases "bt_get (ca_paths c) path = None \<and> length (ca_paths c) \<ge> MAX_CATALOG_PATHS")
  case True
  with acc show ?thesis by (simp add: add_path_def acc_true_def)
next
  case False
  define a where "a = (case bt_get (ca_paths c) path of
      None \<Rightarrow> \<lparr>pa_kind = kind, pa_hosts = 0, pa_values = []\<rparr> | Some a \<Rightarrow> a)"
  have a: "bt_ok (pa_values a)" "length (pa_values a) \<le> MAX_DISTINCT_VALUES"
    "\<forall>v \<in> fst ` set (pa_values a). \<exists>doc \<in> docs. shown_true doc path (pa_kind a) v"
    using acc unfolding acc_true_def a_def by (auto split: option.split dest!: map_of_SomeD)
  note vals = count_values_ok [OF a(1,2), of vs]
  have shown: "\<exists>doc \<in> docs. shown_true doc path (merge_kind (pa_kind a) kind) v"
    if "v \<in> fst ` set (fold (\<lambda>v. count_value (fst v)) vs (pa_values a))" for v
  proof -
    have "v \<in> fst ` set vs \<or> v \<in> fst ` set (pa_values a)" using that vals by blast
    then show ?thesis
    proof
      assume "v \<in> fst ` set vs"
      then have "shown_true doc path kind v" using e by blast
      then show ?thesis using doc shown_merge by blast
    next
      assume "v \<in> fst ` set (pa_values a)"
      then obtain doc' where "doc' \<in> docs" "shown_true doc' path (pa_kind a) v" using a(3) by blast
      then show ?thesis using shown_merge by blast
    qed
  qed
  have len: "length (bt_insert path x (ca_paths c)) \<le> MAX_CATALOG_PATHS" for x
    using False acc length_bt_insert_present [of "ca_paths c" path x] length_bt_insert_le [of path x "ca_paths c"]
    unfolding acc_true_def by fastforce
  have "add_path (path, kind, vs) c = c\<lparr>ca_paths := bt_insert path
        \<lparr>pa_kind = merge_kind (pa_kind a) kind, pa_hosts = pa_hosts a + 1,
         pa_values = fold (\<lambda>v. count_value (fst v)) vs (pa_values a)\<rparr> (ca_paths c)\<rparr>"
    using False by (auto simp: add_path_def a_def Let_def)
  then show ?thesis
    using acc vals shown len bt_set_insert_subset unfolding acc_true_def by fastforce
qed

lemma add_document_true:
  assumes "acc_true docs c" "doc \<in> docs" "wf_json doc"
  shows "acc_true docs (add_document doc c)"
proof -
  have "acc_true docs (fold add_path xs c)" if "set xs \<subseteq> set (document_paths doc)" for xs
    using that
  proof (induction xs rule: rev_induct)
    case (snoc e xs)
    obtain path kind vs where e: "e = (path, kind, vs)" by (cases e)
    have "\<forall>v \<in> fst ` set vs. shown_true doc path kind v"
      using document_paths_true [OF assms(3)] snoc.prems e unfolding paths_true_def by fastforce
    then show ?case using snoc e assms(2) by (simp add: add_path_true)
  qed (use assms in simp)
  then show ?thesis by (simp add: add_document_def)
qed

lemma offer_true:
  assumes "acc_true docs (sb_acc b)" and "\<And>doc. read_doc json = Some doc \<Longrightarrow> doc \<in> docs \<and> wf_json doc"
  shows "acc_true docs (sb_acc (offer read_doc json b))"
proof -
  have trunc: "acc_true docs (c\<lparr>ca_truncated := True\<rparr>)" if "acc_true docs c" for c
    using that by (simp add: acc_true_def)
  show ?thesis
    using assms add_document_true [of docs "sb_acc b"] trunc by (simp add: offer_def Let_def split: option.split)
qed

lemma build_source_true:
  assumes wf: "\<And>json doc. read_doc json = Some doc \<Longrightarrow> wf_json doc"
    and docs: "\<And>json doc. json \<in> snd ` set rows \<Longrightarrow> read_doc json = Some doc \<Longrightarrow> doc \<in> docs"
  shows "acc_true docs (sb_acc (fold (\<lambda>r. offer read_doc (snd r)) rows (build_new cap)))"
proof -
  have "acc_true docs (sb_acc (fold (\<lambda>r. offer read_doc (snd r)) xs (build_new cap)))" if "set xs \<subseteq> set rows" for xs
    using that
  proof (induction xs rule: rev_induct)
    case Nil
    show ?case by (simp add: build_new_def acc_true_def)
  next
    case (snoc r xs)
    then have "snd r \<in> snd ` set rows" by auto
    with snoc show ?case using docs [of "snd r"] by (auto intro!: offer_true wf)
  qed
  then show ?thesis by simp
qed

lemma for_each_document_rows:
  "x \<in> set (for_each_document t source n d) \<Longrightarrow>
   \<exists>r \<in> set (host_facts d). f_tenant r = t \<and> f_source r = source \<and> x = (f_host r, f_json r)"
  by (auto simp: for_each_document_def sql_limit_def order_asc_def dest!: in_set_takeD split: if_splits)

text \<open>
  C30: what the selector editor offers is there: a test written with a path and a value of the
  catalog, the test its kind calls for, is a valid leaf and matches the document of at least
  one host of the tenant; and no source lists more than \<open>MAX_CATALOG_PATHS\<close> paths, nor a
  path more than \<open>MAX_VALUES_SHOWN\<close> values.
\<close>

theorem catalog_offers_match:
  assumes wf: "\<forall>json doc. read_doc json = Some doc \<longrightarrow> wf_json doc"
    and cs: "cs \<in> set (build_catalog read_doc t d)" and p: "p \<in> set (cs_paths cs)" and v: "(v, n) \<in> set (cp_values p)"
  shows "(\<exists>r \<in> set (host_facts d). f_tenant r = t \<and> f_source r = cs_source cs
      \<and> (\<exists>doc Q test. read_doc (f_json r) = Some doc \<and> fact_path_try_from (cp_path p) = Inr Q
          \<and> test \<in> set (tests_for (cp_kind p) v) \<and> eval (Fact (cs_source cs) Q test) tags [cs_source cs \<mapsto> doc]))
    \<and> length (cs_paths cs) \<le> MAX_CATALOG_PATHS \<and> length (cp_values p) \<le> MAX_VALUES_SHOWN"
proof -
  obtain source where source: "cs = build_source read_doc source (for_each_document t source (MAX_CATALOG_HOSTS + 1) d)"
    using cs by (auto simp: build_catalog_def)
  let ?rows = "for_each_document t source (MAX_CATALOG_HOSTS + 1) d"
  let ?docs = "{doc. \<exists>r \<in> set (host_facts d). f_tenant r = t \<and> f_source r = source \<and> read_doc (f_json r) = Some doc}"
  let ?b = "fold (\<lambda>r. offer read_doc (snd r)) ?rows (build_new MAX_CATALOG_HOSTS)"
  have acc: "acc_true ?docs (sb_acc ?b)"
    by (rule build_source_true) (use wf in \<open>auto dest!: for_each_document_rows\<close>)
  have src: "cs_source cs = source" by (simp add: source build_source_def Let_def catalog_finish_def)
  obtain path a where pa: "(path, a) \<in> set (ca_paths (sb_acc ?b))" "cp_path p = path" "cp_kind p = pa_kind a"
    "cp_values p = take MAX_VALUES_SHOWN (sort_key (\<lambda>v. - int (snd v)) (pa_values a))"
    using p by (auto simp: source build_source_def Let_def catalog_finish_def)
  have "(v, n) \<in> set (pa_values a)" using v pa(4) by (auto dest: in_set_takeD)
  then have "v \<in> fst ` set (pa_values a)" by force
  then obtain doc where "doc \<in> ?docs" "shown_true doc path (pa_kind a) v"
    using acc pa(1) unfolding acc_true_def by blast
  then have "\<exists>r \<in> set (host_facts d). f_tenant r = t \<and> f_source r = cs_source cs
      \<and> (\<exists>doc Q test. read_doc (f_json r) = Some doc \<and> fact_path_try_from (cp_path p) = Inr Q
          \<and> test \<in> set (tests_for (cp_kind p) v) \<and> eval (Fact (cs_source cs) Q test) tags [cs_source cs \<mapsto> doc])"
    unfolding src pa(2,3) shown_true_def at_path_def by (simp only: eval.simps fun_upd_same option.case) blast
  moreover have "length (cs_paths cs) \<le> MAX_CATALOG_PATHS"
    using acc by (simp add: source build_source_def Let_def catalog_finish_def acc_true_def)
  ultimately show ?thesis by (simp add: pa(4))
qed

text \<open>One host with one fact.\<close>

definition sample_doc :: json where
  "sample_doc = JObj [(''os'', JStr ''linux'')]"

definition sample_reader :: "str \<Rightarrow> json option" where
  "sample_reader s = (if s = ''D'' then Some sample_doc else None)"

definition sample_inventory :: db where
  "sample_inventory = empty_db\<lparr>host_facts := [\<lparr>f_tenant = 1, f_host = ''h'', f_source = ''agent'', f_hash = ''aa'',
     f_json = ''D'', f_collected_at = None, f_received_at = 0, f_size_bytes = 1\<rparr>]\<rparr>"

lemma sample_catalog:
  "build_catalog sample_reader 1 sample_inventory = [\<lparr>cs_source = ''agent'', cs_hosts = 1,
     cs_paths = [\<lparr>cp_path = ''os'', cp_kind = KScalar, cp_hosts = 1, cp_values = [(''linux'', 1)]\<rparr>],
     cs_truncated = False\<rparr>]"
proof -
  have paths: "document_paths sample_doc = [(''os'', KScalar, [(''linux'', ())])]"
    by (simp add: document_paths_def sample_doc_def walk.simps note_path_def MAX_CATALOG_DEPTH_def MAX_VALUE_LEN_def
        child_def is_delim_def MAX_FACT_PATH_LEN_def merge_kind_def)
  have rows: "for_each_document 1 ''agent'' (MAX_CATALOG_HOSTS + 1) sample_inventory = [(''h'', ''D'')]"
    by (simp add: for_each_document_def sample_inventory_def sql_limit_def MAX_CATALOG_HOSTS_def order_asc_def)
  have acc: "add_document sample_doc \<lparr>ca_paths = [], ca_truncated = False\<rparr> =
      \<lparr>ca_paths = [(''os'', \<lparr>pa_kind = KScalar, pa_hosts = 1, pa_values = [(''linux'', 1)]\<rparr>)], ca_truncated = False\<rparr>"
    by (simp add: add_document_def paths add_path_def count_value_def MAX_CATALOG_PATHS_def MAX_DISTINCT_VALUES_def
        merge_kind_def)
  have src: "build_source sample_reader ''agent'' [(''h'', ''D'')] = \<lparr>cs_source = ''agent'', cs_hosts = 1,
     cs_paths = [\<lparr>cp_path = ''os'', cp_kind = KScalar, cp_hosts = 1, cp_values = [(''linux'', 1)]\<rparr>],
     cs_truncated = False\<rparr>"
    by (simp add: build_source_def build_new_def offer_def sample_reader_def acc catalog_finish_def Let_def
        MAX_CATALOG_HOSTS_def MAX_VALUES_SHOWN_def)
  have "list_sources 1 sample_inventory = [''agent'']"
    by (simp add: list_sources_def sample_inventory_def order_asc_def)
  then show ?thesis
    by (simp add: build_catalog_def AGENT_SOURCE_def order_asc_def rows src)
qed

theorem catalog_offers_match_witness:
  "\<exists>Q. fact_path_try_from ''os'' = Inr Q \<and> eval (Fact ''agent'' Q (TEq ''linux'')) Map.empty [''agent'' \<mapsto> sample_doc]"
proof -
  have wf: "\<forall>json doc. sample_reader json = Some doc \<longrightarrow> wf_json doc"
    by (auto simp: sample_reader_def sample_doc_def bt_ok_def split: if_splits)
  let ?p = "\<lparr>cp_path = ''os'', cp_kind = KScalar, cp_hosts = 1, cp_values = [(''linux'', 1)]\<rparr>"
  let ?cs = "\<lparr>cs_source = ''agent'', cs_hosts = 1, cs_paths = [?p], cs_truncated = False\<rparr>"
  have "?cs \<in> set (build_catalog sample_reader 1 sample_inventory)" "?p \<in> set (cs_paths ?cs)"
    "(''linux'', 1) \<in> set (cp_values ?p)"
    by (simp_all add: sample_catalog)
  note found = catalog_offers_match [OF wf this, where tags = Map.empty]
  have "sample_reader json = Some doc \<Longrightarrow> doc = sample_doc" for json doc
    by (simp add: sample_reader_def split: if_splits)
  with found show ?thesis by auto
qed

end
