(* ===== verification/Tenants_Repo.thy ===== *)
theory Tenants_Repo
  imports Users_Repo
begin

text \<open>
  \<open>crates/storage/src/repos/tenants.rs\<close> (\<open>TenantRepo\<close>, \<open>TenantSecretsRepo\<close>,
  \<open>TenantBundleKeysRepo\<close>, \<open>PlatformSettingsRepo\<close>) and \<open>audit.rs\<close>: one definition per
  method. The trigger of migration \<open>0011_tenant_slug_shape.sql\<close> is part of the insert.
\<close>

section \<open>Tenants\<close>

record tenant =
  te_id :: int
  te_slug :: str
  te_name :: str
  te_tier :: str
  te_tier_overrides_json :: "str option"
  te_trial_expires_at :: "int option"
  te_config_version :: int
  te_created_at :: int

definition map_tenant :: "tenant_row \<Rightarrow> tenant" where
  "map_tenant r = \<lparr>te_id = t_id r, te_slug = t_slug r, te_name = t_name r, te_tier = t_tier r,
     te_tier_overrides_json = t_tier_overrides_json r, te_trial_expires_at = t_trial_expires_at r,
     te_config_version = t_config_version r, te_created_at = t_created_at r\<rparr>"

text \<open>The trigger's condition: \<open>length\<close> counts characters, \<open>GLOB\<close> matches them.\<close>

definition slug_shape_refused :: "str \<Rightarrow> bool" where
  "slug_shape_refused s \<longleftrightarrow> s = [] \<or> length (chars s) > 63
     \<or> list_ex (\<lambda>c. \<not> list_all (\<lambda>b. is_lower b \<or> is_digit b \<or> b = CHR ''-'') c) (chars s)
     \<or> hd s = CHR ''-'' \<or> last s = CHR ''-''"

definition tenant_create :: "int \<Rightarrow> str \<Rightarrow> str \<Rightarrow> str \<Rightarrow> int option \<Rightarrow> db \<Rightarrow> sql_error + tenant \<times> db" where
  "tenant_create now slug name tier trial d =
     (let row = \<lparr>t_id = next_rowid (map t_id (tenants d)), t_slug = slug, t_name = name, t_tier = tier,
            t_trial_expires_at = trial, t_config_version = 0, t_created_at = now,
            t_tier_overrides_json = None\<rparr> in
      if slug_shape_refused slug then Inl CheckViolation
      else if \<exists>r \<in> set (tenants d). t_slug r = slug then Inl UniqueViolation
      else Inr (map_tenant row, d\<lparr>tenants := tenants d @ [row]\<rparr>))"

definition tenant_get :: "int \<Rightarrow> db \<Rightarrow> tenant option" where
  "tenant_get t d = map_option map_tenant (fetch_optional (\<lambda>r. t_id r = t) (tenants d))"

definition get_by_slug :: "str \<Rightarrow> db \<Rightarrow> tenant option" where
  "get_by_slug slug d = map_option map_tenant (fetch_optional (\<lambda>r. t_slug r = slug) (tenants d))"

record tenant_summary =
  sm_tenant :: tenant
  sm_user_count :: nat
  sm_blocked_user_count :: nat
  sm_host_count :: nat
  sm_local_config_host_count :: nat

definition summaries :: "int \<Rightarrow> int option \<Rightarrow> db \<Rightarrow> tenant_summary list" where
  "summaries now only_tenant d =
     map (\<lambda>t. \<lparr>sm_tenant = map_tenant t,
         sm_user_count = affected (\<lambda>u. u_tenant u = t_id t) (users d),
         sm_blocked_user_count = affected (\<lambda>u. u_tenant u = t_id t \<and> u_blocked_at u \<noteq> None) (users d),
         sm_host_count = affected (\<lambda>h. h_tenant h = t_id t \<and>
           (h_enrolled_at h \<noteq> None \<or> h_enrolled_at h = None \<and> h_created_at h > now - 86400)) (hosts d),
         sm_local_config_host_count =
           affected (\<lambda>h. h_tenant h = t_id t \<and> h_local_config_present h = Some 1) (hosts d)\<rparr>)
       (order_desc t_created_at
         (case only_tenant of None \<Rightarrow> tenants d | Some i \<Rightarrow> filter (\<lambda>t. t_id t = i) (tenants d)))"

definition list_with_counts :: "int \<Rightarrow> db \<Rightarrow> tenant_summary list" where
  "list_with_counts now d = summaries now None d"

definition get_with_counts :: "int \<Rightarrow> int \<Rightarrow> db \<Rightarrow> tenant_summary option" where
  "get_with_counts now t d = (case summaries now (Some t) d of [] \<Rightarrow> None | x # _ \<Rightarrow> Some x)"

definition update_subscription :: "int \<Rightarrow> str \<Rightarrow> int option \<Rightarrow> str option \<Rightarrow> db \<Rightarrow> bool \<times> db" where
  "update_subscription t tier trial overrides d =
     (affected (\<lambda>r. t_id r = t) (tenants d) > 0,
      d\<lparr>tenants := update_where (\<lambda>r. t_id r = t)
          (\<lambda>r. r\<lparr>t_tier := tier, t_trial_expires_at := trial, t_tier_overrides_json := overrides\<rparr>) (tenants d)\<rparr>)"

definition set_tier_overrides :: "int \<Rightarrow> str option \<Rightarrow> db \<Rightarrow> bool \<times> db" where
  "set_tier_overrides t overrides d =
     (affected (\<lambda>r. t_id r = t) (tenants d) > 0,
      d\<lparr>tenants := update_where (\<lambda>r. t_id r = t)
          (\<lambda>r. r\<lparr>t_tier_overrides_json := overrides\<rparr>) (tenants d)\<rparr>)"

definition bump_version :: "int \<Rightarrow> tenant_row list \<Rightarrow> tenant_row list" where
  "bump_version t rows =
     update_where (\<lambda>r. t_id r = t) (\<lambda>r. r\<lparr>t_config_version := t_config_version r + 1\<rparr>) rows"

definition bump_config_version :: "int \<Rightarrow> db \<Rightarrow> sql_error + int \<times> db" where
  "bump_config_version t d =
     (let rows = bump_version t (tenants d) in
      case fetch_optional (\<lambda>r. t_id r = t) rows of
        None \<Rightarrow> Inl RowNotFound
      | Some r \<Rightarrow> Inr (t_config_version r, d\<lparr>tenants := rows\<rparr>))"

section \<open>Tenant secrets\<close>

record stored_secrets =
  sec_tenant_id :: int
  sec_ca_cert_pem :: str
  sec_ca_key_encrypted :: bytes
  sec_ca_subject_dn :: str
  sec_bundle_signing_pub_pem :: str
  sec_bundle_signing_key_encrypted :: bytes

definition secrets_create ::
  "int \<Rightarrow> int \<Rightarrow> str \<Rightarrow> bytes \<Rightarrow> str \<Rightarrow> str \<Rightarrow> bytes \<Rightarrow> db \<Rightarrow> sql_error + db" where
  "secrets_create now t cert key dn pub signing d =
     (if \<exists>r \<in> set (tenant_secrets d). ts_tenant r = t \<or> ts_ca_subject_dn r = dn then Inl UniqueViolation
      else if \<not> tenant_exists t d then Inl ForeignKeyViolation
      else Inr (d\<lparr>tenant_secrets := tenant_secrets d @
        [\<lparr>ts_tenant = t, ts_ca_cert_pem = cert, ts_ca_key_encrypted = key, ts_ca_subject_dn = dn,
          ts_bundle_signing_pub_pem = pub, ts_bundle_signing_key_encrypted = signing, ts_created_at = now\<rparr>]\<rparr>))"

definition get_by_tenant :: "int \<Rightarrow> db \<Rightarrow> stored_secrets option" where
  "get_by_tenant t d =
     map_option (\<lambda>r. \<lparr>sec_tenant_id = ts_tenant r, sec_ca_cert_pem = ts_ca_cert_pem r,
         sec_ca_key_encrypted = ts_ca_key_encrypted r, sec_ca_subject_dn = ts_ca_subject_dn r,
         sec_bundle_signing_pub_pem = ts_bundle_signing_pub_pem r,
         sec_bundle_signing_key_encrypted = ts_bundle_signing_key_encrypted r\<rparr>)
       (fetch_optional (\<lambda>r. ts_tenant r = t) (tenant_secrets d))"

definition replace_encrypted_keys :: "int \<Rightarrow> bytes \<Rightarrow> bytes \<Rightarrow> db \<Rightarrow> db" where
  "replace_encrypted_keys t key signing d =
     d\<lparr>tenant_secrets := update_where (\<lambda>r. ts_tenant r = t)
         (\<lambda>r. r\<lparr>ts_ca_key_encrypted := key, ts_bundle_signing_key_encrypted := signing\<rparr>) (tenant_secrets d)\<rparr>"

text \<open>An inner join of the secrets with their tenants, one row for each secret that has one.\<close>

definition with_tenant :: "secrets_row list \<Rightarrow> tenant_row list \<Rightarrow> (secrets_row \<times> tenant_row) list" where
  "with_tenant ss ts = concat (map (\<lambda>s. map (Pair s) (filter (\<lambda>t. t_id t = ts_tenant s) ts)) ss)"

record ca_summary =
  ca_tenant_id :: int
  ca_tenant_slug :: str
  ca_ca_cert_pem :: str
  ca_ca_subject_dn :: str

definition list_all_cas :: "db \<Rightarrow> ca_summary list" where
  "list_all_cas d =
     map (\<lambda>(s, t). \<lparr>ca_tenant_id = ts_tenant s, ca_tenant_slug = t_slug t,
         ca_ca_cert_pem = ts_ca_cert_pem s, ca_ca_subject_dn = ts_ca_subject_dn s\<rparr>)
       (with_tenant (tenant_secrets d) (tenants d))"

definition lookup_by_ca_subject_dn :: "str \<Rightarrow> db \<Rightarrow> (int \<times> str) option" where
  "lookup_by_ca_subject_dn dn d =
     map_option (\<lambda>(s, t). (ts_tenant s, t_slug t))
       (fetch_optional (\<lambda>(s, t). ts_ca_subject_dn s = dn) (with_tenant (tenant_secrets d) (tenants d)))"

section \<open>Bundle keys and settings\<close>

definition bundle_key_get :: "int \<Rightarrow> db \<Rightarrow> str option" where
  "bundle_key_get t d = map_option bk_fingerprint (fetch_optional (\<lambda>r. bk_tenant r = t) (tenant_bundle_keys d))"

definition bundle_key_set :: "int \<Rightarrow> int \<Rightarrow> str \<Rightarrow> int option \<Rightarrow> db \<Rightarrow> sql_error + db" where
  "bundle_key_set now t fp by_user d =
     (let row = \<lparr>bk_tenant = t, bk_fingerprint = fp, bk_created_at = now, bk_created_by_user = by_user\<rparr> in
      if \<not> tenant_exists t d then Inl ForeignKeyViolation
      else Inr (d\<lparr>tenant_bundle_keys := upsert (\<lambda>r. bk_tenant r = t) (\<lambda>_. row) row (tenant_bundle_keys d)\<rparr>))"

definition setting_get :: "str \<Rightarrow> db \<Rightarrow> str option" where
  "setting_get key d = map_option ps_value (fetch_optional (\<lambda>r. ps_key r = key) (platform_settings d))"

definition setting_set :: "int \<Rightarrow> str \<Rightarrow> str \<Rightarrow> int option \<Rightarrow> db \<Rightarrow> sql_error + db" where
  "setting_set now key val by_user d =
     (let row = \<lparr>ps_key = key, ps_value = val, ps_updated_at = now, ps_updated_by_user = by_user\<rparr> in
      if (case by_user of None \<Rightarrow> False | Some u \<Rightarrow> \<not> user_id_exists u d) then Inl ForeignKeyViolation
      else Inr (d\<lparr>platform_settings := upsert (\<lambda>r. ps_key r = key) (\<lambda>_. row) row (platform_settings d)\<rparr>))"

section \<open>The audit log\<close>

definition audit_record ::
  "int \<Rightarrow> int \<Rightarrow> int option \<Rightarrow> str \<Rightarrow> str \<Rightarrow> str \<Rightarrow> str option \<Rightarrow> db \<Rightarrow> sql_error + db" where
  "audit_record now t u action ttype tid metadata d =
     (if \<not> tenant_exists t d \<or> (case u of None \<Rightarrow> False | Some i \<Rightarrow> \<not> user_id_exists i d)
      then Inl ForeignKeyViolation
      else Inr (d\<lparr>audit_log := audit_log d @
        [\<lparr>au_id = next_rowid (map au_id (audit_log d)), au_tenant = t, au_user = u, au_action = action,
          au_target_type = ttype, au_target_id = tid, au_metadata_json = metadata, au_ts = now\<rparr>]\<rparr>))"

text \<open>
  \<open>LIKE\<close>, on code points: \<open>%\<close> matches any run, \<open>_\<close> any one, and ASCII letters match
  without regard to case.
\<close>

definition lower_cp :: "str \<Rightarrow> str" where
  "lower_cp c = map (\<lambda>b. if CHR ''A'' \<le> b \<and> b \<le> CHR ''Z'' then char_of ((of_char b :: nat) + 32) else b) c"

fun like_chars :: "str list \<Rightarrow> str list \<Rightarrow> bool" where
  "like_chars [] s = (s = [])"
| "like_chars (p # ps) [] = (p = ''%'' \<and> like_chars ps [])"
| "like_chars (p # ps) (c # s) =
     (if p = ''%'' then like_chars ps (c # s) \<or> like_chars (p # ps) s
      else (p = ''_'' \<or> lower_cp p = lower_cp c) \<and> like_chars ps s)"

definition like :: "str \<Rightarrow> str \<Rightarrow> bool" where
  "like s pat = like_chars (chars pat) (chars s)"

definition audit_list :: "int \<Rightarrow> str option \<Rightarrow> int option \<Rightarrow> nat \<Rightarrow> db \<Rightarrow> audit_row list" where
  "audit_list t action_prefix since limit d =
     take limit (order_desc au_ts (filter (\<lambda>r. au_tenant r = t
        \<and> (case action_prefix of None \<Rightarrow> True | Some p \<Rightarrow> like (au_action r) (p @ ''%''))
        \<and> (case since of None \<Rightarrow> True | Some s \<Rightarrow> s \<le> au_ts r)) (audit_log d)))"

section \<open>Two statements of the slug rule\<close>

lemma is_cont_not_ascii: "is_cont c \<Longrightarrow> \<not> (is_lower c \<or> is_digit c \<or> c = CHR ''-'')"
  by (auto simp: is_cont_def is_lower_def is_digit_def less_eq_char_def)

lemma ascii_chars: "list_all (\<lambda>c. is_lower c \<or> is_digit c \<or> c = CHR ''-'') s \<Longrightarrow> chars s = map (\<lambda>c. [c]) s"
proof (induction s rule: chars.induct)
  case (2 c cs)
  then have "takeWhile is_cont cs = []" "dropWhile is_cont cs = cs"
    using is_cont_not_ascii by (cases cs; auto)+
  with 2 show ?case by simp
qed simp

text \<open>
  The trigger that guards the tenants table refuses exactly the slugs the application's
  rule refuses, although one counts characters and matches patterns where the other looks at
  bytes: no tenant can be stored under a slug the code would not accept, whoever inserts it.
\<close>

theorem slug_trigger_agrees: "slug_shape_refused s \<longleftrightarrow> \<not> valid_slug s"
proof (cases "list_all (\<lambda>c. is_lower c \<or> is_digit c \<or> c = CHR ''-'') s")
  case True
  then show ?thesis
    by (auto simp: slug_shape_refused_def valid_slug_def ascii_chars list_all_iff list_ex_iff)
next
  case False
  have "\<exists>c \<in> set (chars s). \<not> list_all (\<lambda>b. is_lower b \<or> is_digit b \<or> b = CHR ''-'') c"
  proof (rule ccontr)
    assume "\<not> ?thesis"
    then have "list_all (\<lambda>b. is_lower b \<or> is_digit b \<or> b = CHR ''-'') (concat (chars s))"
      unfolding list_all_iff set_concat by blast
    with False show False by simp
  qed
  with False show ?thesis by (auto simp: slug_shape_refused_def valid_slug_def list_ex_iff)
qed

section \<open>The configuration version only grows\<close>

definition version_of :: "int \<Rightarrow> db \<Rightarrow> int option" where
  "version_of t d = map_option t_config_version (fetch_optional (\<lambda>r. t_id r = t) (tenants d))"

lemma find_update_where:
  "(\<And>r. p (f r) = p r) \<Longrightarrow> find p (update_where p f rows) = map_option f (find p rows)"
  by (induction rows) (auto simp: update_where_def)

lemma bump_config_version_result:
  "bump_config_version t d =
     (case version_of t d of
        None \<Rightarrow> Inl RowNotFound
      | Some v \<Rightarrow> Inr (v + 1, d\<lparr>tenants := bump_version t (tenants d)\<rparr>))"
  by (simp add: bump_config_version_def version_of_def bump_version_def fetch_optional_def Let_def
      find_update_where split: option.split)

lemma version_of_bump: "version_of t (d\<lparr>tenants := bump_version t (tenants d)\<rparr>) = map_option (\<lambda>v. v + 1) (version_of t d)"
  by (simp add: version_of_def bump_version_def fetch_optional_def find_update_where option.map_comp comp_def)

end
