(* ===== verification/Bundles_Repo.thy ===== *)
theory Bundles_Repo
  imports Tenants_Repo
begin

text \<open>
  \<open>crates/storage/src/repos/groups.rs\<close> and \<open>bundles.rs\<close>: one definition per method of
  \<open>GroupsRepo\<close>, \<open>BundlesRepo\<close> and \<open>BundleAssignmentsRepo\<close>. The rows of a query
  without \<open>ORDER BY\<close> come in table order here.
\<close>

section \<open>Groups\<close>

definition group_create :: "str \<Rightarrow> int \<Rightarrow> int \<Rightarrow> str \<Rightarrow> str \<Rightarrow> db \<Rightarrow> sql_error + group_row \<times> db" where
  "group_create new_id now t name selector_json d =
     (let row = \<lparr>g_id = new_id, g_tenant = t, g_name = name, g_selector_json = selector_json,
                g_created_at = now\<rparr> in
      if \<exists>g \<in> set (groups d). g_id g = new_id \<or> (g_tenant g = t \<and> g_name g = name) then Inl UniqueViolation
      else if \<not> tenant_exists t d then Inl ForeignKeyViolation
      else Inr (row, d\<lparr>groups := groups d @ [row]\<rparr>))"

definition is_group :: "int \<Rightarrow> str \<Rightarrow> group_row \<Rightarrow> bool" where
  "is_group t i g \<longleftrightarrow> g_tenant g = t \<and> g_id g = i"

definition group_update ::
  "int \<Rightarrow> str \<Rightarrow> str option \<Rightarrow> str option \<Rightarrow> db \<Rightarrow> sql_error + bool \<times> db" where
  "group_update t i name selector_json d =
     (let rows = update_where (is_group t i)
            (\<lambda>g. g\<lparr>g_name := (case name of Some n \<Rightarrow> n | None \<Rightarrow> g_name g),
                  g_selector_json := (case selector_json of Some s \<Rightarrow> s | None \<Rightarrow> g_selector_json g)\<rparr>)
            (groups d) in
      if \<not> distinct (map (\<lambda>g. (g_tenant g, g_name g)) rows) then Inl UniqueViolation
      else Inr (affected (is_group t i) (groups d) > 0, d\<lparr>groups := rows\<rparr>))"

definition group_delete :: "int \<Rightarrow> str \<Rightarrow> db \<Rightarrow> sql_error + bool \<times> db" where
  "group_delete t i d =
     (if affected (is_group t i) (groups d) > 0 \<and> (\<exists>a \<in> set (bundle_assignments d). a_group a = i)
      then Inl ForeignKeyViolation
      else Inr (affected (is_group t i) (groups d) > 0,
                d\<lparr>groups := delete_where (is_group t i) (groups d)\<rparr>))"

definition group_get :: "int \<Rightarrow> str \<Rightarrow> db \<Rightarrow> group_row option" where
  "group_get t i d = fetch_optional (is_group t i) (groups d)"

definition group_list :: "int \<Rightarrow> db \<Rightarrow> group_row list" where
  "group_list t d = order_asc g_name (filter (\<lambda>g. g_tenant g = t) (groups d))"

section \<open>Bundles\<close>

definition bundle_ident :: "bundle_row \<Rightarrow> int \<times> str \<times> str" where
  "bundle_ident b = (b_tenant b, b_name b, b_version b)"

definition bundles_unique :: "bundle_row list \<Rightarrow> bool" where
  "bundles_unique rows \<longleftrightarrow> distinct (map b_id rows) \<and> distinct (map bundle_ident rows)"

definition bundle_create ::
  "str \<Rightarrow> int \<Rightarrow> int \<Rightarrow> str \<Rightarrow> str \<Rightarrow> str \<Rightarrow> int \<Rightarrow> str \<Rightarrow> str \<Rightarrow> str option \<Rightarrow> db \<Rightarrow> sql_error + bundle_row \<times> db" where
  "bundle_create i now t name version sha256 size_bytes signature fmt key_fp d =
     (let row = \<lparr>b_id = i, b_tenant = t, b_name = name, b_version = version, b_sha256 = sha256,
                b_size_bytes = size_bytes, b_signature = signature, b_uploaded_at = now,
                b_format = fmt, b_key_fingerprint = key_fp\<rparr> in
      if \<exists>b \<in> set (bundles d). b_id b = i \<or> bundle_ident b = (t, name, version) then Inl UniqueViolation
      else if \<not> tenant_exists t d then Inl ForeignKeyViolation
      else Inr (row, d\<lparr>bundles := bundles d @ [row]\<rparr>))"

definition is_bundle :: "int \<Rightarrow> str \<Rightarrow> bundle_row \<Rightarrow> bool" where
  "is_bundle t i b \<longleftrightarrow> b_tenant b = t \<and> b_id b = i"

definition named :: "int \<Rightarrow> str \<Rightarrow> bundle_row \<Rightarrow> bool" where
  "named t n b \<longleftrightarrow> b_tenant b = t \<and> b_name b = n"

definition bundle_get :: "int \<Rightarrow> str \<Rightarrow> db \<Rightarrow> bundle_row option" where
  "bundle_get t i d = fetch_optional (is_bundle t i) (bundles d)"

definition bundle_count :: "int \<Rightarrow> db \<Rightarrow> nat" where
  "bundle_count t d = affected (\<lambda>b. b_tenant b = t) (bundles d)"

definition bundle_delete :: "int \<Rightarrow> str \<Rightarrow> db \<Rightarrow> sql_error + bool \<times> db" where
  "bundle_delete t i d =
     (let d1 = d\<lparr>bundle_assignments :=
            delete_where (\<lambda>a. a_tenant a = t \<and> a_bundle a = i) (bundle_assignments d)\<rparr> in
      if affected (is_bundle t i) (bundles d1) > 0 \<and> (\<exists>a \<in> set (bundle_assignments d1). a_bundle a = i)
      then Inl ForeignKeyViolation
      else Inr (affected (is_bundle t i) (bundles d1) > 0,
                d1\<lparr>bundles := delete_where (is_bundle t i) (bundles d1)\<rparr>))"

definition bundle_list_all :: "db \<Rightarrow> bundle_row list" where
  "bundle_list_all d = bundles d"

definition replace_signature :: "int \<Rightarrow> str \<Rightarrow> str \<Rightarrow> db \<Rightarrow> db" where
  "replace_signature t i signature d =
     d\<lparr>bundles := update_where (is_bundle t i) (\<lambda>b. b\<lparr>b_signature := signature\<rparr>) (bundles d)\<rparr>"

definition bundle_list :: "int \<Rightarrow> db \<Rightarrow> bundle_row list" where
  "bundle_list t d = order_desc b_uploaded_at (filter (\<lambda>b. b_tenant b = t) (bundles d))"

definition list_by_name :: "int \<Rightarrow> str \<Rightarrow> db \<Rightarrow> bundle_row list" where
  "list_by_name t n d = order_asc b_uploaded_at (order_asc b_id (filter (named t n) (bundles d)))"

section \<open>Renaming\<close>

record renamed_in_place =
  rip_id :: str
  rip_signature :: str

record moved_bundle =
  mv_old_id :: str
  mv_new_id :: str
  mv_sha256 :: str
  mv_size_bytes :: int
  mv_signature :: str
  mv_key_fingerprint :: "str option"

datatype rename_outcome = Renamed | NameTaken | Changed

text \<open>
  One version in place, and one version moved; no result where a statement touched other than
  one row.
\<close>

definition rename_one :: "int \<Rightarrow> str \<Rightarrow> str \<Rightarrow> renamed_in_place \<Rightarrow> db \<Rightarrow> sql_error + db option" where
  "rename_one t from_name to_name r d =
     (let p = (\<lambda>b. is_bundle t (rip_id r) b \<and> b_name b = from_name);
          rows = update_where p (\<lambda>b. b\<lparr>b_name := to_name, b_signature := rip_signature r\<rparr>) (bundles d) in
      if \<not> bundles_unique rows then Inl UniqueViolation
      else if affected p (bundles d) \<noteq> 1 then Inr None
      else Inr (Some (d\<lparr>bundles := rows\<rparr>)))"

definition move_one :: "int \<Rightarrow> str \<Rightarrow> str \<Rightarrow> moved_bundle \<Rightarrow> db \<Rightarrow> sql_error + db option" where
  "move_one t from_name to_name r d =
     (let old = filter (\<lambda>b. is_bundle t (mv_old_id r) b \<and> b_name b = from_name) (bundles d);
          rows = bundles d @ map (\<lambda>b. b\<lparr>b_id := mv_new_id r, b_name := to_name, b_sha256 := mv_sha256 r,
              b_size_bytes := mv_size_bytes r, b_signature := mv_signature r,
              b_key_fingerprint := mv_key_fingerprint r\<rparr>) old;
          assigned = update_where (\<lambda>a. a_tenant a = t \<and> a_bundle a = mv_old_id r)
              (\<lambda>a. a\<lparr>a_bundle := mv_new_id r\<rparr>) (bundle_assignments d) in
      if \<not> bundles_unique rows then Inl UniqueViolation
      else if length old \<noteq> 1 then Inr None
      else if \<not> distinct (map (\<lambda>a. (a_group a, a_bundle a)) assigned) then Inl UniqueViolation
      else if \<exists>a \<in> set assigned. a_bundle a = mv_old_id r then Inl ForeignKeyViolation
      else Inr (Some (d\<lparr>bundles := delete_where (is_bundle t (mv_old_id r)) rows,
                       bundle_assignments := assigned\<rparr>)))"

text \<open>A loop whose body may fail or give up.\<close>

fun each :: "('r \<Rightarrow> db \<Rightarrow> sql_error + db option) \<Rightarrow> 'r list \<Rightarrow> db \<Rightarrow> sql_error + db option" where
  "each f [] d = Inr (Some d)"
| "each f (r # rs) d =
     (case f r d of
        Inl e \<Rightarrow> Inl e
      | Inr None \<Rightarrow> Inr None
      | Inr (Some d') \<Rightarrow> each f rs d')"

definition bundle_rename ::
  "int \<Rightarrow> str \<Rightarrow> str \<Rightarrow> renamed_in_place list \<Rightarrow> moved_bundle list \<Rightarrow> db \<Rightarrow> sql_error + rename_outcome \<times> db" where
  "bundle_rename t from_name to_name in_place moved d =
     (if affected (named t to_name) (bundles d) > 0 then Inr (NameTaken, d)
      else case each (rename_one t from_name to_name) in_place d of
          Inl e \<Rightarrow> Inl e
        | Inr None \<Rightarrow> Inr (Changed, d)
        | Inr (Some d1) \<Rightarrow>
            (case each (move_one t from_name to_name) moved d1 of
               Inl e \<Rightarrow> Inl e
             | Inr None \<Rightarrow> Inr (Changed, d)
             | Inr (Some d2) \<Rightarrow>
                 if affected (named t from_name) (bundles d2) > 0 then Inr (Changed, d)
                 else Inr (Renamed, d2\<lparr>tenants := bump_version t (tenants d2)\<rparr>)))"

section \<open>Assignments\<close>

definition assign_bundle :: "int \<Rightarrow> int \<Rightarrow> str \<Rightarrow> str \<Rightarrow> int \<Rightarrow> db \<Rightarrow> sql_error + db" where
  "assign_bundle now t g b prio d =
     (if \<not> tenant_exists t d \<or> \<not> (\<exists>x \<in> set (groups d). g_id x = g) \<or> \<not> (\<exists>x \<in> set (bundles d). b_id x = b)
      then Inl ForeignKeyViolation
      else Inr (d\<lparr>bundle_assignments := upsert (\<lambda>a. a_group a = g \<and> a_bundle a = b) (\<lambda>a. a\<lparr>a_priority := prio\<rparr>)
          \<lparr>a_tenant = t, a_group = g, a_bundle = b, a_priority = prio, a_assigned_at = now\<rparr>
          (bundle_assignments d)\<rparr>))"

definition unassign_bundle :: "int \<Rightarrow> str \<Rightarrow> str \<Rightarrow> db \<Rightarrow> bool \<times> db" where
  "unassign_bundle t g b d =
     (let p = (\<lambda>a. a_tenant a = t \<and> a_group a = g \<and> a_bundle a = b) in
      (affected p (bundle_assignments d) > 0,
       d\<lparr>bundle_assignments := delete_where p (bundle_assignments d)\<rparr>))"

definition list_for_groups :: "int \<Rightarrow> str list \<Rightarrow> db \<Rightarrow> (bundle_row \<times> int) list" where
  "list_for_groups t gs d =
     (if gs = [] then []
      else concat (map (\<lambda>a. map (\<lambda>b. (b, a_priority a)) (filter (\<lambda>b. b_id b = a_bundle a) (bundles d)))
        (filter (\<lambda>a. a_tenant a = t \<and> a_group a \<in> set gs) (bundle_assignments d))))"

section \<open>What a rename keeps\<close>

text \<open>
  The versions of a bundle under either name; what is assigned, by group, priority and
  version; and everything the rename is not about.
\<close>

definition versions_of :: "int \<Rightarrow> str \<Rightarrow> str \<Rightarrow> db \<Rightarrow> (str \<times> int \<times> str) multiset" where
  "versions_of t m n d = image_mset (\<lambda>b. (b_version b, b_uploaded_at b, b_format b))
     (mset (filter (\<lambda>b. named t m b \<or> named t n b) (bundles d)))"

definition version_at :: "bundle_row list \<Rightarrow> str \<Rightarrow> str option" where
  "version_at rows i = map_option b_version (find (\<lambda>b. b_id b = i) rows)"

definition assigned_versions :: "db \<Rightarrow> (int \<times> str \<times> int \<times> str option) list" where
  "assigned_versions d =
     map (\<lambda>a. (a_tenant a, a_group a, a_priority a, version_at (bundles d) (a_bundle a))) (bundle_assignments d)"

definition unrelated :: "int \<Rightarrow> str \<Rightarrow> str \<Rightarrow> db \<Rightarrow> bundle_row list" where
  "unrelated t m n d = filter (\<lambda>b. \<not> (named t m b \<or> named t n b)) (bundles d)"

text \<open>Keys are unique and every assignment names a stored bundle, as the schema demands.\<close>

definition bundles_ok :: "db \<Rightarrow> bool" where
  "bundles_ok d \<longleftrightarrow> bundles_unique (bundles d)
     \<and> (\<forall>a \<in> set (bundle_assignments d). a_bundle a \<in> b_id ` set (bundles d))"

definition rename_keeps :: "int \<Rightarrow> str \<Rightarrow> str \<Rightarrow> db \<Rightarrow> db \<Rightarrow> bool" where
  "rename_keeps t m n d d' \<longleftrightarrow> versions_of t m n d' = versions_of t m n d
     \<and> assigned_versions d' = assigned_versions d \<and> unrelated t m n d' = unrelated t m n d
     \<and> tenants d' = tenants d \<and> groups d' = groups d \<and> bundles_ok d'"

lemma rename_keeps_trans: "rename_keeps t m n d d1 \<Longrightarrow> rename_keeps t m n d1 d2 \<Longrightarrow> rename_keeps t m n d d2"
  by (simp add: rename_keeps_def)

lemma each_keeps:
  assumes "\<And>r d d'. bundles_ok d \<Longrightarrow> f r d = Inr (Some d') \<Longrightarrow> rename_keeps t m n d d'"
  shows "bundles_ok d \<Longrightarrow> each f rs d = Inr (Some d') \<Longrightarrow> rename_keeps t m n d d'"
proof (induction rs arbitrary: d)
  case Nil
  then show ?case by (simp add: rename_keeps_def)
next
  case (Cons r rs)
  then obtain d1 where d1: "f r d = Inr (Some d1)" "each f rs d1 = Inr (Some d')"
    by (auto split: sum.splits option.splits)
  have k: "rename_keeps t m n d d1" using assms Cons.prems(1) d1(1) by blast
  then have "bundles_ok d1" by (simp add: rename_keeps_def)
  with Cons.IH d1(2) k show ?case using rename_keeps_trans by blast
qed

lemma mset_filter_map:
  "(\<And>x. P (h x) = P x) \<Longrightarrow> (\<And>x. g (h x) = g x) \<Longrightarrow>
   image_mset g (mset (filter P (map h xs))) = image_mset g (mset (filter P xs))"
  by (induction xs) auto

lemma filter_map_id: "(\<And>x. P (h x) = P x) \<Longrightarrow> (\<And>x. P x \<Longrightarrow> h x = x) \<Longrightarrow> filter P (map h xs) = filter P xs"
  by (induction xs) auto

lemma version_at_update:
  "(\<And>b. b_id (f b) = b_id b) \<Longrightarrow> (\<And>b. b_version (f b) = b_version b) \<Longrightarrow>
   version_at (update_where p f rows) i = version_at rows i"
  by (induction rows) (auto simp: version_at_def update_where_def)

lemma rename_one_keeps:
  assumes "bundles_ok d" and "rename_one t m n r d = Inr (Some d')"
  shows "rename_keeps t m n d d'"
proof -
  let ?p = "\<lambda>b. is_bundle t (rip_id r) b \<and> b_name b = m"
  let ?f = "\<lambda>b. b\<lparr>b_name := n, b_signature := rip_signature r\<rparr>"
  have d': "d' = d\<lparr>bundles := update_where ?p ?f (bundles d)\<rparr>" "bundles_unique (update_where ?p ?f (bundles d))"
    using assms(2) by (auto simp: rename_one_def Let_def split: if_splits)
  have ids: "b_id ` set (update_where ?p ?f (bundles d)) = b_id ` set (bundles d)"
    using map_update_where [of ?p b_id ?f "bundles d"] by (simp add: image_set [symmetric] del: image_set)
       (metis list.set_map)
  have bs: "bundles d' = map (\<lambda>b. if ?p b then ?f b else b) (bundles d)"
    by (simp add: d' update_where_def)
  have vs: "versions_of t m n d' = versions_of t m n d"
    unfolding versions_of_def bs by (rule mset_filter_map) (auto simp: named_def is_bundle_def)
  have un: "unrelated t m n d' = unrelated t m n d"
    unfolding unrelated_def bs by (rule filter_map_id) (auto simp: named_def is_bundle_def)
  show ?thesis
    using assms(1) vs un d' ids
    by (simp add: rename_keeps_def bundles_ok_def assigned_versions_def version_at_update)
qed

lemma version_at_split:
  "distinct (map b_id rows) \<Longrightarrow> b \<in> set rows \<Longrightarrow> version_at rows (b_id b) = Some (b_version b)"
  by (simp add: version_at_def find_unique [where g = b_id])

lemma move_one_keeps:
  assumes ok: "bundles_ok d" and res: "move_one t m n r d = Inr (Some d')"
  shows "rename_keeps t m n d d'"
proof -
  let ?old = "filter (\<lambda>b. is_bundle t (mv_old_id r) b \<and> b_name b = m) (bundles d)"
  let ?f = "\<lambda>b. b\<lparr>b_id := mv_new_id r, b_name := n, b_sha256 := mv_sha256 r,
              b_size_bytes := mv_size_bytes r, b_signature := mv_signature r,
              b_key_fingerprint := mv_key_fingerprint r\<rparr>"
  let ?assigned = "update_where (\<lambda>a. a_tenant a = t \<and> a_bundle a = mv_old_id r)
              (\<lambda>a. a\<lparr>a_bundle := mv_new_id r\<rparr>) (bundle_assignments d)"
  have uniq: "bundles_unique (bundles d @ map ?f ?old)" and len: "length ?old = 1"
    and ref: "\<forall>a \<in> set ?assigned. a_bundle a \<noteq> mv_old_id r"
    and d': "d' = d\<lparr>bundles := delete_where (is_bundle t (mv_old_id r)) (bundles d @ map ?f ?old),
                 bundle_assignments := ?assigned\<rparr>"
    using res by (auto simp: move_one_def Let_def split: if_splits)
  obtain b where b: "?old = [b]" using len by (cases ?old) auto
  then have b_in: "b \<in> set (bundles d)" "is_bundle t (mv_old_id r) b" "b_name b = m"
    by (metis (mono_tags, lifting) list.set_intros(1) mem_Collect_eq set_filter)+
  obtain as bs where split: "bundles d = as @ b # bs" using b_in(1) by (meson split_list)
  have "bundles_unique (bundles d @ [?f b])" using uniq unfolding b by simp
  then have dist: "distinct (map b_id (as @ b # bs @ [?f b]))" unfolding split bundles_unique_def by simp
  have b_id: "b_id b = mv_old_id r" using b_in(2) by (simp add: is_bundle_def)
  have rows: "bundles d' = as @ bs @ [?f b]"
  proof -
    have "delete_where (is_bundle t (mv_old_id r)) as = as" "delete_where (is_bundle t (mv_old_id r)) bs = bs"
      using dist b_id by (auto intro!: delete_where_none simp: is_bundle_def image_iff)
    moreover have "\<not> is_bundle t (mv_old_id r) (?f b)" using dist b_id by (auto simp: is_bundle_def)
    moreover have "bundles d' = delete_where (is_bundle t (mv_old_id r)) (bundles d @ [?f b])"
      unfolding d' b by simp
    ultimately show ?thesis using b_in(2) unfolding split by (simp add: delete_where_def)
  qed
  have vs: "versions_of t m n d' = versions_of t m n d"
    unfolding versions_of_def rows split using b_in by (simp add: named_def is_bundle_def)
  have un: "unrelated t m n d' = unrelated t m n d"
    unfolding unrelated_def rows split using b_in by (simp add: named_def is_bundle_def)
  have at_new: "version_at (bundles d') (mv_new_id r) = version_at (bundles d) (mv_old_id r)"
    using version_at_split [of "bundles d'" "?f b"] version_at_split [of "bundles d" b] dist
    by (auto simp: rows split b_id)
  have at_other: "version_at (bundles d') i = version_at (bundles d) i"
    if i: "i \<in> b_id ` set (bundles d)" "i \<noteq> mv_old_id r" for i
  proof -
    obtain c where c: "c \<in> set (bundles d)" "b_id c = i" using i(1) by blast
    then have "c \<in> set (bundles d')" using i(2) b_id by (auto simp: rows split)
    then show ?thesis using version_at_split [of "bundles d'" c] version_at_split [of "bundles d" c] c dist
      by (simp add: rows split)
  qed
  have refs: "a_bundle a \<in> b_id ` set (bundles d)" if "a \<in> set (bundle_assignments d)" for a
    using ok that by (simp add: bundles_ok_def)
  have keep: "a_bundle a \<noteq> mv_old_id r" if "a \<in> set (bundle_assignments d)" "a_tenant a \<noteq> t" for a
  proof
    assume "a_bundle a = mv_old_id r"
    moreover have "a \<in> set ?assigned" unfolding set_update_where using that by (auto intro!: rev_image_eqI)
    ultimately show False using ref by blast
  qed
  let ?g = "\<lambda>a. if a_tenant a = t \<and> a_bundle a = mv_old_id r then a\<lparr>a_bundle := mv_new_id r\<rparr> else a"
  have at: "version_at (bundles d') (a_bundle (?g a)) = version_at (bundles d) (a_bundle a)"
    if a: "a \<in> set (bundle_assignments d)" for a
  proof (cases "a_tenant a = t \<and> a_bundle a = mv_old_id r")
    case False
    then have "a_bundle a \<noteq> mv_old_id r" using keep a by blast
    with at_other refs [OF a] False show ?thesis by simp
  qed (simp add: at_new)
  have "bundle_assignments d' = map ?g (bundle_assignments d)" by (simp add: d' update_where_def)
  then have av: "assigned_versions d' = assigned_versions d"
    unfolding assigned_versions_def using at by simp
  have refs': "a_bundle a \<in> b_id ` set (bundles d')" if "a \<in> set ?assigned" for a
  proof -
    obtain a0 where a0: "a0 \<in> set (bundle_assignments d)"
        "a = (if a_tenant a0 = t \<and> a_bundle a0 = mv_old_id r then a0\<lparr>a_bundle := mv_new_id r\<rparr> else a0)"
      using \<open>a \<in> set ?assigned\<close> unfolding set_update_where by blast
    show ?thesis
    proof (cases "a_tenant a0 = t \<and> a_bundle a0 = mv_old_id r")
      case False
      then have "a_bundle a0 \<noteq> mv_old_id r" using keep a0(1) by blast
      with refs [OF a0(1)] False a0(2) show ?thesis by (auto simp: rows split b_id)
    qed (simp add: a0(2) rows)
  qed
  have "bundles_unique (bundles d')"
    using uniq unfolding bundles_unique_def d' by (simp add: distinct_map_delete del: map_append)
  with refs' vs un av show ?thesis by (simp add: rename_keeps_def bundles_ok_def d')
qed

lemma assigned_versions_tenants: "assigned_versions (d\<lparr>tenants := ts\<rparr>) = assigned_versions d"
  by (simp add: assigned_versions_def)

lemma bundle_rename_result:
  assumes ok: "bundles_ok d" and res: "bundle_rename t m n rs ms d = Inr (out, d')"
  shows "out \<noteq> Renamed \<Longrightarrow> d' = d"
    and "out = Renamed \<Longrightarrow> filter (named t n) (bundles d) = [] \<and> filter (named t m) (bundles d') = []
      \<and> versions_of t m n d' = versions_of t m n d \<and> assigned_versions d' = assigned_versions d
      \<and> unrelated t m n d' = unrelated t m n d \<and> tenants d' = bump_version t (tenants d) \<and> bundles_ok d'"
proof -
  show "d' = d" if "out \<noteq> Renamed"
    using that res by (auto simp: bundle_rename_def split: if_splits sum.splits option.splits)
  assume "out = Renamed"
  then obtain d1 d2 where free: "affected (named t n) (bundles d) = 0"
    and d1: "each (rename_one t m n) rs d = Inr (Some d1)"
    and d2: "each (move_one t m n) ms d1 = Inr (Some d2)"
    and left: "affected (named t m) (bundles d2) = 0"
    and d': "d' = d2\<lparr>tenants := bump_version t (tenants d2)\<rparr>"
    using res by (auto simp: bundle_rename_def split: if_splits sum.splits option.splits)
  have k1: "rename_keeps t m n d d1" using rename_one_keeps ok d1 by (rule each_keeps)
  then have "bundles_ok d1" by (simp add: rename_keeps_def)
  with move_one_keeps have "rename_keeps t m n d1 d2" using d2 by (rule each_keeps)
  with k1 have "rename_keeps t m n d d2" by (rule rename_keeps_trans)
  with free left d' show "filter (named t n) (bundles d) = [] \<and> filter (named t m) (bundles d') = []
      \<and> versions_of t m n d' = versions_of t m n d \<and> assigned_versions d' = assigned_versions d
      \<and> unrelated t m n d' = unrelated t m n d \<and> tenants d' = bump_version t (tenants d) \<and> bundles_ok d'"
    by (simp add: rename_keeps_def versions_of_def unrelated_def bundles_ok_def assigned_versions_tenants affected_def)
qed

text \<open>
  C20: a rename happens to every version or to none. Where it did not happen, because the name
  was taken or the versions had changed, the database is as it was; where it happened, the new
  name was free, no version is left under the old one, the versions are the same with their
  upload times and formats, every group is assigned the same versions with the same
  priorities, no other bundle is touched, and the tenant's configuration version moves.
\<close>

theorem rename_all_or_nothing:
  assumes "bundles_ok d" and "bundle_rename t m n rs ms d = Inr (out, d')"
  shows "(out \<noteq> Renamed \<longrightarrow> d' = d)
    \<and> (out = Renamed \<longrightarrow>
        filter (named t n) (bundles d) = [] \<and> filter (named t m) (bundles d') = []
        \<and> versions_of t m n d' = versions_of t m n d \<and> assigned_versions d' = assigned_versions d
        \<and> unrelated t m n d' = unrelated t m n d
        \<and> tenants d' = bump_version t (tenants d) \<and> bundles_ok d')"
  using bundle_rename_result [OF assms] by blast

text \<open>Two versions of one bundle, one plain and one encrypted, both assigned.\<close>

definition sample_bundle :: "str \<Rightarrow> str \<Rightarrow> str \<Rightarrow> bundle_row" where
  "sample_bundle i v fmt = \<lparr>b_id = i, b_tenant = 1, b_name = ''web'', b_version = v, b_sha256 = ''aa'',
     b_size_bytes = 3, b_signature = ''s'', b_uploaded_at = 5, b_format = fmt, b_key_fingerprint = None\<rparr>"

definition sample_bundles :: db where
  "sample_bundles = sample_hosts\<lparr>
     groups := [\<lparr>g_id = ''g1'', g_tenant = 1, g_name = ''all'', g_selector_json = ''{}'', g_created_at = 0\<rparr>],
     bundles := [sample_bundle ''b1'' ''1'' ''plain'', sample_bundle ''b2'' ''2'' ''enc-v1''],
     bundle_assignments :=
       [\<lparr>a_tenant = 1, a_group = ''g1'', a_bundle = ''b1'', a_priority = 10, a_assigned_at = 0\<rparr>,
        \<lparr>a_tenant = 1, a_group = ''g1'', a_bundle = ''b2'', a_priority = 20, a_assigned_at = 0\<rparr>]\<rparr>"

definition sample_moves :: "moved_bundle list" where
  "sample_moves = [\<lparr>mv_old_id = ''b2'', mv_new_id = ''b3'', mv_sha256 = ''bb'', mv_size_bytes = 4,
     mv_signature = ''s3'', mv_key_fingerprint = None\<rparr>]"

lemma sample_bundles_ok: "bundles_ok sample_bundles"
  by (simp add: bundles_ok_def bundles_unique_def sample_bundles_def sample_bundle_def bundle_ident_def)

lemma sample_rename:
  "\<exists>d'. bundle_rename 1 ''web'' ''site'' [\<lparr>rip_id = ''b1'', rip_signature = ''s2''\<rparr>] sample_moves sample_bundles
     = Inr (Renamed, d')"
  by (simp add: bundle_rename_def rename_one_def move_one_def sample_bundles_def sample_bundle_def sample_moves_def
      affected_def named_def is_bundle_def update_where_def delete_where_def bundles_unique_def bundle_ident_def Let_def)

theorem rename_all_or_nothing_witness:
  "\<exists>d'. bundle_rename 1 ''web'' ''site'' [\<lparr>rip_id = ''b1'', rip_signature = ''s2''\<rparr>] sample_moves sample_bundles
       = Inr (Renamed, d')
     \<and> assigned_versions d' = [(1, ''g1'', 10, Some ''1''), (1, ''g1'', 20, Some ''2'')]"
proof -
  obtain d' where d': "bundle_rename 1 ''web'' ''site'' [\<lparr>rip_id = ''b1'', rip_signature = ''s2''\<rparr>] sample_moves sample_bundles
       = Inr (Renamed, d')"
    using sample_rename by blast
  have "assigned_versions sample_bundles = [(1, ''g1'', 10, Some ''1''), (1, ''g1'', 20, Some ''2'')]"
    by (simp add: assigned_versions_def sample_bundles_def version_at_def sample_bundle_def)
  with rename_all_or_nothing [OF sample_bundles_ok d'] d' show ?thesis by auto
qed

section \<open>Deleting a bundle or a group\<close>

text \<open>
  A deleted bundle is assigned to no group of its tenant any more, in the same step, and
  a group that still has bundles is refused.
\<close>

theorem delete_leaves_no_assignment:
  "(bundle_delete t i d = Inr (found, d') \<longrightarrow>
      (\<forall>a \<in> set (bundle_assignments d'). \<not> (a_tenant a = t \<and> a_bundle a = i))
      \<and> bundle_get t i d' = None \<and> (found \<longleftrightarrow> bundle_get t i d \<noteq> None))
   \<and> (group_get t g d \<noteq> None \<longrightarrow> (\<exists>a \<in> set (bundle_assignments d). a_group a = g) \<longrightarrow>
      group_delete t g d = Inl ForeignKeyViolation)"
proof -
  have found: "fetch_optional p xs \<noteq> None \<longleftrightarrow> affected p xs > 0" for p and xs :: "'r list"
    by (auto simp: fetch_optional_def find_None_iff affected_pos simp del: not_None_eq)
  show ?thesis
    unfolding bundle_get_def group_get_def bundle_delete_def group_delete_def Let_def
    by (simp add: found del: not_None_eq split: if_splits)
       (auto simp: fetch_optional_def find_None_iff)
qed

theorem delete_leaves_no_assignment_witness:
  "\<exists>d'. bundle_delete 1 ''b1'' sample_bundles = Inr (True, d') \<and> bundle_get 1 ''b1'' d' = None
     \<and> group_delete 1 ''g1'' sample_bundles = Inl ForeignKeyViolation"
proof -
  have "affected (is_bundle 1 ''b1'') (bundles sample_bundles) > 0"
    by (simp add: affected_def is_bundle_def sample_bundles_def sample_bundle_def)
  moreover have "\<not> (\<exists>a \<in> set (bundle_assignments sample_bundles). a_tenant a \<noteq> 1)"
    by (simp add: sample_bundles_def)
  ultimately obtain d' where d': "bundle_delete 1 ''b1'' sample_bundles = Inr (True, d')"
    unfolding bundle_delete_def Let_def by auto
  have "group_get 1 ''g1'' sample_bundles \<noteq> None" "\<exists>a \<in> set (bundle_assignments sample_bundles). a_group a = ''g1''"
    by (simp_all add: group_get_def sample_bundles_def is_group_def fetch_optional_def)
  then show ?thesis
    using delete_leaves_no_assignment [of 1 "''b1''" sample_bundles True d' "''g1''"] d' by blast
qed

end
