(* ===== verification/Desired_State.thy ===== *)
theory Desired_State
  imports Facts_Repo Bundles_Repo Canonical Crypto "HOL-Library.Word"
begin

text \<open>
  \<open>compute_uncached\<close> of \<open>crates/server/src/agent/desired_state.rs\<close>, with
  \<open>facts::load_for_host\<close>: from a host's tags to the groups it is in, their bundles, its
  override and the hash it is polled with. What the computation reads of the database is
  named input by input, so that the cache can be verified with changes falling between the
  reads. \<open>serde_json\<close>, UTF-8 validation, the cipher and the MAC are parameters.
\<close>

section \<open>Results\<close>

record desired_bundle =
  db_id :: str
  db_name :: str
  db_version :: str
  db_sha256 :: str
  db_signature :: str
  db_priority :: int
  db_format :: str

record desired_state =
  state_hash :: str
  merged_config :: json
  desired_bundles :: "desired_bundle list"

datatype compute_error = OverrideDecrypt aead_error | OverrideUtf8 | OverrideJson

record codec =
  parse_json :: "str \<Rightarrow> json option"
  parse_selector :: "json \<Rightarrow> selector option"
  utf8_ok :: "bytes \<Rightarrow> bool"
  at_rest :: cipher
  mac :: "str \<Rightarrow> bytes \<Rightarrow> bytes"

section \<open>Inputs\<close>

text \<open>What is read for a host of a tenant, one constructor per query; facts are fetched source by source.\<close>

datatype input =
    ITags int str
  | IGroups int
  | IFacts int str str
  | IAssigned int
  | IOverride int str

datatype input_value =
    VTags (tags_in: host_tags)
  | VGroups (groups_in: "group_row list")
  | VFacts (facts_in: "str option")
  | VAssigned (assigned_in: "str list \<Rightarrow> (bundle_row \<times> int) list")
  | VOverride (override_in: "stored_override option")

fun read_input :: "input \<Rightarrow> db \<Rightarrow> input_value" where
  "read_input (ITags t h) d = VTags (map_for_host t h d)"
| "read_input (IGroups t) d = VGroups (group_list t d)"
| "read_input (IFacts t h s) d = VFacts (map_option sf_json (facts_get t h s d))"
| "read_input (IAssigned t) d = VAssigned (\<lambda>gs. list_for_groups t gs d)"
| "read_input (IOverride t h) d = VOverride (override_get t h d)"

section \<open>The walk\<close>

text \<open>\<open>Selector::from_json\<close>: what parses and validates.\<close>

definition selector_from_json :: "codec \<Rightarrow> json \<Rightarrow> selector option" where
  "selector_from_json c v =
     (case parse_selector c v of
        None \<Rightarrow> None
      | Some s \<Rightarrow> (case validate s of Inl _ \<Rightarrow> None | Inr _ \<Rightarrow> Some s))"

definition group_selectors :: "codec \<Rightarrow> group_row list \<Rightarrow> (str \<times> selector) list" where
  "group_selectors c gs =
     List.map_filter (\<lambda>g. map_option (Pair (g_id g))
        (Option.bind (parse_json c (g_selector_json g)) (selector_from_json c))) gs"

definition load_for_host :: "codec \<Rightarrow> str set \<Rightarrow> (str \<Rightarrow> str option) \<Rightarrow> host_facts" where
  "load_for_host c sources stored =
     (\<lambda>s. if s \<in> sources then Option.bind (stored s) (parse_json c) else None)"

definition matching_group_ids :: "codec \<Rightarrow> host_tags \<Rightarrow> (str \<Rightarrow> str option) \<Rightarrow> group_row list \<Rightarrow> str list" where
  "matching_group_ids c tags stored gs =
     (let sels = group_selectors c gs;
          sources = (\<Union>(i, s) \<in> set sels. fact_sources s);
          facts = load_for_host c sources stored
      in map fst (filter (\<lambda>(i, s). matches s tags facts) sels))"

definition override_value :: "codec \<Rightarrow> int \<Rightarrow> str \<Rightarrow> stored_override option \<Rightarrow> compute_error + (int \<times> json) option" where
  "override_value c t h stored =
     (case stored of
        None \<Rightarrow> Inr None
      | Some r \<Rightarrow>
          (case decrypt_at_rest (at_rest c) (HostOverride t h) (so_patch_encrypted r) of
             Inl e \<Rightarrow> Inl (OverrideDecrypt e)
           | Inr plaintext \<Rightarrow>
               if \<not> utf8_ok c plaintext then Inl OverrideUtf8
               else case parse_json c plaintext of
                   None \<Rightarrow> Inl OverrideJson
                 | Some v \<Rightarrow> Inr (Some (so_priority r, v))))"

definition merged_from :: "(int \<times> json) option \<Rightarrow> json" where
  "merged_from ov =
     (case ov of
        Some (_, patch) \<Rightarrow> if is_object patch then patch else JObj []
      | None \<Rightarrow> JObj [])"

definition to_desired :: "bundle_row \<times> int \<Rightarrow> desired_bundle" where
  "to_desired bp = (case bp of (b, p) \<Rightarrow>
     \<lparr>db_id = b_id b, db_name = b_name b, db_version = b_version b, db_sha256 = b_sha256 b,
      db_signature = b_signature b, db_priority = p, db_format = b_format b\<rparr>)"

section \<open>The state hash\<close>

definition STATE_HASH_INFO :: str where "STATE_HASH_INFO = ''desired-state-hash/v1''"

fun le_bytes :: "nat \<Rightarrow> nat \<Rightarrow> bytes" where
  "le_bytes 0 n = []"
| "le_bytes (Suc k) n = char_of (n mod 256) # le_bytes k (n div 256)"

text \<open>A length-prefixed field: \<open>len as u64\<close>, then the bytes.\<close>

definition field :: "bytes \<Rightarrow> bytes" where
  "field bs = le_bytes 8 (length bs) @ bs"

definition priority_bytes :: "int \<Rightarrow> bytes" where
  "priority_bytes p = le_bytes 8 (unat (word_of_int p :: 64 word))"

definition bundle_fields :: "desired_bundle \<Rightarrow> bytes list" where
  "bundle_fields b = [db_id b, db_name b, db_version b, db_format b, db_sha256 b, db_signature b,
     priority_bytes (db_priority b)]"

definition state_fields :: "json \<Rightarrow> desired_bundle list \<Rightarrow> bytes list" where
  "state_fields merged bs = canonical_string merged # concat (map bundle_fields bs)"

definition state_msg :: "json \<Rightarrow> desired_bundle list \<Rightarrow> bytes" where
  "state_msg merged bs = concat (map field (state_fields merged bs))"

definition hash_state :: "codec \<Rightarrow> json \<Rightarrow> desired_bundle list \<Rightarrow> str" where
  "hash_state c merged bs = hex (mac c STATE_HASH_INFO (state_msg merged bs))"

definition compute_from :: "codec \<Rightarrow> int \<Rightarrow> str \<Rightarrow> (input \<Rightarrow> input_value) \<Rightarrow> compute_error + desired_state" where
  "compute_from c t h \<sigma> =
     (let tags = tags_in (\<sigma> (ITags t h));
          gs = groups_in (\<sigma> (IGroups t));
          ids = matching_group_ids c tags (\<lambda>s. facts_in (\<sigma> (IFacts t h s))) gs;
          group_bundles = sort_key snd (assigned_in (\<sigma> (IAssigned t)) ids)
      in case override_value c t h (override_in (\<sigma> (IOverride t h))) of
          Inl e \<Rightarrow> Inl e
        | Inr ov \<Rightarrow>
            let merged = merged_from ov;
                bs = map to_desired group_bundles
            in Inr \<lparr>state_hash = hash_state c merged bs, merged_config = merged, desired_bundles = bs\<rparr>)"

definition compute_uncached :: "codec \<Rightarrow> int \<Rightarrow> str \<Rightarrow> db \<Rightarrow> compute_error + desired_state" where
  "compute_uncached c t h d = compute_from c t h (\<lambda>i. read_input i d)"

section \<open>What the hash covers\<close>

declare le_bytes.simps [simp del]

lemma length_le_bytes [simp]: "length (le_bytes k n) = k"
  by (induction k arbitrary: n) (simp_all add: le_bytes.simps)

lemma le_bytes_inj: "m < 256 ^ k \<Longrightarrow> n < 256 ^ k \<Longrightarrow> le_bytes k m = le_bytes k n \<Longrightarrow> m = n"
proof (induction k arbitrary: m n)
  case (Suc k)
  have "m mod 256 = n mod 256"
  proof -
    have "(of_char (char_of (m mod 256) :: char) :: nat) = of_char (char_of (n mod 256) :: char)"
      using Suc.prems(3) by (simp add: le_bytes.simps)
    then show ?thesis by simp
  qed
  moreover have "m div 256 = n div 256"
    using Suc by (simp add: le_bytes.simps less_mult_imp_div_less mult.commute)
  ultimately show ?case by (metis div_mult_mod_eq)
qed simp

definition short :: "bytes \<Rightarrow> bool" where
  "short bs \<longleftrightarrow> length bs < 2 ^ 64"

lemma field_nonempty [simp]: "field bs \<noteq> []"
proof
  assume "field bs = []"
  then have "length (field bs) = 0" by simp
  then show False by (simp add: field_def)
qed

lemma fields_inj:
  "list_all short fs \<Longrightarrow> list_all short gs \<Longrightarrow> concat (map field fs) = concat (map field gs) \<Longrightarrow> fs = gs"
proof (induction fs arbitrary: gs)
  case Nil
  then show ?case by (cases gs) auto
next
  case (Cons f fs)
  from Cons.prems(3) have "gs \<noteq> []" by auto
  then obtain g gs' where gs: "gs = g # gs'" by (cases gs) auto
  from Cons.prems(3) gs have eq: "le_bytes 8 (length f) @ f @ concat (map field fs)
      = le_bytes 8 (length g) @ g @ concat (map field gs')" by (simp add: field_def [of f] field_def [of g])
  from arg_cong [where f = "take 8", OF eq] have "le_bytes 8 (length f) = le_bytes 8 (length g)" by simp
  moreover have "length f < 256 ^ 8" "length g < 256 ^ 8"
    using Cons.prems gs by (simp_all add: short_def)
  ultimately have "length f = length g" by (rule le_bytes_inj [rotated 2])
  with eq have "f = g" "concat (map field fs) = concat (map field gs')"
    by (simp_all only: append_eq_append_conv append.assoc simp_thms)
  with Cons gs show ?case by simp
qed

definition i64 :: "int \<Rightarrow> bool" where
  "i64 p \<longleftrightarrow> - (2 ^ 63) \<le> p \<and> p < 2 ^ 63"

lemma priority_bytes_inj: "i64 p \<Longrightarrow> i64 q \<Longrightarrow> priority_bytes p = priority_bytes q \<Longrightarrow> p = q"
proof -
  assume r: "i64 p" "i64 q" and eq: "priority_bytes p = priority_bytes q"
  have lt: "unat (w :: 64 word) < 256 ^ 8" for w
    using unsigned_less [of w] by simp
  have "unat (word_of_int p :: 64 word) = unat (word_of_int q :: 64 word)"
    using eq unfolding priority_bytes_def by (rule le_bytes_inj [OF lt lt])
  then have "(word_of_int p :: 64 word) = word_of_int q" by (rule unsigned_word_eqI)
  then have "sint (word_of_int p :: 64 word) = sint (word_of_int q :: 64 word)" by simp
  with r show "p = q" by (simp add: i64_def sint_sbintrunc' signed_take_bit_int_eq_self)
qed

definition bundle_bounded :: "desired_bundle \<Rightarrow> bool" where
  "bundle_bounded b \<longleftrightarrow> list_all short (bundle_fields b) \<and> i64 (db_priority b)"

lemma bundle_fields_inj:
  "bundle_bounded a \<Longrightarrow> bundle_bounded b \<Longrightarrow> bundle_fields a = bundle_fields b \<Longrightarrow> a = b"
  by (cases a; cases b) (auto simp: bundle_fields_def bundle_bounded_def dest: priority_bytes_inj)

lemma length_bundle_fields: "length (bundle_fields b) = 7"
  by (simp add: bundle_fields_def)

lemma bundles_fields_inj:
  "list_all bundle_bounded as \<Longrightarrow> list_all bundle_bounded bs \<Longrightarrow>
   concat (map bundle_fields as) = concat (map bundle_fields bs) \<Longrightarrow> as = bs"
proof (induction as arbitrary: bs)
  case Nil
  then show ?case by (cases bs) (auto simp: bundle_fields_def)
next
  case (Cons a as)
  then obtain b bs' where bs: "bs = b # bs'" by (cases bs) (auto simp: bundle_fields_def)
  have "bundle_fields a = bundle_fields b \<and> concat (map bundle_fields as) = concat (map bundle_fields bs')"
    using Cons.prems(3) unfolding bs by (simp add: append_eq_append_conv length_bundle_fields)
  with Cons bs show ?case by (auto dest: bundle_fields_inj)
qed

definition state_bounded :: "json \<Rightarrow> desired_bundle list \<Rightarrow> bool" where
  "state_bounded merged bs \<longleftrightarrow> wf_json merged \<and> short (canonical_string merged) \<and> list_all bundle_bounded bs"

lemma state_msg_inj:
  assumes "state_bounded m as" "state_bounded n bs" "state_msg m as = state_msg n bs"
  shows "m = n \<and> as = bs"
proof -
  have short: "list_all short (state_fields v xs)" if "state_bounded v xs" for v xs
    using that by (auto simp: state_bounded_def state_fields_def list_all_iff bundle_bounded_def)
  have eq: "state_fields m as = state_fields n bs"
    using assms short by (intro fields_inj) (simp_all add: state_msg_def)
  then have "canonical_string m = canonical_string n" by (simp add: state_fields_def)
  then have "m = n"
    using canonical_prefix [of m n "[]" "[]"] assms by (simp add: state_bounded_def)
  moreover have "as = bs"
    using eq assms by (intro bundles_fields_inj) (simp_all add: state_fields_def state_bounded_def)
  ultimately show ?thesis ..
qed

text \<open>
  C11: the state hash tells any two states apart that an agent would be handed differently: if
  the MAC does not collide on the two, equal hashes mean the same configuration and the same
  bundles in the same order, down to every field of each descriptor and its priority.
\<close>

theorem state_hash_covers_everything:
  assumes "state_bounded m as" and "state_bounded n bs"
    and "mac c STATE_HASH_INFO (state_msg m as) = mac c STATE_HASH_INFO (state_msg n bs) \<longrightarrow>
         state_msg m as = state_msg n bs"
  shows "hash_state c m as = hash_state c n bs \<longleftrightarrow> m = n \<and> as = bs"
  using state_msg_inj [OF assms(1,2)] assms(3) hex_inj by (auto simp: hash_state_def)


text \<open>A codec in the clear, and two states that differ in one bundle's signature.\<close>

definition sample_codec :: codec where
  "sample_codec = \<lparr>parse_json = (\<lambda>s. if s = ''{}'' then Some (JObj []) else None),
     parse_selector = (\<lambda>v. Some \<lparr>clauses = []\<rparr>), utf8_ok = (\<lambda>b. True),
     at_rest = marking_cipher [], mac = (\<lambda>info m. m)\<rparr>"

definition sample_desired :: desired_bundle where
  "sample_desired = \<lparr>db_id = ''b1'', db_name = ''web'', db_version = ''1'', db_sha256 = ''aa'',
     db_signature = ''s1'', db_priority = 10, db_format = ''plain''\<rparr>"

theorem state_hash_covers_everything_witness:
  "hash_state sample_codec (JObj []) [sample_desired]
     \<noteq> hash_state sample_codec (JObj []) [sample_desired\<lparr>db_signature := ''s2''\<rparr>]"
proof -
  have "state_bounded (JObj []) [sample_desired]" "state_bounded (JObj []) [sample_desired\<lparr>db_signature := ''s2''\<rparr>]"
    by (simp_all add: state_bounded_def short_def bundle_bounded_def bundle_fields_def sample_desired_def
        priority_bytes_def i64_def canonical_string.simps comma_sep.simps)
  from state_hash_covers_everything [OF this, of sample_codec] show ?thesis
    by (simp add: sample_codec_def sample_desired_def)
qed

section \<open>What the walk hands out\<close>



lemma sample_group_matches:
  "matching_group_ids sample_codec (map_for_host 1 ''h'' sample_bundles)
     (\<lambda>src. map_option sf_json (facts_get 1 ''h'' src sample_bundles)) (group_list 1 sample_bundles) = [''g1'']"
  by (simp add: matching_group_ids_def group_selectors_def selector_from_json_def sample_codec_def group_list_def
      sample_bundles_def order_asc_def validate_def matches_def List.map_filter_def)


end
