(* ===== verification/State_Cache.thy ===== *)
theory State_Cache
  imports Desired_State "HOL-Library.Finite_Map"
begin

text \<open>
  \<open>DesiredStateCache\<close> of \<open>crates/server/src/agent/desired_state.rs\<close> and the polls it answers.
  The operations each hold the cache's lock, so they are steps; the reads of a computation
  are steps of their own, and database changes, version bumps, invalidations and other polls
  fall between them. The epoch and the generations are \<open>u64\<close> counters in the code; here they
  are natural numbers, which agrees below \<open>2 ^ 64\<close> invalidations.
\<close>

section \<open>The cache\<close>

record entry =
  e_config_version :: int
  e_state :: "desired_state option"
  e_generation :: nat
  e_last_used :: int

record ticket =
  tk_epoch :: nat
  tk_generation :: nat

record cache =
  entries :: "(int \<times> str, entry) fmap"
  epoch :: nat
  hits :: "64 word"
  misses :: "64 word"

definition MAX_ENTRIES :: nat where "MAX_ENTRIES = 100000"
definition IDLE_TTL_SECS :: int where "IDLE_TTL_SECS = 3600"

definition cache_new :: cache where
  "cache_new = \<lparr>entries = fmempty, epoch = 0, hits = 0, misses = 0\<rparr>"

definition cache_get :: "int \<Rightarrow> int \<Rightarrow> str \<Rightarrow> int \<Rightarrow> cache \<Rightarrow> desired_state option \<times> cache" where
  "cache_get now t h v c =
     (case fmlookup (entries c) (t, h) of
        None \<Rightarrow> (None, c\<lparr>misses := misses c + 1\<rparr>)
      | Some e \<Rightarrow>
          (case e_state e of
             None \<Rightarrow> (None, c\<lparr>misses := misses c + 1\<rparr>)
           | Some s \<Rightarrow>
               if e_config_version e = v
               then (Some s, c\<lparr>entries := fmupd (t, h) (e\<lparr>e_last_used := now\<rparr>) (entries c), hits := hits c + 1\<rparr>)
               else (None, c\<lparr>misses := misses c + 1\<rparr>)))"

definition generation_of :: "int \<Rightarrow> str \<Rightarrow> cache \<Rightarrow> nat" where
  "generation_of t h c = (case fmlookup (entries c) (t, h) of None \<Rightarrow> 0 | Some e \<Rightarrow> e_generation e)"

definition take_ticket :: "int \<Rightarrow> str \<Rightarrow> cache \<Rightarrow> ticket" where
  "take_ticket t h c = \<lparr>tk_epoch = epoch c, tk_generation = generation_of t h c\<rparr>"

definition live_entries :: "int \<Rightarrow> cache \<Rightarrow> (int \<times> str, entry) fmap" where
  "live_entries cutoff c =
     fmfilter (\<lambda>k. case fmlookup (entries c) k of None \<Rightarrow> False | Some e \<Rightarrow> e_last_used e \<ge> cutoff) (entries c)"

definition reclaim :: "int \<Rightarrow> cache \<Rightarrow> cache" where
  "reclaim now c =
     (if fcard (fmdom (entries c)) \<ge> MAX_ENTRIES
      then let kept = live_entries (now - IDLE_TTL_SECS) c;
               left = (if fcard (fmdom kept) \<ge> MAX_ENTRIES then fmempty else kept)
           in c\<lparr>entries := left,
                epoch := epoch c + (if fcard (fmdom left) < fcard (fmdom (entries c)) then 1 else 0)\<rparr>
      else c)"

definition put_if_current ::
  "int \<Rightarrow> int \<Rightarrow> str \<Rightarrow> ticket \<Rightarrow> int \<Rightarrow> desired_state \<Rightarrow> cache \<Rightarrow> bool \<times> cache" where
  "put_if_current now t h tk v s c =
     (let g = generation_of t h c in
      if tk_epoch tk \<noteq> epoch c \<or> tk_generation tk \<noteq> g then (False, c)
      else let c1 = reclaim now c in
           (True, c1\<lparr>entries := fmupd (t, h)
              \<lparr>e_config_version = v, e_state = Some s, e_generation = g, e_last_used = now\<rparr> (entries c1)\<rparr>))"

definition forget_host :: "int \<Rightarrow> str \<Rightarrow> cache \<Rightarrow> cache" where
  "forget_host t h c =
     (if fmlookup (entries c) (t, h) = None then c
      else c\<lparr>entries := fmdrop (t, h) (entries c), epoch := epoch c + 1\<rparr>)"

definition invalidate_host :: "int \<Rightarrow> int \<Rightarrow> str \<Rightarrow> cache \<Rightarrow> cache" where
  "invalidate_host now t h c =
     (let e = (case fmlookup (entries c) (t, h) of
                 None \<Rightarrow> \<lparr>e_config_version = 0, e_state = None, e_generation = 0, e_last_used = now\<rparr>
               | Some e \<Rightarrow> e)
      in c\<lparr>entries := fmupd (t, h) (e\<lparr>e_state := None, e_generation := e_generation e + 1\<rparr>) (entries c)\<rparr>)"

definition cache_stats :: "cache \<Rightarrow> 64 word \<times> 64 word" where
  "cache_stats c = (hits c, misses c)"

section \<open>A poll\<close>

datatype poll_error = TenantNotFound int | ComputeFailed compute_error

text \<open>A poll nothing falls into.\<close>

definition compute_desired_state_at ::
  "codec \<Rightarrow> int \<Rightarrow> int \<Rightarrow> str \<Rightarrow> int \<Rightarrow> db \<Rightarrow> cache \<Rightarrow> (poll_error + desired_state) \<times> cache" where
  "compute_desired_state_at c now t h v d m =
     (case cache_get now t h v m of
        (Some cached, m') \<Rightarrow> (Inr cached, m')
      | (None, m') \<Rightarrow>
          (let tk = take_ticket t h m' in
           case compute_uncached c t h d of
             Inl e \<Rightarrow> (Inl (ComputeFailed e), m')
           | Inr s \<Rightarrow> (Inr s, snd (put_if_current now t h tk v s m'))))"

definition compute_desired_state ::
  "codec \<Rightarrow> int \<Rightarrow> int \<Rightarrow> str \<Rightarrow> db \<Rightarrow> cache \<Rightarrow> (poll_error + desired_state) \<times> cache" where
  "compute_desired_state c now t h d m =
     (case tenant_get t d of
        None \<Rightarrow> (Inl (TenantNotFound t), m)
      | Some row \<Rightarrow> compute_desired_state_at c now t h (te_config_version row) d m)"

section \<open>Polls among changes\<close>

text \<open>
  The world: the database, the cache, the computations under way, and the inputs whose last
  change the cache has not been told of yet. A change of a tenant's configuration is told by
  a version bump, a change of a host's tags or facts by an invalidation, each after the
  change or with it.
\<close>

record flight =
  fl_tenant :: int
  fl_host :: str
  fl_version :: int
  fl_ticket :: ticket
  fl_reads :: "input \<rightharpoonup> input_value"

record world =
  w_db :: db
  w_cache :: cache
  w_flights :: "nat \<rightharpoonup> flight"
  w_pending :: "input set"

inductive_set inputs_of :: "int \<Rightarrow> str \<Rightarrow> input set" for t h where
  "ITags t h \<in> inputs_of t h"
| "IGroups t \<in> inputs_of t h"
| "IFacts t h src \<in> inputs_of t h"
| "IAssigned t \<in> inputs_of t h"
| "IOverride t h \<in> inputs_of t h"

fun input_tenant :: "input \<Rightarrow> int" where
  "input_tenant (ITags t h) = t"
| "input_tenant (IGroups t) = t"
| "input_tenant (IFacts t h src) = t"
| "input_tenant (IAssigned t) = t"
| "input_tenant (IOverride t h) = t"

fun host_input :: "int \<Rightarrow> str \<Rightarrow> input \<Rightarrow> bool" where
  "host_input t h (ITags t' h') = (t' = t \<and> h' = h)"
| "host_input t h (IFacts t' h' src) = (t' = t \<and> h' = h)"
| "host_input t h _ = False"

text \<open>What was read settles a result when nothing not yet read could change it.\<close>

definition settles :: "codec \<Rightarrow> flight \<Rightarrow> compute_error + desired_state \<Rightarrow> bool" where
  "settles c f r \<longleftrightarrow> (\<forall>\<sigma>. (\<forall>i x. fl_reads f i = Some x \<longrightarrow> \<sigma> i = x) \<longrightarrow>
     compute_from c (fl_tenant f) (fl_host f) \<sigma> = r)"

inductive cache_step :: "codec \<Rightarrow> world \<Rightarrow> world \<Rightarrow> bool" for c where
  Change: "(\<And>t. version_of t d' = version_of t (w_db w) \<or> version_of t d' = None) \<Longrightarrow>
     cache_step c w (w\<lparr>w_db := d', w_pending := w_pending w \<union> {i. read_input i d' \<noteq> read_input i (w_db w)}\<rparr>)"
| Bump: "bump_config_version t (w_db w) = Inr (v, d') \<Longrightarrow>
     cache_step c w (w\<lparr>w_db := d', w_pending := w_pending w - {i. input_tenant i = t}\<rparr>)"
| Invalidate:
     "cache_step c w (w\<lparr>w_cache := invalidate_host now t h (w_cache w), w_pending := w_pending w - {i. host_input t h i}\<rparr>)"
| Forget: "cache_step c w (w\<lparr>w_cache := forget_host t h (w_cache w)\<rparr>)"
| Look_Up: "cache_step c w (w\<lparr>w_cache := snd (cache_get now t h v (w_cache w))\<rparr>)"
| Begin: "w_flights w k = None \<Longrightarrow> (\<And>u. version_of t (w_db w) = Some u \<Longrightarrow> v \<le> u) \<Longrightarrow>
     cache_step c w (w\<lparr>w_flights := (w_flights w)(k \<mapsto> \<lparr>fl_tenant = t, fl_host = h, fl_version = v,
       fl_ticket = take_ticket t h (w_cache w), fl_reads = Map.empty\<rparr>)\<rparr>)"
| Read: "w_flights w k = Some f \<Longrightarrow> i \<in> inputs_of (fl_tenant f) (fl_host f) \<Longrightarrow> fl_reads f i = None \<Longrightarrow>
     cache_step c w (w\<lparr>w_flights := (w_flights w)(k \<mapsto> f\<lparr>fl_reads := (fl_reads f)(i \<mapsto> read_input i (w_db w))\<rparr>)\<rparr>)"
| Store: "w_flights w k = Some f \<Longrightarrow> settles c f (Inr s) \<Longrightarrow>
     cache_step c w (w\<lparr>w_cache := snd (put_if_current now (fl_tenant f) (fl_host f) (fl_ticket f) (fl_version f) s (w_cache w)),
       w_flights := (w_flights w)(k := None)\<rparr>)"
| Abandon: "cache_step c w (w\<lparr>w_flights := (w_flights w)(k := None)\<rparr>)"

inductive_cases cache_stepE: "cache_step c w w'"

definition started :: "db \<Rightarrow> world" where
  "started d = \<lparr>w_db = d, w_cache = cache_new, w_flights = Map.empty, w_pending = {}\<rparr>"

inductive reachable_world :: "codec \<Rightarrow> world \<Rightarrow> bool" for c where
  start: "reachable_world c (started d)"
| step: "reachable_world c w \<Longrightarrow> cache_step c w w' \<Longrightarrow> reachable_world c w'"

section \<open>Computations over snapshots\<close>

text \<open>
  A computation that reads named inputs one by one, from values that may change between the
  reads. It explains its result by a snapshot right wherever no change is pending.
\<close>

locale snapshot_compute =
  fixes inputs :: "'k \<Rightarrow> 'i set"
    and compute :: "'k \<Rightarrow> ('i \<Rightarrow> 'v) \<Rightarrow> 'r"
  assumes local: "(\<And>i. i \<in> inputs k \<Longrightarrow> \<sigma> i = \<tau> i) \<Longrightarrow> compute k \<sigma> = compute k \<tau>"
begin

lemma settled_snapshot:
  assumes "\<forall>\<sigma>. (\<forall>i x. reads i = Some x \<longrightarrow> \<sigma> i = x) \<longrightarrow> compute k \<sigma> = r"
    and "\<forall>i \<in> inputs k. i \<notin> pending \<longrightarrow> reads i = None \<or> reads i = Some (cur i)"
  shows "\<exists>\<sigma>. compute k \<sigma> = r \<and> (\<forall>i \<in> inputs k. i \<notin> pending \<longrightarrow> \<sigma> i = cur i)"
proof (intro exI conjI ballI impI)
  show "compute k (\<lambda>i. case reads i of None \<Rightarrow> cur i | Some x \<Rightarrow> x) = r"
    using assms(1) by simp
next
  fix i assume "i \<in> inputs k" "i \<notin> pending"
  then show "(case reads i of None \<Rightarrow> cur i | Some x \<Rightarrow> x) = cur i"
    using assms(2) by (auto split: option.split)
qed

lemma snapshot_current:
  assumes "\<exists>\<sigma>. compute k \<sigma> = r \<and> (\<forall>i \<in> inputs k. i \<notin> pending \<longrightarrow> \<sigma> i = cur i)"
    and "inputs k \<inter> pending = {}"
  shows "compute k cur = r"
proof -
  obtain \<sigma> where "compute k \<sigma> = r" and "\<And>i. i \<in> inputs k \<Longrightarrow> \<sigma> i = cur i" using assms by blast
  then show ?thesis using local [of k \<sigma> cur] by simp
qed

lemma snapshot_kept:
  assumes "\<exists>\<sigma>. compute k \<sigma> = r \<and> (\<forall>i \<in> inputs k. i \<notin> pending \<longrightarrow> \<sigma> i = cur i)"
    and "\<And>i. i \<in> inputs k \<Longrightarrow> i \<notin> pending' \<Longrightarrow> i \<notin> pending \<and> cur' i = cur i"
  shows "\<exists>\<sigma>. compute k \<sigma> = r \<and> (\<forall>i \<in> inputs k. i \<notin> pending' \<longrightarrow> \<sigma> i = cur' i)"
  using assms by (metis (no_types))

end

lemma compute_from_local:
  assumes "\<And>i. i \<in> inputs_of t h \<Longrightarrow> \<sigma> i = \<tau> i"
  shows "compute_from c t h \<sigma> = compute_from c t h \<tau>"
  using assms by (simp add: compute_from_def inputs_of.intros)

interpretation walk: snapshot_compute "\<lambda>k. inputs_of (fst k) (snd k)" "\<lambda>k. compute_from c (fst k) (snd k)" for c
  by unfold_locales (rule compute_from_local)

section \<open>Tickets\<close>

text \<open>
  Every operation either moves the epoch or keeps each generation from falling. So a ticket
  that is current was current ever since it was taken.
\<close>

definition advances :: "cache \<Rightarrow> cache \<Rightarrow> bool" where
  "advances m m' \<longleftrightarrow> epoch m < epoch m' \<or>
     (epoch m' = epoch m \<and> (\<forall>t h. generation_of t h m \<le> generation_of t h m'))"

definition ticket_current :: "ticket \<Rightarrow> int \<Rightarrow> str \<Rightarrow> cache \<Rightarrow> bool" where
  "ticket_current tk t h m \<longleftrightarrow> tk_epoch tk = epoch m \<and> tk_generation tk = generation_of t h m"

definition ticket_past :: "ticket \<Rightarrow> int \<Rightarrow> str \<Rightarrow> cache \<Rightarrow> bool" where
  "ticket_past tk t h m \<longleftrightarrow> tk_epoch tk \<le> epoch m \<and>
     (tk_epoch tk = epoch m \<longrightarrow> tk_generation tk \<le> generation_of t h m)"

lemma past_advances: "ticket_past tk t h m \<Longrightarrow> advances m m' \<Longrightarrow> ticket_past tk t h m'"
  by (auto simp: ticket_past_def advances_def intro: order_trans)

lemma current_before: "ticket_past tk t h m \<Longrightarrow> advances m m' \<Longrightarrow> ticket_current tk t h m' \<Longrightarrow> ticket_current tk t h m"
  unfolding ticket_past_def advances_def ticket_current_def
  by (elim conjE disjE) (simp, metis order_antisym)

lemma take_ticket_past: "ticket_past (take_ticket t h m) t h m"
  by (simp add: take_ticket_def ticket_past_def)

lemma advances_refl [simp]: "advances m m"
  by (simp add: advances_def)

lemma cache_get_advances: "advances m (snd (cache_get now t h v m))"
  by (auto simp: advances_def cache_get_def generation_of_def split: option.splits)

lemma invalidate_advances: "advances m (invalidate_host now t h m)"
  by (auto simp: advances_def invalidate_host_def generation_of_def split: option.splits)

lemma forget_advances: "advances m (forget_host t h m)"
  by (auto simp: advances_def forget_host_def)

lemma live_subset: "fmdom (live_entries cutoff m) |\<subseteq>| fmdom (entries m)"
  by (auto simp: live_entries_def)

lemma reclaim_cases:
  obtains "reclaim now m = m" | "epoch m < epoch (reclaim now m)" | "entries (reclaim now m) = entries m" "epoch (reclaim now m) = epoch m"
proof (cases "fcard (fmdom (entries m)) \<ge> MAX_ENTRIES")
  case True
  define left where "left = (if fcard (fmdom (live_entries (now - IDLE_TTL_SECS) m)) \<ge> MAX_ENTRIES then fmempty
    else live_entries (now - IDLE_TTL_SECS) m)"
  have r: "reclaim now m = m\<lparr>entries := left,
      epoch := epoch m + (if fcard (fmdom left) < fcard (fmdom (entries m)) then 1 else 0)\<rparr>"
    using True by (simp add: reclaim_def left_def Let_def)
  have sub: "fmdom left |\<subseteq>| fmdom (entries m)" using live_subset by (auto simp: left_def)
  have kept: "fmlookup left k = fmlookup (entries m) k" if "k |\<in>| fmdom left" for k
    using that by (auto simp: left_def live_entries_def split: if_splits)
  show thesis
  proof (cases "fcard (fmdom left) < fcard (fmdom (entries m))")
    case False
    then have "fmdom left = fmdom (entries m)" using sub by (metis fcard_seteq linorder_not_less)
    then have "left = entries m" using kept by (intro fmap_ext) (metis fmdom_notD)
    with False r show thesis by (intro that(3)) simp_all
  qed (use r in \<open>auto intro: that(2)\<close>)
qed (auto simp: reclaim_def intro: that(1))

lemma put_advances: "advances m (snd (put_if_current now t h tk v s m))"
  by (cases rule: reclaim_cases [of now m])
    (auto simp: put_if_current_def Let_def advances_def generation_of_def)

lemma invalidate_voids: "ticket_past tk t h m \<Longrightarrow> \<not> ticket_current tk t h (invalidate_host now t h m)"
  by (auto simp: ticket_past_def ticket_current_def invalidate_host_def generation_of_def split: option.splits)

text \<open>What an operation leaves stored: the entry it wrote, or an entry that was there.\<close>

definition stored :: "cache \<Rightarrow> int \<Rightarrow> str \<Rightarrow> int \<Rightarrow> desired_state \<Rightarrow> bool" where
  "stored m t h v s \<longleftrightarrow> (\<exists>e. fmlookup (entries m) (t, h) = Some e \<and> e_config_version e = v \<and> e_state e = Some s)"

lemma stored_new [simp]: "\<not> stored cache_new t h v s"
  by (simp add: stored_def cache_new_def)

lemma stored_get: "stored (snd (cache_get now t' h' v' m)) t h v s \<Longrightarrow> stored m t h v s"
  by (auto simp: stored_def cache_get_def split: option.splits if_splits)

lemma stored_invalidate: "stored (invalidate_host now t' h' m) t h v s \<Longrightarrow> stored m t h v s \<and> (t, h) \<noteq> (t', h')"
  by (auto simp: stored_def invalidate_host_def Let_def split: if_splits)

lemma stored_forget: "stored (forget_host t' h' m) t h v s \<Longrightarrow> stored m t h v s"
  by (auto simp: stored_def forget_host_def split: if_splits)

lemma lookup_reclaim: "fmlookup (entries (reclaim now m)) k = Some e \<Longrightarrow> fmlookup (entries m) k = Some e"
  by (auto simp: reclaim_def live_entries_def Let_def split: if_splits)

lemma stored_put:
  "stored (snd (put_if_current now t' h' tk v' s' m)) t h v s \<Longrightarrow>
   stored m t h v s \<or> (t' = t \<and> h' = h \<and> v' = v \<and> s' = s \<and> ticket_current tk t h m)"
  by (auto simp: stored_def put_if_current_def ticket_current_def Let_def dest: lookup_reclaim split: if_splits)

lemma cache_get_hit: "fst (cache_get now t h v m) = Some s \<longleftrightarrow> stored m t h v s"
  by (auto simp: stored_def cache_get_def split: option.splits)

section \<open>What the cache holds is true\<close>

definition explained :: "codec \<Rightarrow> world \<Rightarrow> int \<Rightarrow> str \<Rightarrow> desired_state \<Rightarrow> bool" where
  "explained c w t h s \<longleftrightarrow> (\<exists>\<sigma>. compute_from c t h \<sigma> = Inr s \<and>
     (\<forall>i \<in> inputs_of t h. i \<notin> w_pending w \<longrightarrow> \<sigma> i = read_input i (w_db w)))"

definition entries_true :: "codec \<Rightarrow> world \<Rightarrow> bool" where
  "entries_true c w \<longleftrightarrow> (\<forall>t h v s u. stored (w_cache w) t h v s \<longrightarrow> version_of t (w_db w) = Some u \<longrightarrow>
     v \<le> u \<and> (v = u \<longrightarrow> explained c w t h s))"

definition reads_true :: "world \<Rightarrow> flight \<Rightarrow> bool" where
  "reads_true w f \<longleftrightarrow> (\<forall>i \<in> inputs_of (fl_tenant f) (fl_host f). i \<notin> w_pending w \<longrightarrow>
     fl_reads f i = None \<or> fl_reads f i = Some (read_input i (w_db w)))"

definition flight_true :: "world \<Rightarrow> flight \<Rightarrow> bool" where
  "flight_true w f \<longleftrightarrow> ticket_past (fl_ticket f) (fl_tenant f) (fl_host f) (w_cache w) \<and>
     (\<forall>u. version_of (fl_tenant f) (w_db w) = Some u \<longrightarrow> fl_version f \<le> u \<and>
        (fl_version f = u \<and> ticket_current (fl_ticket f) (fl_tenant f) (fl_host f) (w_cache w) \<longrightarrow> reads_true w f))"

definition cache_true :: "codec \<Rightarrow> world \<Rightarrow> bool" where
  "cache_true c w \<longleftrightarrow> entries_true c w \<and> (\<forall>k f. w_flights w k = Some f \<longrightarrow> flight_true w f)"

text \<open>
  From one world to the next: a tenant's version may grow, and while it does not, an input of
  a host is either pending or as it was, for the hosts in \<open>K\<close>.
\<close>

definition follows :: "(int \<times> str) set \<Rightarrow> world \<Rightarrow> world \<Rightarrow> bool" where
  "follows K w w' \<longleftrightarrow> (\<forall>t u'. version_of t (w_db w') = Some u' \<longrightarrow>
     (\<exists>u. version_of t (w_db w) = Some u \<and> (u < u' \<or> u = u' \<and>
        (\<forall>h i. (t, h) \<in> K \<longrightarrow> i \<in> inputs_of t h \<longrightarrow> i \<notin> w_pending w' \<longrightarrow>
           i \<notin> w_pending w \<and> read_input i (w_db w') = read_input i (w_db w)))))"

lemma follows_same [simp]: "w_db w' = w_db w \<Longrightarrow> w_pending w' = w_pending w \<Longrightarrow> follows K w w'"
  by (simp add: follows_def)

lemma entries_follow:
  assumes old: "entries_true c w" and f: "follows K w w'"
    and st: "\<And>t h v s. stored (w_cache w') t h v s \<Longrightarrow> stored (w_cache w) t h v s \<and> (t, h) \<in> K"
  shows "entries_true c w'"
  unfolding entries_true_def
proof (intro allI impI)
  fix t h v s u' assume s': "stored (w_cache w') t h v s" and u': "version_of t (w_db w') = Some u'"
  from f u' obtain u where u: "version_of t (w_db w) = Some u" and or: "u < u' \<or> u = u' \<and>
        (\<forall>h i. (t, h) \<in> K \<longrightarrow> i \<in> inputs_of t h \<longrightarrow> i \<notin> w_pending w' \<longrightarrow>
           i \<notin> w_pending w \<and> read_input i (w_db w') = read_input i (w_db w))"
    unfolding follows_def by blast
  have o: "v \<le> u" "v = u \<Longrightarrow> explained c w t h s"
    using old st [OF s'] u unfolding entries_true_def by blast+
  have "explained c w' t h s" if "v = u'"
  proof -
    from that o(1) or have eq: "u = u'" by linarith
    then have e: "explained c w t h s" using o(2) that by simp
    show ?thesis
      unfolding explained_def
      by (rule walk.snapshot_kept [where k = "(t, h)", simplified, OF e [unfolded explained_def]])
        (use or eq st [OF s'] in blast)
  qed
  then show "v \<le> u' \<and> (v = u' \<longrightarrow> explained c w' t h s)" using o(1) or by auto
qed

lemma flight_follows:
  assumes old: "flight_true w f" and fo: "follows K w w'" and adv: "advances (w_cache w) (w_cache w')"
    and K: "ticket_current (fl_ticket f) (fl_tenant f) (fl_host f) (w_cache w') \<Longrightarrow> (fl_tenant f, fl_host f) \<in> K"
  shows "flight_true w' f"
  unfolding flight_true_def
proof (intro conjI allI impI; (elim conjE)?)
  have past: "ticket_past (fl_ticket f) (fl_tenant f) (fl_host f) (w_cache w)" using old by (simp add: flight_true_def)
  then show "ticket_past (fl_ticket f) (fl_tenant f) (fl_host f) (w_cache w')" using adv by (rule past_advances)
  fix u' assume u': "version_of (fl_tenant f) (w_db w') = Some u'"
  from fo u' obtain u where u: "version_of (fl_tenant f) (w_db w) = Some u" and or: "u < u' \<or> u = u' \<and>
        (\<forall>h i. (fl_tenant f, h) \<in> K \<longrightarrow> i \<in> inputs_of (fl_tenant f) h \<longrightarrow> i \<notin> w_pending w' \<longrightarrow>
           i \<notin> w_pending w \<and> read_input i (w_db w') = read_input i (w_db w))"
    unfolding follows_def by blast
  have o: "fl_version f \<le> u" using old u by (simp add: flight_true_def)
  then show "fl_version f \<le> u'" using or by auto
  assume eq: "fl_version f = u'" and cur: "ticket_current (fl_ticket f) (fl_tenant f) (fl_host f) (w_cache w')"
  have same: "u = u'" using o or eq by linarith
  have "reads_true w f"
    using old u eq same current_before [OF past adv cur] by (simp add: flight_true_def)
  with or same K [OF cur] show "reads_true w' f" unfolding reads_true_def by (metis less_irrefl)
qed

lemma read_input_tenants [simp]: "read_input i (d\<lparr>tenants := rows\<rparr>) = read_input i d"
  by (cases i) (simp_all add: map_for_host_def group_list_def facts_get_def list_for_groups_def override_get_def
      fetch_optional_def cong del: if_weak_cong)

lemma find_bump_other: "t' \<noteq> t \<Longrightarrow> find (\<lambda>r. t_id r = t') (bump_version t rows) = find (\<lambda>r. t_id r = t') rows"
  by (induction rows) (auto simp: bump_version_def update_where_def)

lemma version_of_bump_other: "t' \<noteq> t \<Longrightarrow> version_of t' (d\<lparr>tenants := bump_version t (tenants d)\<rparr>) = version_of t' d"
  by (simp add: version_of_def fetch_optional_def find_bump_other)

lemma inputs_of_tenant: "i \<in> inputs_of t h \<Longrightarrow> input_tenant i = t"
  by (auto elim: inputs_of.cases)

lemma inputs_of_host: "i \<in> inputs_of t h \<Longrightarrow> host_input t' h' i \<Longrightarrow> (t, h) = (t', h')"
  by (auto elim: inputs_of.cases)

lemma change_follows:
  "(\<And>t. version_of t d' = version_of t (w_db w) \<or> version_of t d' = None) \<Longrightarrow>
   follows UNIV w (w\<lparr>w_db := d', w_pending := w_pending w \<union> {i. read_input i d' \<noteq> read_input i (w_db w)}\<rparr>)"
  unfolding follows_def by (auto, metis option.distinct(1))

lemma bump_follows:
  assumes "bump_config_version t (w_db w) = Inr (v, d')"
  shows "follows UNIV w (w\<lparr>w_db := d', w_pending := w_pending w - {i. input_tenant i = t}\<rparr>)"
proof -
  have d': "d' = (w_db w)\<lparr>tenants := bump_version t (tenants (w_db w))\<rparr>"
    using assms by (auto simp: bump_config_version_result split: option.splits)
  show ?thesis
    unfolding follows_def
  proof (intro allI impI)
    fix t' u' assume u': "version_of t' (w_db (w\<lparr>w_db := d', w_pending := w_pending w - {i. input_tenant i = t}\<rparr>)) = Some u'"
    show "\<exists>u. version_of t' (w_db w) = Some u \<and> (u < u' \<or> u = u' \<and> (\<forall>h i. (t', h) \<in> UNIV \<longrightarrow> i \<in> inputs_of t' h \<longrightarrow>
        i \<notin> w_pending (w\<lparr>w_db := d', w_pending := w_pending w - {i. input_tenant i = t}\<rparr>) \<longrightarrow> i \<notin> w_pending w \<and>
        read_input i (w_db (w\<lparr>w_db := d', w_pending := w_pending w - {i. input_tenant i = t}\<rparr>)) = read_input i (w_db w)))"
    proof (cases "t' = t")
      case True
      with u' show ?thesis by (auto simp: d' version_of_bump)
    next
      case False
      with u' show ?thesis by (auto simp: d' version_of_bump_other dest: inputs_of_tenant)
    qed
  qed
qed

lemma invalidate_follows:
  "follows {k. k \<noteq> (t, h)} w (w\<lparr>w_cache := m, w_pending := w_pending w - {i. host_input t h i}\<rparr>)"
  unfolding follows_def by (auto dest: inputs_of_host)

lemma cache_true_follows:
  assumes "cache_true c w" and "follows K w w'" and "advances (w_cache w) (w_cache w')"
    and "\<And>t h v s. stored (w_cache w') t h v s \<Longrightarrow> stored (w_cache w) t h v s \<and> (t, h) \<in> K"
    and "\<And>k f. w_flights w' k = Some f \<Longrightarrow> w_flights w k = Some f \<and>
      (ticket_current (fl_ticket f) (fl_tenant f) (fl_host f) (w_cache w') \<longrightarrow> (fl_tenant f, fl_host f) \<in> K)"
  shows "cache_true c w'"
  unfolding cache_true_def
proof (intro conjI allI impI)
  have "entries_true c w" using assms(1) by (simp add: cache_true_def)
  then show "entries_true c w'" using assms(2,4) by (rule entries_follow)
next
  fix k f assume "w_flights w' k = Some f"
  from assms(5) [OF this] have k: "w_flights w k = Some f"
    and K: "ticket_current (fl_ticket f) (fl_tenant f) (fl_host f) (w_cache w') \<Longrightarrow> (fl_tenant f, fl_host f) \<in> K"
    by blast+
  from assms(1) k have "flight_true w f" unfolding cache_true_def by blast
  then show "flight_true w' f" using assms(2,3) K by (rule flight_follows)
qed

lemma store_true:
  assumes inv: "cache_true c w" and fl: "w_flights w k = Some f" and set: "settles c f (Inr s)"
  shows "cache_true c (w\<lparr>w_cache := snd (put_if_current now (fl_tenant f) (fl_host f) (fl_ticket f) (fl_version f) s (w_cache w)),
       w_flights := (w_flights w)(k := None)\<rparr>)" (is "cache_true c ?w'")
proof -
  have ft: "flight_true w f" using inv fl by (simp add: cache_true_def)
  have new: "fl_version f \<le> u \<and> (fl_version f = u \<longrightarrow> explained c w (fl_tenant f) (fl_host f) s)"
    if "version_of (fl_tenant f) (w_db w) = Some u" and "ticket_current (fl_ticket f) (fl_tenant f) (fl_host f) (w_cache w)" for u
  proof -
    have "fl_version f \<le> u" "fl_version f = u \<Longrightarrow> reads_true w f" using ft that by (auto simp: flight_true_def)
    moreover have "explained c w (fl_tenant f) (fl_host f) s" if "reads_true w f"
      using walk.settled_snapshot [where k = "(fl_tenant f, fl_host f)", of "fl_reads f" c "Inr s"] set that
      by (simp add: settles_def reads_true_def explained_def)
    ultimately show ?thesis by blast
  qed
  have "entries_true c ?w'"
    unfolding entries_true_def
  proof (intro allI impI)
    fix t h v s' u assume st: "stored (w_cache ?w') t h v s'" and u: "version_of t (w_db ?w') = Some u"
    have "v \<le> u \<and> (v = u \<longrightarrow> explained c w t h s')"
    proof (cases "stored (w_cache w) t h v s'")
      case True
      then show ?thesis using inv u by (simp add: cache_true_def entries_true_def)
    next
      case False
      with st have "fl_tenant f = t" "fl_host f = h" "fl_version f = v" "s = s'"
        "ticket_current (fl_ticket f) t h (w_cache w)" using stored_put [of now] by force+
      then show ?thesis using new u by auto
    qed
    then show "v \<le> u \<and> (v = u \<longrightarrow> explained c ?w' t h s')" by (simp add: explained_def)
  qed
  moreover have "flight_true ?w' g" if "w_flights ?w' j = Some g" for j g
  proof -
    have "flight_true w g" using inv that by (auto simp: cache_true_def split: if_splits)
    then show ?thesis by (rule flight_follows [where K = UNIV]) (simp_all add: put_advances)
  qed
  ultimately show ?thesis by (auto simp: cache_true_def)
qed

lemma begin_true:
  assumes "cache_true c w" and "\<And>u. version_of t (w_db w) = Some u \<Longrightarrow> v \<le> u"
  shows "cache_true c (w\<lparr>w_flights := (w_flights w)(k \<mapsto> \<lparr>fl_tenant = t, fl_host = h, fl_version = v,
       fl_ticket = take_ticket t h (w_cache w), fl_reads = Map.empty\<rparr>)\<rparr>)"
  using assms by (auto simp: cache_true_def entries_true_def explained_def flight_true_def reads_true_def take_ticket_past)

lemma read_true:
  assumes inv: "cache_true c w" and f: "w_flights w k = Some f"
  shows "cache_true c (w\<lparr>w_flights := (w_flights w)(k \<mapsto> f\<lparr>fl_reads := (fl_reads f)(i \<mapsto> read_input i (w_db w))\<rparr>)\<rparr>)"
  using inv f by (auto simp: cache_true_def entries_true_def explained_def flight_true_def reads_true_def)

lemma step_true: "cache_step c w w' \<Longrightarrow> cache_true c w \<Longrightarrow> cache_true c w'"
proof (induction rule: cache_step.induct)
  case (Change d' w)
  show ?case by (rule cache_true_follows [OF Change(2) change_follows]) (use Change(1) in auto)
next
  case (Bump t w v d')
  show ?case by (rule cache_true_follows [OF Bump(2) bump_follows [OF Bump(1)]]) auto
next
  case (Invalidate w t h now)
  have void: "\<not> ticket_current (fl_ticket f) t h (invalidate_host now t h (w_cache w))"
    if "w_flights w k = Some f" "fl_tenant f = t" "fl_host f = h" for k f
    using Invalidate that by (intro invalidate_voids) (auto simp: cache_true_def flight_true_def)
  show ?case
    by (rule cache_true_follows [OF Invalidate invalidate_follows])
      (use void in \<open>auto simp: invalidate_advances dest: stored_invalidate\<close>)
next
  case (Forget w t h)
  show ?case
    by (rule cache_true_follows [OF Forget follows_same [where K = UNIV]]) (auto simp: forget_advances dest: stored_forget)
next
  case (Look_Up w now t h v)
  show ?case
    by (rule cache_true_follows [OF Look_Up follows_same [where K = UNIV]]) (auto simp: cache_get_advances dest: stored_get)
next
  case (Begin w k t v h)
  show ?case by (rule begin_true [OF Begin(3)]) (use Begin in blast)
next
  case (Read w k f i)
  then show ?case by (intro read_true)
next
  case (Store w k f s now)
  then show ?case by (intro store_true)
next
  case (Abandon w k)
  show ?case
    by (rule cache_true_follows [OF Abandon follows_same [where K = UNIV]]) (auto split: if_splits)
qed

lemma reachable_true: "reachable_world c w \<Longrightarrow> cache_true c w"
proof (induction rule: reachable_world.induct)
  case (start d)
  show ?case by (simp add: cache_true_def entries_true_def started_def)
qed (rule step_true)

section \<open>What a poll is answered\<close>

lemma hit_is_current:
  assumes r: "reachable_world c w" and hit: "stored (w_cache w) t h v s"
    and v: "version_of t (w_db w) = Some v" and told: "inputs_of t h \<inter> w_pending w = {}"
  shows "compute_uncached c t h (w_db w) = Inr s"
proof -
  have "explained c w t h s"
    using reachable_true [OF r] hit v unfolding cache_true_def entries_true_def by blast
  then have "compute_from c (fst (t, h)) (snd (t, h)) (\<lambda>i. read_input i (w_db w)) = Inr s"
    using told by (intro walk.snapshot_current) (auto simp: explained_def)
  then show ?thesis by (simp add: compute_uncached_def)
qed

lemma poll_current:
  assumes "reachable_world c w" and "inputs_of t h \<inter> w_pending w = {}"
  shows "fst (compute_desired_state c now t h (w_db w) (w_cache w)) =
    (case version_of t (w_db w) of
       None \<Rightarrow> Inl (TenantNotFound t)
     | Some v \<Rightarrow> (case compute_uncached c t h (w_db w) of Inl e \<Rightarrow> Inl (ComputeFailed e) | Inr s \<Rightarrow> Inr s))"
proof (cases "tenant_get t (w_db w)")
  case None
  then show ?thesis by (simp add: compute_desired_state_def version_of_def tenant_get_def)
next
  case (Some row)
  then have v: "version_of t (w_db w) = Some (te_config_version row)"
    by (auto simp: version_of_def tenant_get_def map_tenant_def)
  obtain got m' where get: "cache_get now t h (te_config_version row) (w_cache w) = (got, m')" by fastforce
  show ?thesis
  proof (cases got)
    case None
    with Some v get show ?thesis
      by (simp add: compute_desired_state_def compute_desired_state_at_def Let_def split: sum.split)
  next
    case hit: (Some s)
    then have "stored (w_cache w) t h (te_config_version row) s"
      using cache_get_hit [of now t h "te_config_version row" "w_cache w" s] get by simp
    from hit_is_current [OF assms(1) this v assms(2)] show ?thesis
      using Some v get hit by (simp add: compute_desired_state_def compute_desired_state_at_def)
  qed
qed

text \<open>
  C1: whatever polls, changes, bumps, invalidations, forgotten hosts and reclaims came before
  and however they fell between the reads of the computations, once every change of a host's
  inputs has been told to the cache, a poll is answered what a fresh computation gives,
  errors included.
\<close>

theorem polls_answered_currently:
  assumes "reachable_world c w" and "inputs_of t h \<inter> w_pending w = {}"
  shows "fst (compute_desired_state c now t h (w_db w) (w_cache w)) =
    (case version_of t (w_db w) of
       None \<Rightarrow> Inl (TenantNotFound t)
     | Some v \<Rightarrow> (case compute_uncached c t h (w_db w) of Inl e \<Rightarrow> Inl (ComputeFailed e) | Inr s \<Rightarrow> Inr s))"
  using assms by (rule poll_current)

text \<open>A database where the groups of a tenant go, and the tenant is told.\<close>

definition ungrouped :: db where
  "ungrouped = sample_bundles\<lparr>groups := []\<rparr>"

definition told :: db where
  "told = ungrouped\<lparr>tenants := bump_version 1 (tenants ungrouped)\<rparr>"

theorem polls_answered_currently_witness:
  "\<exists>w s. reachable_world sample_codec w \<and> w_db w = told
     \<and> fst (compute_desired_state sample_codec 5 1 ''h'' (w_db w) (w_cache w)) = Inr s \<and> desired_bundles s = []"
proof -
  let ?w1 = "(started sample_bundles)\<lparr>w_db := ungrouped,
      w_pending := w_pending (started sample_bundles) \<union> {i. read_input i ungrouped \<noteq> read_input i (w_db (started sample_bundles))}\<rparr>"
  let ?w2 = "?w1\<lparr>w_db := told, w_pending := w_pending ?w1 - {i. input_tenant i = 1}\<rparr>"
  have v: "version_of 1 ungrouped = Some 0"
    by (simp add: version_of_def fetch_optional_def ungrouped_def sample_bundles_def sample_defs)
  have "cache_step sample_codec (started sample_bundles) ?w1"
    by (rule Change) (simp add: started_def ungrouped_def version_of_def)
  moreover have "cache_step sample_codec ?w1 ?w2"
    by (rule Bump) (simp add: bump_config_version_result v told_def)
  ultimately have r: "reachable_world sample_codec ?w2" using reachable_world.intros by blast
  moreover have "inputs_of 1 ''h'' \<inter> w_pending ?w2 = {}" by (auto dest: inputs_of_tenant)
  moreover have "version_of 1 told = Some 1"
    unfolding told_def by (simp add: version_of_bump v)
  moreover obtain s where "compute_uncached sample_codec 1 ''h'' told = Inr s" "desired_bundles s = []"
    by (auto simp: compute_uncached_def compute_from_def override_value_def Let_def override_get_def fetch_optional_def
        told_def ungrouped_def sample_bundles_def sample_defs group_list_def list_for_groups_def
        matching_group_ids_def group_selectors_def order_asc_def List.map_filter_def)
  ultimately show ?thesis
    using polls_answered_currently [OF r, of 1 "''h''" 5] by (intro exI [of _ ?w2] exI [of _ s]) simp
qed

text \<open>
  A poll nothing falls into leaves its answer stored: the next poll of the host at the
  same version is a hit with the same state, whatever the database holds by then.
\<close>

theorem poll_fills_cache:
  assumes "compute_desired_state_at c now t h v d m = (Inr s, m')"
  shows "fst (compute_desired_state_at c now' t h v d' m') = Inr s"
proof -
  have "stored m' t h v s"
    using assms
    by (auto simp: compute_desired_state_at_def cache_get_def put_if_current_def take_ticket_def stored_def Let_def
        generation_of_def split: option.splits if_splits sum.splits)
  then have "fst (cache_get now' t h v m') = Some s" by (simp add: cache_get_hit)
  then show ?thesis by (auto simp: compute_desired_state_at_def split: prod.split option.split)
qed

definition empty_state :: desired_state where
  "empty_state = \<lparr>state_hash = ''aa'', merged_config = JObj [], desired_bundles = []\<rparr>"

lemma empty_state_stored:
  "put_if_current 5 1 ''h'' (take_ticket 1 ''h'' cache_new) 0 empty_state cache_new =
     (True, cache_new\<lparr>entries := fmupd (1, ''h'')
        \<lparr>e_config_version = 0, e_state = Some empty_state, e_generation = 0, e_last_used = 5\<rparr> fmempty\<rparr>)"
  by (simp add: put_if_current_def take_ticket_def cache_new_def generation_of_def reclaim_def MAX_ENTRIES_def fcard.rep_eq)

theorem poll_fills_cache_witness:
  "\<exists>m. fst (compute_desired_state_at sample_codec 9 1 ''h'' 0 empty_db m) = Inr empty_state \<and> misses m = 0"
proof -
  let ?m = "cache_new\<lparr>entries := fmupd (1, ''h'')
        \<lparr>e_config_version = 0, e_state = Some empty_state, e_generation = 0, e_last_used = 5\<rparr> fmempty\<rparr>"
  let ?m' = "snd (compute_desired_state_at sample_codec 7 1 ''h'' 0 sample_bundles ?m)"
  have hit: "compute_desired_state_at sample_codec 7 1 ''h'' 0 sample_bundles ?m = (Inr empty_state, ?m')"
    "misses ?m' = 0"
    by (simp_all add: compute_desired_state_at_def cache_get_def cache_new_def)
  from poll_fills_cache [OF hit(1), of 9 empty_db] hit(2) show ?thesis by blast
qed

text \<open>
  Whatever the cache held, once a computation was stored it holds at most
  \<open>MAX_ENTRIES\<close> entries, the one just stored among them.
\<close>

theorem storing_bounds_cache:
  assumes "put_if_current now t h tk v s m = (True, m')"
  shows "fcard (fmdom (entries m')) \<le> MAX_ENTRIES \<and> stored m' t h v s"
proof -
  have m': "m' = (reclaim now m)\<lparr>entries := fmupd (t, h)
              \<lparr>e_config_version = v, e_state = Some s, e_generation = generation_of t h m, e_last_used = now\<rparr> (entries (reclaim now m))\<rparr>"
    using assms by (auto simp: put_if_current_def Let_def split: if_splits)
  have "fcard (fmdom (entries (reclaim now m))) < MAX_ENTRIES"
    by (simp add: reclaim_def Let_def MAX_ENTRIES_def fcard.rep_eq)
  then have "fcard (finsert (t, h) (fmdom (entries (reclaim now m)))) \<le> MAX_ENTRIES"
    by (simp add: fcard_finsert_if)
  then show ?thesis by (simp add: m' stored_def)
qed

theorem storing_bounds_cache_witness:
  "fcard (fmdom (entries (snd (put_if_current 5 1 ''h'' (take_ticket 1 ''h'' cache_new) 0 empty_state cache_new)))) \<le> MAX_ENTRIES"
  using storing_bounds_cache [OF empty_state_stored] by (simp add: empty_state_stored)

section \<open>Writers that tell the cache\<close>

text \<open>
  What a request handler does to the database and the cache is a run of the steps above, the
  computations under way going on as they were, that leaves no change untold, but for what is
  read for hosts that are gone (\<open>G\<close>). Such a handler may change whatever a computation reads.
\<close>

definition dead_input :: "(int \<times> str) set \<Rightarrow> input \<Rightarrow> bool" where
  "dead_input G i \<longleftrightarrow> (\<exists>(t, h) \<in> G. host_input t h i \<or> i = IOverride t h)"

definition informs :: "(int \<times> str) set \<Rightarrow> codec \<Rightarrow> db \<Rightarrow> cache \<Rightarrow> db \<Rightarrow> cache \<Rightarrow> bool" where
  "informs G c d m d' m' \<longleftrightarrow>
     (\<forall>w. w_db w = d \<and> w_cache w = m \<and> w_pending w \<subseteq> Collect (dead_input G) \<and> (\<exists>k. w_flights w k = None) \<longrightarrow>
       (\<exists>P. P \<subseteq> Collect (dead_input G) \<and> (cache_step c)\<^sup>*\<^sup>* w (w\<lparr>w_db := d', w_cache := m', w_pending := P\<rparr>)))"

lemma informsI:
  assumes "\<And>w :: world. w_db w = d \<Longrightarrow> w_cache w = m \<Longrightarrow> w_pending w \<subseteq> Collect (dead_input G) \<Longrightarrow>
    \<exists>k. w_flights w k = None \<Longrightarrow> \<exists>P. P \<subseteq> Collect (dead_input G) \<and> (cache_step c)\<^sup>*\<^sup>* w (w\<lparr>w_db := d', w_cache := m', w_pending := P\<rparr>)"
  shows "informs G c d m d' m'"
  unfolding informs_def using assms by blast

lemma informsE:
  fixes w :: world
  assumes "informs G c d m d' m'" "w_db w = d" "w_cache w = m" "w_pending w \<subseteq> Collect (dead_input G)"
    and "\<exists>k. w_flights w k = None"
  obtains P where "P \<subseteq> Collect (dead_input G)" "(cache_step c)\<^sup>*\<^sup>* w (w\<lparr>w_db := d', w_cache := m', w_pending := P\<rparr>)"
  using assms unfolding informs_def by blast

lemma informs_refl [intro]: "informs G c d m d m"
proof (rule informsI)
  fix w :: world assume w: "w_db w = d" "w_cache w = m" "w_pending w \<subseteq> Collect (dead_input G)" "\<exists>k. w_flights w k = None"
  then have "w\<lparr>w_db := d, w_cache := m, w_pending := w_pending w\<rparr> = w" by simp
  with w(3) show "\<exists>P. P \<subseteq> Collect (dead_input G) \<and> (cache_step c)\<^sup>*\<^sup>* w (w\<lparr>w_db := d, w_cache := m, w_pending := P\<rparr>)"
    by (intro exI [of _ "w_pending w"]) simp
qed

lemma two_steps: "cache_step c w w1 \<Longrightarrow> cache_step c w1 w2 \<Longrightarrow> (cache_step c)\<^sup>*\<^sup>* w w2"
  by (meson r_into_rtranclp rtranclp.rtrancl_into_rtrancl)

lemma informs_trans [trans]:
  assumes "informs G c d m d1 m1" and "informs G c d1 m1 d2 m2"
  shows "informs G c d m d2 m2"
proof (rule informsI)
  fix w :: world assume w: "w_db w = d" "w_cache w = m" "w_pending w \<subseteq> Collect (dead_input G)" "\<exists>k. w_flights w k = None"
  from informsE [OF assms(1) w] obtain P where P: "P \<subseteq> Collect (dead_input G)"
    "(cache_step c)\<^sup>*\<^sup>* w (w\<lparr>w_db := d1, w_cache := m1, w_pending := P\<rparr>)" .
  from informsE [OF assms(2), of "w\<lparr>w_db := d1, w_cache := m1, w_pending := P\<rparr>"] P(1) w(4) obtain Q where
    "Q \<subseteq> Collect (dead_input G)" "(cache_step c)\<^sup>*\<^sup>* (w\<lparr>w_db := d1, w_cache := m1, w_pending := P\<rparr>)
      (w\<lparr>w_db := d1, w_cache := m1, w_pending := P, w_db := d2, w_cache := m2, w_pending := Q\<rparr>)" by auto
  with P(2) show "\<exists>P. P \<subseteq> Collect (dead_input G) \<and> (cache_step c)\<^sup>*\<^sup>* w (w\<lparr>w_db := d2, w_cache := m2, w_pending := P\<rparr>)"
    by (intro exI [of _ Q]) auto
qed

lemma change_stepI:
  assumes "w_db w = d" and "\<And>t. version_of t d' = version_of t d \<or> version_of t d' = None"
  shows "cache_step c w (w\<lparr>w_db := d', w_pending := w_pending w \<union> {i. read_input i d' \<noteq> read_input i d}\<rparr>)"
  using Change [of d' w c] assms by simp

text \<open>Changes nobody reads; changes of one host, told by an invalidation; of a tenant, by a bump.\<close>

lemma informs_dead:
  assumes "\<And>i. read_input i d' = read_input i d \<or> dead_input G i" and "\<And>t. version_of t d' = version_of t d"
  shows "informs G c d m d' m"
proof (rule informsI)
  fix w :: world assume w: "w_db w = d" "w_cache w = m" "w_pending w \<subseteq> Collect (dead_input G)" "\<exists>k. w_flights w k = None"
  let ?P = "w_pending w \<union> {i. read_input i d' \<noteq> read_input i d}"
  have "w\<lparr>w_db := d', w_cache := m, w_pending := ?P\<rparr> = w\<lparr>w_db := d', w_pending := ?P\<rparr>" using w by simp
  moreover have "?P \<subseteq> Collect (dead_input G)" using w(3) assms(1) by auto
  ultimately show "\<exists>P. P \<subseteq> Collect (dead_input G) \<and> (cache_step c)\<^sup>*\<^sup>* w (w\<lparr>w_db := d', w_cache := m, w_pending := P\<rparr>)"
    using change_stepI [OF w(1), of d' c] assms(2) by (intro exI [of _ ?P]) auto
qed

lemma informs_unread:
  assumes "\<And>i. read_input i d' = read_input i d" and "\<And>t. version_of t d' = version_of t d"
  shows "informs G c d m d' m"
  using assms by (intro informs_dead) auto

lemma invalidate_steps:
  "(cache_step c)\<^sup>*\<^sup>* w (w\<lparr>w_cache := fold (invalidate_host now t) hs (w_cache w),
      w_pending := w_pending w - {i. \<exists>h \<in> set hs. host_input t h i}\<rparr>)"
proof (induction hs arbitrary: w)
  case (Cons h hs)
  let ?w1 = "w\<lparr>w_cache := invalidate_host now t h (w_cache w), w_pending := w_pending w - {i. host_input t h i}\<rparr>"
  have "cache_step c w ?w1" by (rule Invalidate)
  moreover have "w_pending w - {i. host_input t h i} - {i. \<exists>h \<in> set hs. host_input t h i}
      = w_pending w - {i. \<exists>h' \<in> set (h # hs). host_input t h' i}" by auto
  ultimately show ?case using Cons.IH [of ?w1] by (simp add: converse_rtranclp_into_rtranclp)
qed simp

lemma informs_hosts:
  assumes "\<And>i. read_input i d' = read_input i d \<or> (\<exists>h \<in> set hs. host_input t h i)"
    and "\<And>t. version_of t d' = version_of t d"
  shows "informs G c d m d' (fold (invalidate_host now t) hs m)"
proof (rule informsI)
  fix w :: world assume w: "w_db w = d" "w_cache w = m" "w_pending w \<subseteq> Collect (dead_input G)" "\<exists>k. w_flights w k = None"
  let ?w1 = "w\<lparr>w_db := d', w_pending := w_pending w \<union> {i. read_input i d' \<noteq> read_input i d}\<rparr>"
  let ?P = "w_pending ?w1 - {i. \<exists>h \<in> set hs. host_input t h i}"
  have "cache_step c w ?w1" using change_stepI [OF w(1)] assms(2) by simp
  then have "(cache_step c)\<^sup>*\<^sup>* w (?w1\<lparr>w_cache := fold (invalidate_host now t) hs (w_cache ?w1), w_pending := ?P\<rparr>)"
    using invalidate_steps by (rule converse_rtranclp_into_rtranclp)
  moreover have "?P \<subseteq> Collect (dead_input G)" using assms(1) w(3) by auto
  ultimately show "\<exists>P. P \<subseteq> Collect (dead_input G) \<and>
      (cache_step c)\<^sup>*\<^sup>* w (w\<lparr>w_db := d', w_cache := fold (invalidate_host now t) hs m, w_pending := P\<rparr>)"
    using w by (intro exI [of _ ?P]) (cases w, simp)
qed

lemma informs_host:
  assumes "\<And>i. read_input i d' = read_input i d \<or> host_input t h i" and "\<And>t. version_of t d' = version_of t d"
  shows "informs G c d m d' (invalidate_host now t h m)"
  using informs_hosts [of d' d "[h]" t G c m now] assms by simp

lemma informs_tenant:
  assumes "\<And>i. read_input i d' = read_input i d \<or> input_tenant i = t"
    and "\<And>t. version_of t d' = version_of t d" and "bump_config_version t d' = Inr (v, d'')"
  shows "informs G c d m d'' m"
proof (rule informsI)
  fix w :: world assume w: "w_db w = d" "w_cache w = m" "w_pending w \<subseteq> Collect (dead_input G)" "\<exists>k. w_flights w k = None"
  let ?w1 = "w\<lparr>w_db := d', w_pending := w_pending w \<union> {i. read_input i d' \<noteq> read_input i d}\<rparr>"
  let ?P = "w_pending ?w1 - {i. input_tenant i = t}"
  have "cache_step c w ?w1" using change_stepI [OF w(1)] assms(2) by simp
  moreover have "cache_step c ?w1 (?w1\<lparr>w_db := d'', w_pending := ?P\<rparr>)"
    by (rule Bump) (simp add: assms(3))
  ultimately have "(cache_step c)\<^sup>*\<^sup>* w (?w1\<lparr>w_db := d'', w_pending := ?P\<rparr>)"
    by (rule two_steps)
  moreover have "?P \<subseteq> Collect (dead_input G)" using assms(1) w(3) by auto
  ultimately show "\<exists>P. P \<subseteq> Collect (dead_input G) \<and> (cache_step c)\<^sup>*\<^sup>* w (w\<lparr>w_db := d'', w_cache := m, w_pending := P\<rparr>)"
    using w by (intro exI [of _ ?P]) (cases w, simp)
qed

lemma informs_invalidate: "informs G c d m d (invalidate_host now t h m)"
  by (rule informs_host) simp_all

lemma informs_forget: "informs G c d m d (forget_host t h m)"
proof (rule informsI)
  fix w :: world assume w: "w_db w = d" "w_cache w = m" "w_pending w \<subseteq> Collect (dead_input G)" "\<exists>k. w_flights w k = None"
  have "w\<lparr>w_db := d, w_cache := forget_host t h m, w_pending := w_pending w\<rparr> = w\<lparr>w_cache := forget_host t h (w_cache w)\<rparr>"
    using w by simp
  then show "\<exists>P. P \<subseteq> Collect (dead_input G) \<and>
      (cache_step c)\<^sup>*\<^sup>* w (w\<lparr>w_db := d, w_cache := forget_host t h m, w_pending := P\<rparr>)"
    using Forget [of c w t h] w(3) by (intro exI [of _ "w_pending w"]) auto
qed

text \<open>
  A computation nothing falls into: it is begun, reads what it needs and stores its result.
  The documents it needs are those the stored selectors name.
\<close>

definition needed :: "codec \<Rightarrow> int \<Rightarrow> str \<Rightarrow> (input \<Rightarrow> input_value) \<Rightarrow> input set" where
  "needed c t h \<sigma> = {ITags t h, IGroups t, IAssigned t, IOverride t h} \<union>
     IFacts t h ` (\<Union>(i, s) \<in> set (group_selectors c (groups_in (\<sigma> (IGroups t)))). fact_sources s)"

lemma needed_finite: "finite (needed c t h \<sigma>)"
proof -
  have "finite (expr_fact_sources e)" for e by (induction e) auto
  then have "finite (fact_sources s)" for s by (simp add: fact_sources_def)
  then show ?thesis by (auto simp: needed_def split: prod.split intro!: finite_imageI)
qed

lemma needed_inputs: "needed c t h \<sigma> \<subseteq> inputs_of t h"
  by (auto simp: needed_def intro: inputs_of.intros)

lemma needed_settles:
  assumes "\<And>i. i \<in> needed c t h \<sigma> \<Longrightarrow> \<tau> i = \<sigma> i"
  shows "compute_from c t h \<tau> = compute_from c t h \<sigma>"
proof -
  have same: "\<tau> (ITags t h) = \<sigma> (ITags t h)" "\<tau> (IGroups t) = \<sigma> (IGroups t)" "\<tau> (IAssigned t) = \<sigma> (IAssigned t)"
    "\<tau> (IOverride t h) = \<sigma> (IOverride t h)"
    by (simp_all add: assms needed_def)
  have mg: "matching_group_ids c tags (\<lambda>s. facts_in (\<tau> (IFacts t h s))) (groups_in (\<sigma> (IGroups t)))
      = matching_group_ids c tags (\<lambda>s. facts_in (\<sigma> (IFacts t h s))) (groups_in (\<sigma> (IGroups t)))" for tags
  proof -
    let ?gs = "groups_in (\<sigma> (IGroups t))"
    have "load_for_host c sources (\<lambda>s. facts_in (\<tau> (IFacts t h s))) = load_for_host c sources (\<lambda>s. facts_in (\<sigma> (IFacts t h s)))"
      if "sources \<subseteq> (\<Union>(i, s) \<in> set (group_selectors c ?gs). fact_sources s)" for sources
    proof -
      have "\<tau> (IFacts t h x) = \<sigma> (IFacts t h x)" if "x \<in> sources" for x
        by (rule assms) (use that \<open>sources \<subseteq> _\<close> in \<open>auto simp: needed_def\<close>)
      then show ?thesis by (intro ext) (simp add: load_for_host_def)
    qed
    then show ?thesis by (simp add: matching_group_ids_def Let_def)
  qed
  then show ?thesis by (simp only: compute_from_def same Let_def mg)
qed

lemma read_steps:
  assumes "distinct is" "set is \<subseteq> inputs_of (fl_tenant f) (fl_host f)" "\<forall>i \<in> set is. fl_reads f i = None"
    and "w_flights w k = Some f"
  shows "(cache_step c)\<^sup>*\<^sup>* w (w\<lparr>w_flights := (w_flights w)(k \<mapsto>
    f\<lparr>fl_reads := (\<lambda>i. if i \<in> set is then Some (read_input i (w_db w)) else fl_reads f i)\<rparr>)\<rparr>)"
  using assms
proof (induction "is" arbitrary: f w)
  case Nil
  then have same: "(w_flights w)(k \<mapsto> f) = w_flights w" by (simp add: fun_upd_idem)
  have "f\<lparr>fl_reads := (\<lambda>i. if i \<in> set [] then Some (read_input i (w_db w)) else fl_reads f i)\<rparr> = f" by simp
  then show ?case by (simp only: same) simp
next
  case (Cons i "is")
  let ?f = "f\<lparr>fl_reads := (fl_reads f)(i \<mapsto> read_input i (w_db w))\<rparr>"
  let ?w = "w\<lparr>w_flights := (w_flights w)(k \<mapsto> ?f)\<rparr>"
  define g where "g = (\<lambda>j. if j \<in> set (i # is) then Some (read_input j (w_db w)) else fl_reads f j)"
  have "(\<lambda>j. if j \<in> set is then Some (read_input j (w_db ?w)) else fl_reads ?f j) = g"
    by (auto simp: g_def fun_eq_iff)
  moreover have "(cache_step c)\<^sup>*\<^sup>* ?w (?w\<lparr>w_flights := (w_flights ?w)(k \<mapsto>
      ?f\<lparr>fl_reads := (\<lambda>j. if j \<in> set is then Some (read_input j (w_db ?w)) else fl_reads ?f j)\<rparr>)\<rparr>)"
    by (rule Cons.IH) (use Cons.prems in auto)
  ultimately have "(cache_step c)\<^sup>*\<^sup>* ?w (w\<lparr>w_flights := (w_flights w)(k \<mapsto> f\<lparr>fl_reads := g\<rparr>)\<rparr>)" by simp
  then show ?case
    unfolding g_def [symmetric] by (rule converse_rtranclp_into_rtranclp [of "cache_step c", rotated])
      (rule Read, use Cons.prems in auto)
qed

lemma computed_steps:
  assumes k: "w_flights w k = None" and v: "\<And>u. version_of t (w_db w) = Some u \<Longrightarrow> v \<le> u"
  shows "(cache_step c)\<^sup>*\<^sup>* w (w\<lparr>w_cache := snd (compute_desired_state_at c now t h v (w_db w) (w_cache w))\<rparr>)"
proof -
  obtain got m where get: "cache_get now t h v (w_cache w) = (got, m)" by fastforce
  let ?w1 = "w\<lparr>w_cache := m\<rparr>"
  have look: "cache_step c w ?w1" using Look_Up [of c w now t h v] get by simp
  show ?thesis
  proof (cases "got = None \<and> (\<exists>s. compute_uncached c t h (w_db w) = Inr s)")
    case False
    then have "snd (compute_desired_state_at c now t h v (w_db w) (w_cache w)) = m"
      by (auto simp: compute_desired_state_at_def get Let_def split: option.split sum.split)
    then show ?thesis using look by simp
  next
    case True
    then obtain s where got: "got = None" and s: "compute_uncached c t h (w_db w) = Inr s" by blast
    define tk where "tk = take_ticket t h m"
    define f where "f = \<lparr>fl_tenant = t, fl_host = h, fl_version = v, fl_ticket = tk, fl_reads = Map.empty\<rparr>"
    obtain "is" where "is": "distinct is" "set is = needed c t h (\<lambda>i. read_input i (w_db w))"
      using finite_distinct_list [OF needed_finite] by metis
    define g where "g = f\<lparr>fl_reads := (\<lambda>i. if i \<in> set is then Some (read_input i (w_db w)) else fl_reads f i)\<rparr>"
    have g: "fl_tenant g = t" "fl_host g = h" "fl_version g = v" "fl_ticket g = tk" by (simp_all add: g_def f_def)
    have "settles c g (Inr s)"
      unfolding settles_def g
    proof (intro allI impI)
      fix \<sigma> assume read: "\<forall>i x. fl_reads g i = Some x \<longrightarrow> \<sigma> i = x"
      have "\<sigma> i = read_input i (w_db w)" if "i \<in> needed c t h (\<lambda>i. read_input i (w_db w))" for i
        using read that "is"(2) by (simp add: g_def)
      from needed_settles [OF this] s show "compute_from c t h \<sigma> = Inr s" by (simp add: compute_uncached_def)
    qed
    then have store: "cache_step c (w\<lparr>w_cache := m, w_flights := (w_flights w)(k \<mapsto> g)\<rparr>)
        (w\<lparr>w_cache := snd (put_if_current now t h tk v s m), w_flights := (w_flights w)(k := None)\<rparr>)"
      using Store [of "w\<lparr>w_cache := m, w_flights := (w_flights w)(k \<mapsto> g)\<rparr>" k g c s now] by (simp add: g)
    have "cache_step c ?w1 (w\<lparr>w_cache := m, w_flights := (w_flights w)(k \<mapsto> f)\<rparr>)"
      using Begin [of ?w1 k t v c h] k v by (simp add: f_def tk_def)
    moreover have "(cache_step c)\<^sup>*\<^sup>* (w\<lparr>w_cache := m, w_flights := (w_flights w)(k \<mapsto> f)\<rparr>) (w\<lparr>w_cache := m, w_flights := (w_flights w)(k \<mapsto> g)\<rparr>)"
      using read_steps [of "is" f "w\<lparr>w_cache := m, w_flights := (w_flights w)(k \<mapsto> f)\<rparr>" k c] "is" needed_inputs
      by (simp add: g_def f_def cong del: if_weak_cong)
    ultimately have "(cache_step c)\<^sup>*\<^sup>* w
        (w\<lparr>w_cache := snd (put_if_current now t h tk v s m), w_flights := (w_flights w)(k := None)\<rparr>)"
      using look store by (meson converse_rtranclp_into_rtranclp rtranclp.rtrancl_into_rtrancl)
    moreover have "(w_flights w)(k := None) = w_flights w" using k by (auto simp: fun_eq_iff)
    moreover have "snd (compute_desired_state_at c now t h v (w_db w) (w_cache w)) = snd (put_if_current now t h tk v s m)"
      by (simp add: compute_desired_state_at_def get got s tk_def Let_def)
    ultimately show ?thesis by simp
  qed
qed

text \<open>So a poll on the way tells the cache nothing untrue.\<close>

lemma informs_computed:
  assumes "\<And>u. version_of t d = Some u \<Longrightarrow> v \<le> u"
  shows "informs G c d m d (snd (compute_desired_state_at c now t h v d m))"
proof (rule informsI)
  fix w :: world assume w: "w_db w = d" "w_cache w = m" "w_pending w \<subseteq> Collect (dead_input G)" "\<exists>k. w_flights w k = None"
  then obtain k where "w_flights w k = None" by blast
  from computed_steps [OF this, of t v c now h] assms w(1,2)
  have "(cache_step c)\<^sup>*\<^sup>* w (w\<lparr>w_cache := snd (compute_desired_state_at c now t h v d m)\<rparr>)" by simp
  moreover have "w\<lparr>w_db := d, w_cache := m', w_pending := w_pending w\<rparr> = w\<lparr>w_cache := m'\<rparr>" for m' using w(1) by simp
  ultimately show "\<exists>P. P \<subseteq> Collect (dead_input G) \<and>
      (cache_step c)\<^sup>*\<^sup>* w (w\<lparr>w_db := d, w_cache := snd (compute_desired_state_at c now t h v d m), w_pending := P\<rparr>)"
    using w(3) by (intro exI [of _ "w_pending w"]) simp
qed

lemma reachable_steps: "(cache_step c)\<^sup>*\<^sup>* w w' \<Longrightarrow> reachable_world c w \<Longrightarrow> reachable_world c w'"
  by (induction rule: rtranclp_induct) (auto intro: reachable_world.step)

lemma reachable_room: "reachable_world c w \<Longrightarrow> \<exists>k. w_flights w k = None"
proof -
  have "finite (dom (w_flights w))" if "reachable_world c w"
    using that
  proof (induction rule: reachable_world.induct)
    case (step w w')
    from step(2,3) show ?case by (cases rule: cache_step.cases) (simp_all del: fun_upd_apply)
  qed (simp add: started_def)
  moreover assume "reachable_world c w"
  ultimately have "dom (w_flights w) \<noteq> UNIV" by (metis infinite_UNIV_nat)
  then show ?thesis by (auto simp: dom_def)
qed

lemma dead_inputs_of: "(t, h) \<notin> G \<Longrightarrow> i \<in> inputs_of t h \<Longrightarrow> \<not> dead_input G i"
  by (auto simp: dead_input_def elim: inputs_of.cases)

text \<open>After such a handler every poll of a host that lives is answered from the database as it is.\<close>

lemma informs_poll:
  assumes "reachable_world c w" "w_db w = d" "w_cache w = m" "w_pending w = {}" and "informs G c d m d' m'"
    and "(t, h) \<notin> G"
  shows "fst (compute_desired_state c now t h d' m') =
    (case version_of t d' of
       None \<Rightarrow> Inl (TenantNotFound t)
     | Some v \<Rightarrow> (case compute_uncached c t h d' of Inl e \<Rightarrow> Inl (ComputeFailed e) | Inr s \<Rightarrow> Inr s))"
proof -
  obtain P where P: "P \<subseteq> Collect (dead_input G)" and "(cache_step c)\<^sup>*\<^sup>* w (w\<lparr>w_db := d', w_cache := m', w_pending := P\<rparr>)"
    by (rule informsE [OF assms(5) assms(2,3)]) (simp_all add: assms(4) reachable_room [OF assms(1)])
  then have "reachable_world c (w\<lparr>w_db := d', w_cache := m', w_pending := P\<rparr>)" using assms(1) by (blast intro: reachable_steps)
  moreover have "inputs_of t h \<inter> P = {}" using P dead_inputs_of [OF assms(6)] by blast
  ultimately show ?thesis using poll_current [of c "w\<lparr>w_db := d', w_cache := m', w_pending := P\<rparr>" t h now]
    by (simp cong: option.case_cong)
qed

text \<open>What the inputs are read from.\<close>

lemma read_input_cong:
  assumes "host_tags d' = host_tags d" "groups d' = groups d" "host_facts d' = host_facts d"
    "bundles d' = bundles d" "bundle_assignments d' = bundle_assignments d" "host_overrides d' = host_overrides d"
  shows "read_input i d' = read_input i d"
  using assms by (cases i) (simp_all add: map_for_host_def group_list_def facts_get_def list_for_groups_def override_get_def
      cong del: if_weak_cong)

lemma version_of_cong: "tenants d' = tenants d \<Longrightarrow> version_of t d' = version_of t d"
  by (simp add: version_of_def)

lemma read_input_facts_cong:
  assumes "host_tags d' = host_tags d" "groups d' = groups d" "bundles d' = bundles d"
    "bundle_assignments d' = bundle_assignments d" "host_overrides d' = host_overrides d"
    and "\<And>u j s. i = IFacts u j s \<Longrightarrow> facts_get u j s d' = facts_get u j s d"
  shows "read_input i d' = read_input i d"
  using assms by (cases i) (simp_all add: map_for_host_def group_list_def list_for_groups_def override_get_def
      cong del: if_weak_cong)

end
