(* ===== verification/Facts_Exchange.thy ===== *)
theory Facts_Exchange
  imports Facts Facts_Catalog State_Cache
begin

text \<open>
  The exchange of facts with the agents, \<open>crates/server/src/facts/{store,exchange,upload}.rs\<close>:
  the one write path of documents and what it does to the caches, the hash a poll is answered
  with, and the upload. The JSON parser is in the codec; SHA-256, the deserializer of the
  envelope and the text of a history entry are parameters. Failures of the database other
  than the refusals the repository knows are not modelled.
\<close>

section \<open>The one write path\<close>

record fx_app =
  fx_db :: db
  fx_cache :: cache
  fx_catalog :: catalog_cache

definition KEEP_HISTORY :: int where "KEEP_HISTORY = 100"
definition MAX_CHANGES_PER_ENTRY :: nat where "MAX_CHANGES_PER_ENTRY = 200"
definition STORE_ATTEMPTS :: nat where "STORE_ATTEMPTS = 3"

record history_record =
  hr_initial :: bool
  hr_diff :: facts_diff

record fx_lib =
  fx_codec :: codec
  entry_text :: "history_record \<Rightarrow> str option"
  upload_from_slice :: "bytes \<Rightarrow> str + raw_upload"
  fx_sha256 :: "bytes \<Rightarrow> bytes"

definition history_entry :: "fx_lib \<Rightarrow> str option \<Rightarrow> json \<Rightarrow> str option" where
  "history_entry l previous document =
     (case previous of
        None \<Rightarrow>
          if document = JObj [] then None
          else entry_text l \<lparr>hr_initial = True, hr_diff = \<lparr>changes = [], truncated = 0\<rparr>\<rparr>
      | Some p \<Rightarrow>
          let old = (case parse_json (fx_codec l) p of None \<Rightarrow> JObj [] | Some v \<Rightarrow> v);
              d = diff old document MAX_CHANGES_PER_ENTRY
          in if diff_is_empty d then None else entry_text l \<lparr>hr_initial = False, hr_diff = d\<rparr>)"

datatype store_error = StoreParse | StoreFacts facts_error

text \<open>
  The attempts: \<open>meanwhile\<close> is what other requests do between the read and the
  compare-and-set of each.
\<close>

fun store_attempts ::
  "fx_lib \<Rightarrow> int \<Rightarrow> int \<Rightarrow> str \<Rightarrow> str \<Rightarrow> str \<Rightarrow> str \<Rightarrow> str option \<Rightarrow> (fx_app \<Rightarrow> fx_app) list \<Rightarrow> fx_app
     \<Rightarrow> (store_error + replace_outcome) \<times> fx_app" where
  "store_attempts l now t h source hash json collected [] s = (Inr Conflict, s)"
| "store_attempts l now t h source hash json collected (meanwhile # rest) s =
     (let previous = facts_get t h source (fx_db s) in
      if map_option sf_hash previous = Some hash then (Inr Unchanged, s)
      else case parse_json (fx_codec l) json of
          None \<Rightarrow> (Inl StoreParse, s)
        | Some document \<Rightarrow>
            (let entry = history_entry l (map_option sf_json previous) document;
                 s1 = meanwhile s
             in case facts_replace now t h
                    \<lparr>nf_source = source, nf_hash = hash, nf_json = json, nf_collected_at = collected,
                     nf_expected_previous = map_option sf_hash previous, nf_history = entry\<rparr>
                    KEEP_HISTORY (fx_db s1) of
                Inl e \<Rightarrow> (Inl (StoreFacts e), s1)
              | Inr (Stored, d) \<Rightarrow>
                  (Inr Stored, s1\<lparr>fx_db := d, fx_cache := invalidate_host now t h (fx_cache s1),
                     fx_catalog := catalog_bump t CStored (fx_catalog s1)\<rparr>)
              | Inr (Conflict, d) \<Rightarrow> store_attempts l now t h source hash json collected rest (s1\<lparr>fx_db := d\<rparr>)
              | Inr (outcome, d) \<Rightarrow> (Inr outcome, s1\<lparr>fx_db := d\<rparr>)))"

definition store ::
  "fx_lib \<Rightarrow> int \<Rightarrow> int \<Rightarrow> str \<Rightarrow> str \<Rightarrow> str \<Rightarrow> str \<Rightarrow> str option \<Rightarrow> (nat \<Rightarrow> fx_app \<Rightarrow> fx_app) \<Rightarrow> fx_app
     \<Rightarrow> (store_error + replace_outcome) \<times> fx_app" where
  "store l now t h source hash json collected env s =
     store_attempts l now t h source hash json collected (map env [0..<STORE_ATTEMPTS]) s"

definition facts_remove :: "int \<Rightarrow> int \<Rightarrow> str \<Rightarrow> str \<Rightarrow> bool \<Rightarrow> fx_app \<Rightarrow> bool \<times> fx_app" where
  "facts_remove now t h source bump s =
     (case facts_delete t h source (fx_db s) of
        (True, d) \<Rightarrow>
          (True, s\<lparr>fx_db := d, fx_cache := invalidate_host now t h (fx_cache s),
             fx_catalog := (if bump then catalog_bump t COperator (fx_catalog s) else fx_catalog s)\<rparr>)
      | (False, d) \<Rightarrow> (False, s\<lparr>fx_db := d\<rparr>))"

definition remove_source :: "int \<Rightarrow> int \<Rightarrow> str \<Rightarrow> fx_app \<Rightarrow> nat \<times> fx_app" where
  "remove_source now t source s =
     (case delete_source t source (fx_db s) of
        (hs, d) \<Rightarrow>
          (length hs, s\<lparr>fx_db := d, fx_cache := fold (invalidate_host now t) hs (fx_cache s),
             fx_catalog := (if hs \<noteq> [] then catalog_bump t COperator (fx_catalog s) else fx_catalog s)\<rparr>))"

section \<open>What a poll is told\<close>

definition EMPTY_FACTS_HASH :: str where
  "EMPTY_FACTS_HASH = ''44136fa355b3678a1146ad16f7e8649e94fb4fc21fe77e8310c060f61caaff8a''"

definition FACTS_HASH_NONE :: str where "FACTS_HASH_NONE = ''none''"

definition EMPTY_CLEAR_GRACE_SECS :: int where "EMPTY_CLEAR_GRACE_SECS = 600"

datatype empty_over_inventory = NotApplicable | Pending | Due

definition holds_inventory :: "facts_hashes \<Rightarrow> bool" where
  "holds_inventory h \<longleftrightarrow> (case held h of None \<Rightarrow> False | Some x \<Rightarrow> x \<noteq> EMPTY_FACTS_HASH)"

definition empty_for_long_enough :: "facts_hashes \<Rightarrow> int \<Rightarrow> bool" where
  "empty_for_long_enough h now \<longleftrightarrow>
     reported_hash h = Some EMPTY_FACTS_HASH
     \<and> (case reported_since h of None \<Rightarrow> False | Some since \<Rightarrow> now - since \<ge> EMPTY_CLEAR_GRACE_SECS)"

definition empty_over :: "facts_hashes \<Rightarrow> str \<Rightarrow> int \<Rightarrow> empty_over_inventory" where
  "empty_over h hash now =
     (if hash \<noteq> EMPTY_FACTS_HASH \<or> \<not> holds_inventory h then NotApplicable
      else if empty_for_long_enough h now then Due else Pending)"

text \<open>\<open>HeaderValue::from_str\<close>: visible ASCII and tabs.\<close>

definition header_value :: "str \<Rightarrow> str option" where
  "header_value s =
     (if \<forall>c \<in> set s. (32 \<le> (of_char c :: nat) \<and> (of_char c :: nat) < 127) \<or> (of_char c :: nat) = 9
      then Some s else None)"

definition advertise ::
  "fx_lib \<Rightarrow> int \<Rightarrow> int \<Rightarrow> str \<Rightarrow> str option \<Rightarrow> (nat \<Rightarrow> fx_app \<Rightarrow> fx_app) \<Rightarrow> fx_app \<Rightarrow> str option \<times> fx_app" where
  "advertise l now t h said env s =
     (case Option.bind said normalize_hash of
        None \<Rightarrow>
          (Some FACTS_HASH_NONE,
           case facts_hashes_of t h (fx_db s) of
             Some hs \<Rightarrow> if reported_hash hs \<noteq> None
                then s\<lparr>fx_db := snd (clear_reported_hash now t h (fx_db s))\<rparr> else s
           | None \<Rightarrow> s)
      | Some r \<Rightarrow>
          (case facts_hashes_of t h (fx_db s) of
             None \<Rightarrow> (None, s)
           | Some hs \<Rightarrow>
               (let s1 = (if reported_hash hs \<noteq> Some r
                          then s\<lparr>fx_db := snd (set_reported_hash now t h r (fx_db s))\<rparr> else s);
                    (advertised, s2) =
                      (case empty_over hs r now of
                         NotApplicable \<Rightarrow> (held hs, s1)
                       | Due \<Rightarrow>
                           (case store l now t h AGENT_SOURCE EMPTY_FACTS_HASH ''{}'' None env s1 of
                              (Inr Stored, s2) \<Rightarrow> (Some EMPTY_FACTS_HASH, s2)
                            | (Inr Unchanged, s2) \<Rightarrow> (Some EMPTY_FACTS_HASH, s2)
                            | (_, s2) \<Rightarrow> (held hs, s2))
                       | Pending \<Rightarrow> (Some EMPTY_FACTS_HASH, s1))
                in (header_value (case advertised of None \<Rightarrow> FACTS_HASH_NONE | Some x \<Rightarrow> x), s2))))"

section \<open>Uploads\<close>

definition MAX_FACTS_BODY_BYTES :: nat where "MAX_FACTS_BODY_BYTES = 4 * 1024 * 1024"
definition MAX_DRAINED_BYTES :: nat where "MAX_DRAINED_BYTES = 4 * MAX_FACTS_BODY_BYTES"

datatype body_error = TooLarge (drained: bool) | Unreadable

text \<open>The body arrives in chunks; \<open>None\<close> is the connection failing.\<close>

fun read_chunks :: "nat \<Rightarrow> bool \<Rightarrow> nat \<Rightarrow> bytes \<Rightarrow> bytes option list \<Rightarrow> body_error + bytes" where
  "read_chunks limit keep seen buf [] = (if keep then Inr buf else Inl (TooLarge True))"
| "read_chunks limit keep seen buf (None # chunks) = Inl Unreadable"
| "read_chunks limit keep seen buf (Some chunk # chunks) =
     (let seen = seen + length chunk in
      if seen > MAX_DRAINED_BYTES then Inl (TooLarge False)
      else let drop_it = keep \<and> seen > limit;
               keep' = keep \<and> \<not> drop_it;
               buf = (if drop_it then [] else buf)
           in read_chunks limit keep' seen (if keep' then buf @ chunk else buf) chunks)"

definition read_capped :: "nat option \<Rightarrow> nat \<Rightarrow> bytes option list \<Rightarrow> body_error + bytes" where
  "read_capped declared limit chunks =
     (if (case declared of Some n \<Rightarrow> n > MAX_DRAINED_BYTES | None \<Rightarrow> False) then Inl (TooLarge False)
      else let seen = (case declared of Some n \<Rightarrow> if n > limit then limit + 1 else 0 | None \<Rightarrow> 0)
           in read_chunks limit (seen = 0) seen [] chunks)"

record upload_response =
  ur_status :: nat
  ur_facts_hash :: "str option"
  ur_close :: bool

definition answer :: "nat \<Rightarrow> upload_response" where
  "answer st = \<lparr>ur_status = st, ur_facts_hash = None, ur_close = False\<rparr>"

definition refuse_upload :: "int \<Rightarrow> int \<Rightarrow> str \<Rightarrow> nat \<Rightarrow> str option \<Rightarrow> fx_app \<Rightarrow> upload_response \<times> fx_app" where
  "refuse_upload now t h st hash s =
     (answer st, s\<lparr>fx_db := record_refusal now t h (of_nat st) hash (fx_db s)\<rparr>)"

definition accept_upload :: "int \<Rightarrow> int \<Rightarrow> str \<Rightarrow> str \<Rightarrow> fx_app \<Rightarrow> upload_response \<times> fx_app" where
  "accept_upload now t h hash s =
     (\<lparr>ur_status = 200, ur_facts_hash = header_value hash, ur_close = False\<rparr>,
      s\<lparr>fx_db := snd (set_reported_hash now t h hash (fx_db s))\<rparr>)"

definition upload ::
  "fx_lib \<Rightarrow> int \<Rightarrow> int \<Rightarrow> str \<Rightarrow> nat option \<Rightarrow> bytes option list \<Rightarrow> (nat \<Rightarrow> fx_app \<Rightarrow> fx_app) \<Rightarrow> fx_app
     \<Rightarrow> upload_response \<times> fx_app" where
  "upload l now t h declared chunks env s =
     (case read_capped declared MAX_FACTS_BODY_BYTES chunks of
        Inl (TooLarge whole) \<Rightarrow>
          (case refuse_upload now t h 413 None s of
             (r, s') \<Rightarrow> (if whole then r else r\<lparr>ur_close := True\<rparr>, s'))
      | Inl Unreadable \<Rightarrow> (answer 503, s)
      | Inr body \<Rightarrow>
          (case parse_upload (upload_from_slice l) (fx_sha256 l) body of
             Inl e \<Rightarrow> refuse_upload now t h 400 (declared_hash e) s
           | Inr up \<Rightarrow>
               (case facts_hashes_of t h (fx_db s) of
                  None \<Rightarrow> (answer 404, s)
                | Some hs \<Rightarrow>
                    if held hs = Some (up_hash up)
                    then accept_upload now t h (up_hash up)
                      (case up_collected_at up of
                         None \<Rightarrow> s
                       | Some at \<Rightarrow> s\<lparr>fx_db := snd (refresh_collected_at now t h AGENT_SOURCE (up_hash up) at (fx_db s))\<rparr>)
                    else if empty_over hs (up_hash up) now = Pending
                    then accept_upload now t h (up_hash up) s
                    else (case store l now t h AGENT_SOURCE (up_hash up) (up_facts up) (up_collected_at up) env s of
                        (Inr Stored, s') \<Rightarrow> accept_upload now t h (up_hash up) s'
                      | (Inr Unchanged, s') \<Rightarrow> accept_upload now t h (up_hash up) s'
                      | (Inr Conflict, s') \<Rightarrow> (answer 503, s')
                      | (Inr NoHost, s') \<Rightarrow> (answer 404, s')
                      | (Inl _, s') \<Rightarrow> (answer 500, s')))))"

section \<open>Facts writes tell the cache\<close>

lemma facts_get_no_tenant:
  assumes "facts_ok d" "\<exists>h \<in> set (hosts d). is_host t i h" "u \<noteq> t"
  shows "facts_get u i s d = None"
  using owner_unique [OF assms(1,2)] assms(3)
  by (auto simp: facts_get_def fetch_optional_def find_None_iff is_facts_def)

lemma replace_inputs:
  assumes ok: "facts_ok d" and r: "facts_replace now t h doc keep d = Inr (Stored, d')"
  shows "(read_input i d' = read_input i d \<or> host_input t h i) \<and> version_of u d' = version_of u d"
proof -
  note st = facts_replace_stored [OF r]
  let ?d = "with_document now t h doc d"
  have get: "facts_get u j s d' = facts_get u j s ?d" for u j s
    using st(5) by (auto simp: facts_get_history split: option.splits)
  have same: "facts_get u j s d' = facts_get u j s d" if "(u, j) \<noteq> (t, h)" for u j s
  proof (cases "(j, s) = (h, nf_source doc)")
    case True
    then have "u \<noteq> t" using that by auto
    moreover have "facts_ok ?d" by (rule facts_ok_with_document [OF ok st(2)])
    moreover have "\<exists>x \<in> set (hosts ?d). is_host t h x" using st(2) by (simp add: with_document_def)
    ultimately show ?thesis using True facts_get_no_tenant ok st(2) unfolding get by simp
  next
    case False
    then show ?thesis unfolding get by (rule facts_get_other)
  qed
  have fields: "host_tags d' = host_tags d" "groups d' = groups d" "bundles d' = bundles d"
    "bundle_assignments d' = bundle_assignments d" "host_overrides d' = host_overrides d" "tenants d' = tenants d"
    using st(5) by (auto simp: with_document_def add_history_def Let_def split: option.splits)
  have "read_input i d' = read_input i d" if "\<not> host_input t h i"
    by (rule read_input_facts_cong) (use that same fields in auto)
  then show ?thesis using fields(6) version_of_cong by blast
qed

lemma replace_ok: "facts_ok d \<Longrightarrow> facts_replace now t h doc keep d = Inr (outcome, d') \<Longrightarrow> facts_ok d'"
  using facts_apply_ok [of d "FReplace now t h doc keep"] by (simp add: facts_committed_def)

lemma replace_else: "facts_replace now t h doc keep d = Inr (outcome, d') \<Longrightarrow> outcome \<noteq> Stored \<Longrightarrow> d' = d"
  by (auto simp: facts_replace_def Let_def split: if_splits option.splits)

text \<open>One attempt, past the shortcuts.\<close>

definition new_document :: "fx_lib \<Rightarrow> int \<Rightarrow> str \<Rightarrow> str \<Rightarrow> str \<Rightarrow> str \<Rightarrow> str option \<Rightarrow> json \<Rightarrow> fx_app \<Rightarrow> new_facts" where
  "new_document l t h source hash json collected document s =
     \<lparr>nf_source = source, nf_hash = hash, nf_json = json, nf_collected_at = collected,
      nf_expected_previous = map_option sf_hash (facts_get t h source (fx_db s)),
      nf_history = history_entry l (map_option sf_json (facts_get t h source (fx_db s))) document\<rparr>"

definition fx_stored :: "int \<Rightarrow> int \<Rightarrow> str \<Rightarrow> db \<Rightarrow> fx_app \<Rightarrow> fx_app" where
  "fx_stored now t h d s = s\<lparr>fx_db := d, fx_cache := invalidate_host now t h (fx_cache s),
     fx_catalog := catalog_bump t CStored (fx_catalog s)\<rparr>"

lemma store_attempts_step:
  assumes "map_option sf_hash (facts_get t h source (fx_db s)) \<noteq> Some hash" "parse_json (fx_codec l) json = Some document"
  shows "store_attempts l now t h source hash json collected (f # fs) s =
    (case facts_replace now t h (new_document l t h source hash json collected document s) KEEP_HISTORY (fx_db (f s)) of
       Inl e \<Rightarrow> (Inl (StoreFacts e), f s)
     | Inr (outcome, d) \<Rightarrow>
         if outcome = Stored then (Inr Stored, fx_stored now t h d (f s))
         else if outcome = Conflict then store_attempts l now t h source hash json collected fs (f s)
         else (Inr outcome, f s))"
proof (cases "facts_replace now t h (new_document l t h source hash json collected document s) KEEP_HISTORY (fx_db (f s))")
  case (Inl e)
  with assms show ?thesis by (simp add: Let_def new_document_def)
next
  case (Inr od)
  then obtain outcome d where od: "facts_replace now t h (new_document l t h source hash json collected document s)
      KEEP_HISTORY (fx_db (f s)) = Inr (outcome, d)" by (cases od) simp
  have same: "(f s)\<lparr>fx_db := d\<rparr> = f s" if "outcome \<noteq> Stored" using replace_else [OF od that] by simp
  show ?thesis
    using assms od same by (cases outcome) (auto simp: Let_def new_document_def fx_stored_def)
qed

lemma store_attempts_shortcut:
  "map_option sf_hash (facts_get t h source (fx_db s)) = Some hash \<or> parse_json (fx_codec l) json = None \<Longrightarrow>
   snd (store_attempts l now t h source hash json collected fs s) = s"
  by (cases fs) (auto simp: Let_def)

declare store_attempts.simps [simp del]

section \<open>Requests\<close>

datatype fx_request =
    RPoll int int str "str option"
  | RUpload int int str "nat option" "bytes option list"
  | RRemove int int str str bool
  | RRemoveSource int int str

fun fx_run :: "fx_lib \<Rightarrow> (nat \<Rightarrow> fx_app \<Rightarrow> fx_app) \<Rightarrow> fx_request \<Rightarrow> fx_app \<Rightarrow> fx_app" where
  "fx_run l env (RPoll now t h said) s = snd (advertise l now t h said env s)"
| "fx_run l env (RUpload now t h declared chunks) s = snd (upload l now t h declared chunks env s)"
| "fx_run l env (RRemove now t h source bump) s = snd (facts_remove now t h source bump s)"
| "fx_run l env (RRemoveSource now t source) s = snd (remove_source now t source s)"

text \<open>
  What a request keeps: an invariant of the database, and the cache told. The invariant is a
  parameter; facts requests keep any that needs the facts repository's own and is decided by
  whose hosts, tags, overrides, groups, bundles and assignments there are.
\<close>

definition keeps_informed :: "(db \<Rightarrow> bool) \<Rightarrow> (int \<times> str) set \<Rightarrow> codec \<Rightarrow> (fx_app \<Rightarrow> fx_app) \<Rightarrow> bool" where
  "keeps_informed ok G c f \<longleftrightarrow> (\<forall>s. ok (fx_db s) \<longrightarrow> ok (fx_db (f s))
     \<and> informs G c (fx_db s) (fx_cache s) (fx_db (f s)) (fx_cache (f s)))"

definition fx_informs :: "(db \<Rightarrow> bool) \<Rightarrow> (int \<times> str) set \<Rightarrow> codec \<Rightarrow> fx_app \<Rightarrow> fx_app \<Rightarrow> bool" where
  "fx_informs ok G c s s' \<longleftrightarrow> (ok (fx_db s) \<longrightarrow> ok (fx_db s') \<and> informs G c (fx_db s) (fx_cache s) (fx_db s') (fx_cache s'))"

definition owners :: "db \<Rightarrow> int list \<times> (int \<times> str) list \<times> tag_row list \<times> override_row list \<times> group_row list \<times> bundle_row list \<times> assignment_row list" where
  "owners d = (map t_id (tenants d), map (\<lambda>h. (h_tenant h, h_id h)) (hosts d), host_tags d, host_overrides d, groups d, bundles d, bundle_assignments d)"

lemma find_map_option_update:
  "(\<And>r. p (f r) = p r) \<Longrightarrow> (\<And>r. g (f r) = g r) \<Longrightarrow> map_option g (find p (update_where q f rows)) = map_option g (find p rows)"
  by (induction rows) (auto simp: update_where_def)

lemma find_delete_where: "(\<And>r. p r \<Longrightarrow> \<not> q r) \<Longrightarrow> find p (delete_where q rows) = find p rows"
  by (induction rows) (auto simp: delete_where_def)

lemma owners_facts_apply: "owners (facts_apply x d) = owners d"
proof (cases x)
  case (FReplace now t h doc keep)
  have "owners d' = owners d" if "facts_replace now t h doc keep d = Inr (outcome, d')" for outcome d'
  proof (cases "outcome = Stored")
    case True
    then show ?thesis using facts_replace_stored(5) [of now t h doc keep d d'] that
      by (auto simp: owners_def with_document_def add_history_def Let_def update_where_def comp_def if_distrib
          intro!: map_cong split: option.splits)
  qed (use replace_else [OF that] in simp)
  then show ?thesis using FReplace by (auto simp: facts_committed_def split: sum.split)
qed (auto simp: owners_def update_where_def comp_def if_distrib Let_def record_refusal_def set_reported_hash_def
    clear_reported_hash_def refresh_collected_at_def facts_delete_def delete_source_def intro!: map_cong)

locale facts_inv =
  fixes ok :: "db \<Rightarrow> bool" and G :: "(int \<times> str) set"
  assumes ok_facts: "ok d \<Longrightarrow> facts_ok d"
    and ok_kept: "ok d \<Longrightarrow> facts_ok d' \<Longrightarrow> owners d' = owners d \<Longrightarrow> ok d'"
begin

lemma ok_apply: "ok d \<Longrightarrow> ok (facts_apply x d)"
  using ok_kept [OF _ facts_apply_ok [OF ok_facts] owners_facts_apply] .

lemma ok_replace: "ok d \<Longrightarrow> facts_replace now t h doc keep d = Inr (outcome, d') \<Longrightarrow> ok d'"
  using ok_apply [of d "FReplace now t h doc keep"] by (simp add: facts_committed_def)

lemma keeps_informedD:
  "keeps_informed ok G c f \<Longrightarrow> ok (fx_db s) \<Longrightarrow> ok (fx_db (f s))
     \<and> informs G c (fx_db s) (fx_cache s) (fx_db (f s)) (fx_cache (f s))"
  by (simp add: keeps_informed_def)

lemma store_attempts_informs:
  "\<forall>f \<in> set fs. keeps_informed ok G c f \<Longrightarrow> ok (fx_db s) \<Longrightarrow>
   store_attempts l now t h source hash json collected fs s = (r, s') \<Longrightarrow>
   ok (fx_db s') \<and> informs G c (fx_db s) (fx_cache s) (fx_db s') (fx_cache s')"
proof (induction fs arbitrary: s)
  case Nil
  then show ?case by (auto simp: store_attempts.simps)
next
  case (Cons f fs)
  show ?case
  proof (cases "map_option sf_hash (facts_get t h source (fx_db s)) = Some hash \<or> parse_json (fx_codec l) json = None")
    case True
    then have "s' = s" using store_attempts_shortcut Cons.prems(3) by (metis snd_conv)
    with Cons.prems(2) show ?thesis by auto
  next
    case False
    then obtain document where doc: "parse_json (fx_codec l) json = Some document" by auto
    have f: "ok (fx_db (f s))" "informs G c (fx_db s) (fx_cache s) (fx_db (f s)) (fx_cache (f s))"
      using keeps_informedD [of c f s] Cons.prems(1,2) by simp_all
    have fs: "\<forall>f \<in> set fs. keeps_informed ok G c f" using Cons.prems(1) by simp
    have hash: "map_option sf_hash (facts_get t h source (fx_db s)) \<noteq> Some hash" using False by blast
    let ?doc = "new_document l t h source hash json collected document s"
    show ?thesis
    proof (cases "facts_replace now t h ?doc KEEP_HISTORY (fx_db (f s))")
      case (Inl e)
      then have "s' = f s" using Cons.prems(3) store_attempts_step [OF hash doc, of now collected f fs] by simp
      with f show ?thesis by simp
    next
      case (Inr od)
      then obtain outcome d where od: "facts_replace now t h ?doc KEEP_HISTORY (fx_db (f s)) = Inr (outcome, d)"
        by (cases od) simp
      note run = Cons.prems(3) [unfolded store_attempts_step [OF hash doc] od, simplified]
      consider "outcome = Stored" | "outcome = Conflict" | "outcome \<noteq> Stored" "outcome \<noteq> Conflict" by blast
      then show ?thesis
      proof cases
        case 1
        have "informs G c (fx_db (f s)) (fx_cache (f s)) d (invalidate_host now t h (fx_cache (f s)))"
          by (rule informs_host) (use replace_inputs [OF ok_facts [OF f(1)] od [unfolded 1]] in auto)
        with f(2) have "informs G c (fx_db s) (fx_cache s) d (invalidate_host now t h (fx_cache (f s)))" by (rule informs_trans)
        then show ?thesis using ok_replace [OF f(1) od] run 1 by (auto simp: fx_stored_def)
      next
        case 2
        with run have "store_attempts l now t h source hash json collected fs (f s) = (r, s')" by simp
        from Cons.IH [OF fs f(1) this] f(2) show ?thesis by (auto intro: informs_trans)
      next
        case 3
        with run f show ?thesis by auto
      qed
    qed
  qed
qed

section \<open>Every facts request tells the cache\<close>

lemma store_informs:
  assumes "\<forall>k. keeps_informed ok G c (env k)"
  shows "keeps_informed ok G c (\<lambda>s. snd (store l now t h source hash json collected env s))"
  unfolding keeps_informed_def store_def
proof (intro allI impI)
  fix s :: fx_app assume "ok (fx_db s)"
  then show "ok (fx_db (snd (store_attempts l now t h source hash json collected (map env [0..<STORE_ATTEMPTS]) s))) \<and>
      informs G c (fx_db s) (fx_cache s)
        (fx_db (snd (store_attempts l now t h source hash json collected (map env [0..<STORE_ATTEMPTS]) s)))
        (fx_cache (snd (store_attempts l now t h source hash json collected (map env [0..<STORE_ATTEMPTS]) s)))"
    using assms by (intro store_attempts_informs [where r = "fst (store_attempts l now t h source hash json collected
          (map env [0..<STORE_ATTEMPTS]) s)"]) auto
qed

lemma keeps_informed_comp: "keeps_informed ok G c f \<Longrightarrow> keeps_informed ok G c g \<Longrightarrow> keeps_informed ok G c (\<lambda>s. g (f s))"
  unfolding keeps_informed_def using informs_trans by blast

lemma keeps_informed_id: "keeps_informed ok G c (\<lambda>s. s)"
  unfolding keeps_informed_def by auto

lemma keeps_informed_if: "(P \<Longrightarrow> keeps_informed ok G c f) \<Longrightarrow> (\<not> P \<Longrightarrow> keeps_informed ok G c g) \<Longrightarrow> keeps_informed ok G c (if P then f else g)"
  by simp

text \<open>Writes of the hosts' own hashes and of document times are read by no computation.\<close>

lemma unread_informs:
  assumes "\<And>d. ok d \<Longrightarrow> ok (g d)" and "\<And>d i. read_input i (g d) = read_input i d"
    and "\<And>d. tenants (g d) = tenants d"
  shows "keeps_informed ok G c (\<lambda>s. s\<lparr>fx_db := g (fx_db s)\<rparr>)"
  unfolding keeps_informed_def
proof (intro allI impI conjI)
  fix s :: fx_app assume "ok (fx_db s)"
  then show "ok (fx_db (s\<lparr>fx_db := g (fx_db s)\<rparr>))" using assms(1) by simp
  have "informs G c (fx_db s) (fx_cache s) (g (fx_db s)) (fx_cache s)"
    by (rule informs_unread) (simp_all add: assms(2) version_of_cong [OF assms(3)])
  then show "informs G c (fx_db s) (fx_cache s) (fx_db (s\<lparr>fx_db := g (fx_db s)\<rparr>)) (fx_cache (s\<lparr>fx_db := g (fx_db s)\<rparr>))"
    by simp
qed

lemma reported_informs: "keeps_informed ok G c (\<lambda>s. s\<lparr>fx_db := snd (set_reported_hash now t h x (fx_db s))\<rparr>)"
  by (rule unread_informs)
    (use ok_apply [of _ "FReported now t h x"] in \<open>auto simp: set_reported_hash_def Let_def intro: read_input_cong\<close>)

lemma cleared_informs: "keeps_informed ok G c (\<lambda>s. s\<lparr>fx_db := snd (clear_reported_hash now t h (fx_db s))\<rparr>)"
  by (rule unread_informs)
    (use ok_apply [of _ "FClear now t h"] in \<open>auto simp: clear_reported_hash_def Let_def intro: read_input_cong\<close>)

lemma refusal_informs: "keeps_informed ok G c (\<lambda>s. s\<lparr>fx_db := record_refusal now t h st x (fx_db s)\<rparr>)"
  by (rule unread_informs)
    (use ok_apply [of _ "FRefusal now t h st x"] in \<open>auto simp: record_refusal_def Let_def intro: read_input_cong\<close>)

lemma refreshed_informs:
  "keeps_informed ok G c (\<lambda>s. s\<lparr>fx_db := snd (refresh_collected_at now t h src x at (fx_db s))\<rparr>)"
proof (rule unread_informs)
  fix d i
  let ?d = "snd (refresh_collected_at now t h src x at d)"
  have json: "map_option sf_json (facts_get u j s ?d) = map_option sf_json (facts_get u j s d)" for u j s
    by (simp add: facts_get_def refresh_collected_at_def Let_def fetch_optional_def option.map_comp comp_def to_stored_def
        find_map_option_update is_facts_def)
  show "read_input i ?d = read_input i d"
    by (cases i) (simp_all add: json, simp_all add: refresh_collected_at_def Let_def map_for_host_def group_list_def
        list_for_groups_def override_get_def cong del: if_weak_cong)
next
  fix d assume "ok d"
  then show "ok (snd (refresh_collected_at now t h src x at d))"
    using ok_apply [of d "FRefresh now t h src x at"] by simp
next
  fix d show "tenants (snd (refresh_collected_at now t h src x at d)) = tenants d"
    by (simp add: refresh_collected_at_def Let_def)
qed

lemma remove_informs: "keeps_informed ok G c (\<lambda>s. snd (facts_remove now t h source bump s))"
  unfolding keeps_informed_def
proof (intro allI impI)
  fix s :: fx_app assume ok: "ok (fx_db s)"
  obtain gone d where del: "facts_delete t h source (fx_db s) = (gone, d)" by fastforce
  have d: "ok d" "tenants d = tenants (fx_db s)"
    using ok_apply [OF ok, of "FDelete t h source"] del by (auto simp: facts_delete_def)
  have get: "facts_get u j src d = facts_get u j src (fx_db s)" if "(u, j) \<noteq> (t, h)" for u j src
  proof -
    have "find (is_facts u j src) (delete_where (is_facts t h source) (host_facts (fx_db s)))
        = find (is_facts u j src) (host_facts (fx_db s))"
      by (rule find_delete_where) (use that in \<open>auto simp: is_facts_def\<close>)
    then show ?thesis using del by (auto simp: facts_delete_def facts_get_def fetch_optional_def)
  qed
  have host: "read_input i d = read_input i (fx_db s) \<or> host_input t h i" for i
    by (cases "host_input t h i", simp, rule disjI1, rule read_input_facts_cong)
      (use del get in \<open>auto simp: facts_delete_def\<close>)
  have none: "read_input i d = read_input i (fx_db s)" if "\<not> gone" for i
    by (rule read_input_cong)
      (use del that in \<open>auto simp: facts_delete_def affected_zero delete_where_def filter_id_conv\<close>)
  show "ok (fx_db (snd (facts_remove now t h source bump s))) \<and>
      informs G c (fx_db s) (fx_cache s) (fx_db (snd (facts_remove now t h source bump s)))
        (fx_cache (snd (facts_remove now t h source bump s)))"
  proof (cases gone)
    case True
    then show ?thesis
      using informs_host [OF host version_of_cong [OF d(2)]] del d by (simp add: facts_remove_def)
  next
    case False
    then show ?thesis
      using informs_unread [OF none version_of_cong [OF d(2)]] del d by (simp add: facts_remove_def)
  qed
qed

lemma remove_source_informs: "keeps_informed ok G c (\<lambda>s. snd (remove_source now t source s))"
  unfolding keeps_informed_def
proof (intro allI impI)
  fix s :: fx_app assume ok: "ok (fx_db s)"
  obtain hs d where del: "delete_source t source (fx_db s) = (hs, d)" by fastforce
  have hs: "hs = map f_host (filter (\<lambda>r. f_tenant r = t \<and> f_source r = source) (host_facts (fx_db s)))"
    and facts: "host_facts d = delete_where (\<lambda>r. f_tenant r = t \<and> f_source r = source) (host_facts (fx_db s))"
    and rest: "host_tags d = host_tags (fx_db s)" "groups d = groups (fx_db s)" "bundles d = bundles (fx_db s)"
      "bundle_assignments d = bundle_assignments (fx_db s)" "host_overrides d = host_overrides (fx_db s)"
      "tenants d = tenants (fx_db s)"
    using del by (auto simp: delete_source_def Let_def)
  have d: "ok d" using ok_apply [OF ok, of "FDeleteSource t source"] del by simp
  have get: "facts_get u j src d = facts_get u j src (fx_db s)" if "u \<noteq> t \<or> j \<notin> set hs" for u j src
  proof (cases "u = t \<and> src = source")
    case True
    then have "\<forall>r \<in> set (host_facts (fx_db s)). \<not> is_facts u j src r" using that by (auto simp: hs is_facts_def)
    then have "find (is_facts u j src) (host_facts (fx_db s)) = None" "find (is_facts u j src) (host_facts d) = None"
      by (auto simp: find_None_iff facts delete_where_def)
    then show ?thesis by (simp add: facts_get_def fetch_optional_def)
  next
    case False
    have "find (is_facts u j src) (host_facts d) = find (is_facts u j src) (host_facts (fx_db s))"
      unfolding facts by (rule find_delete_where) (use False in \<open>auto simp: is_facts_def\<close>)
    then show ?thesis by (simp add: facts_get_def fetch_optional_def)
  qed
  have host: "read_input i d = read_input i (fx_db s) \<or> (\<exists>h \<in> set hs. host_input t h i)" for i
  proof (cases "\<exists>h \<in> set hs. host_input t h i")
    case False
    have "read_input i d = read_input i (fx_db s)"
      by (rule read_input_facts_cong [OF rest(1-5)]) (use False get in auto)
    then show ?thesis ..
  qed simp
  show "ok (fx_db (snd (remove_source now t source s))) \<and>
      informs G c (fx_db s) (fx_cache s) (fx_db (snd (remove_source now t source s)))
        (fx_cache (snd (remove_source now t source s)))"
    using informs_hosts [OF host version_of_cong [OF rest(6)]] del d by (simp add: remove_source_def)
qed

lemma fx_informs_refl [simp]: "fx_informs ok G c s s"
  by (auto simp: fx_informs_def)

lemma fx_informs_trans: "fx_informs ok G c s s1 \<Longrightarrow> fx_informs ok G c s1 s2 \<Longrightarrow> fx_informs ok G c s s2"
  unfolding fx_informs_def using informs_trans by blast

lemma keeps_informed_iff: "keeps_informed ok G c f \<longleftrightarrow> (\<forall>s. fx_informs ok G c s (f s))"
  by (simp add: keeps_informed_def fx_informs_def)

lemma reported_fx: "fx_informs ok G c s s' \<Longrightarrow> fx_informs ok G c s (s'\<lparr>fx_db := snd (set_reported_hash now t h x (fx_db s'))\<rparr>)"
  using reported_informs keeps_informed_iff fx_informs_trans by fastforce

lemma accept_fx: "fx_informs ok G c s s' \<Longrightarrow> fx_informs ok G c s (snd (accept_upload now t h x s'))"
  by (simp add: accept_upload_def reported_fx)

lemma store_fx:
  assumes "\<forall>k. keeps_informed ok G c (env k)" and "store l now t h source hash json collected env s = (r, s')"
  shows "fx_informs ok G c s s'"
  using store_informs [OF assms(1)] assms(2) keeps_informed_iff by (metis snd_conv)

lemma advertise_informs:
  assumes env: "\<forall>k. keeps_informed ok G c (env k)"
  shows "keeps_informed ok G c (\<lambda>s. snd (advertise l now t h said env s))"
  unfolding keeps_informed_iff
proof
  fix s
  show "fx_informs ok G c s (snd (advertise l now t h said env s))"
  proof (cases "Option.bind said normalize_hash")
    case None
    have "fx_informs ok G c s (s\<lparr>fx_db := snd (clear_reported_hash now t h (fx_db s))\<rparr>)"
      using cleared_informs keeps_informed_iff by fastforce
    with None show ?thesis by (simp add: advertise_def split: option.split)
  next
    case r: (Some r)
    show ?thesis
    proof (cases "facts_hashes_of t h (fx_db s)")
      case hs: (Some hs)
      define s1 where "s1 = (if reported_hash hs \<noteq> Some r
          then s\<lparr>fx_db := snd (set_reported_hash now t h r (fx_db s))\<rparr> else s)"
      have s1: "fx_informs ok G c s s1" by (simp add: s1_def reported_fx)
      obtain res s2 where st: "store l now t h AGENT_SOURCE EMPTY_FACTS_HASH ''{}'' None env s1 = (res, s2)" by fastforce
      have s2: "fx_informs ok G c s s2" using s1 store_fx [OF env st] fx_informs_trans by blast
      show ?thesis
        using s1 s2 st r hs unfolding advertise_def s1_def [symmetric]
        by (auto simp: Let_def s1_def [symmetric] split: empty_over_inventory.split sum.split replace_outcome.split)
    qed (simp add: advertise_def r)
  qed
qed

lemma upload_informs:
  assumes env: "\<forall>k. keeps_informed ok G c (env k)"
  shows "keeps_informed ok G c (\<lambda>s. snd (upload l now t h declared chunks env s))"
  unfolding keeps_informed_iff
proof
  fix s
  have refuse: "fx_informs ok G c s (snd (refuse_upload now t h st x s))" for st x
    using refusal_informs keeps_informed_iff unfolding refuse_upload_def by fastforce
  have fresh: "fx_informs ok G c s (s\<lparr>fx_db := snd (refresh_collected_at now t h src x at (fx_db s))\<rparr>)" for src x at
    using refreshed_informs keeps_informed_iff by fastforce
  show "fx_informs ok G c s (snd (upload l now t h declared chunks env s))"
  proof (cases "read_capped declared MAX_FACTS_BODY_BYTES chunks")
    case (Inl e)
    then show ?thesis using refuse [of 413 None] by (cases e) (simp_all add: upload_def refuse_upload_def)
  next
    case body: (Inr body)
    show ?thesis
    proof (cases "parse_upload (upload_from_slice l) (fx_sha256 l) body")
      case (Inl e)
      then show ?thesis using refuse body by (simp add: upload_def)
    next
      case up: (Inr up)
      obtain res s2 where st: "store l now t h AGENT_SOURCE (up_hash up) (up_facts up) (up_collected_at up) env s = (res, s2)"
        by fastforce
      have s2: "fx_informs ok G c s s2" by (rule store_fx [OF env st])
      show ?thesis
        using s2 st body up fresh
        by (auto simp: upload_def intro!: accept_fx split: option.split sum.split replace_outcome.split)
    qed
  qed
qed

lemma run_informs: "\<forall>k. keeps_informed ok G c (env k) \<Longrightarrow> keeps_informed ok G c (fx_run l env r)"
  using advertise_informs [of c env] upload_informs [of c env] remove_informs [of c] remove_source_informs [of c]
  unfolding keeps_informed_iff by (cases r) simp_all

lemma runs_inform:
  assumes "\<forall>k. keeps_informed ok G c (env k)"
  shows "fx_informs ok G c s (fold (fx_run l env) rs s)"
proof (induction rs arbitrary: s)
  case (Cons r rs)
  have "fx_informs ok G c s (fx_run l env r s)" using run_informs [OF assms] keeps_informed_iff by blast
  then show ?case using Cons [of "fx_run l env r s"] fx_informs_trans by simp
qed simp

end

interpretation fi: facts_inv facts_ok "{}"
  by unfold_locales

definition fx_sample :: "db \<Rightarrow> fx_app" where
  "fx_sample d = \<lparr>fx_db = d, fx_cache = cache_new, fx_catalog = catalog_cache_new\<rparr>"

text \<open>A library whose digest is constant and whose envelope is the document itself.\<close>

definition zeros :: str where "zeros = replicate 64 CHR ''0''"

definition fx_sample_lib :: fx_lib where
  "fx_sample_lib = \<lparr>fx_codec = sample_codec, entry_text = (\<lambda>_. Some ''e''),
     upload_from_slice = (\<lambda>b. Inr \<lparr>raw_facts_hash = zeros, raw_collected_at = None, raw_facts = b\<rparr>),
     fx_sha256 = (\<lambda>_. replicate 32 (char_of (0::nat)))\<rparr>"



section \<open>An inventory outlives a glitch\<close>

text \<open>Requests one at a time: nothing happens between the read and the write of an upload.\<close>

definition alone :: "nat \<Rightarrow> fx_app \<Rightarrow> fx_app" where
  "alone k s = s"

definition held_hash :: "int \<Rightarrow> str \<Rightarrow> db \<Rightarrow> str option" where
  "held_hash t h d = map_option sf_hash (facts_get t h AGENT_SOURCE d)"

definition report_of :: "int \<Rightarrow> str \<Rightarrow> db \<Rightarrow> (str option \<times> int option) option" where
  "report_of t h d = map_option (\<lambda>r. (h_reported_hash r, h_reported_at r)) (fetch_optional (is_host t h) (hosts d))"

lemma facts_hashes_of_iff:
  "facts_hashes_of t h d = None \<longleftrightarrow> report_of t h d = None"
  "facts_hashes_of t h d = Some hs \<Longrightarrow> held hs = held_hash t h d \<and> report_of t h d = Some (reported_hash hs, reported_since hs)"
  by (auto simp: facts_hashes_of_def report_of_def held_hash_def facts_get_def option.map_comp comp_def to_stored_def)

lemma find_update:
  "(\<And>r. p (f r) = p r) \<Longrightarrow> find p (update_where q f rows) = map_option (\<lambda>r. if q r then f r else r) (find p rows)"
  by (induction rows) (auto simp: update_where_def)

lemma report_of_set:
  "report_of t h (snd (set_reported_hash now t' h' x d)) =
     (if (t', h') = (t, h) then map_option (\<lambda>(y, at). if y = Some x then (y, at) else (Some x, Some now)) (report_of t h d)
      else report_of t h d)"
  by (auto simp: report_of_def set_reported_hash_def Let_def fetch_optional_def find_update is_host_def option.map_comp comp_def
      intro!: option.map_cong0 dest!: find_SomeD split: if_splits)

lemma report_of_clear:
  "report_of t h (snd (clear_reported_hash now t' h' d)) =
     (if (t', h') = (t, h) then map_option (\<lambda>(y, at). if y = None then (y, at) else (None, Some now)) (report_of t h d)
      else report_of t h d)"
  by (auto simp: report_of_def clear_reported_hash_def Let_def fetch_optional_def find_update is_host_def option.map_comp comp_def
      intro!: option.map_cong0 dest!: find_SomeD split: if_splits)

lemma report_of_refusal: "report_of t h (record_refusal now t' h' st x d) = report_of t h d"
  by (auto simp: report_of_def record_refusal_def fetch_optional_def find_update is_host_def option.map_comp comp_def
      intro!: option.map_cong0)

lemma report_of_cong: "hosts d' = hosts d \<Longrightarrow> report_of t h d' = report_of t h d"
  by (simp add: report_of_def)

lemma held_hash_cong: "host_facts d' = host_facts d \<Longrightarrow> held_hash t h d' = held_hash t h d"
  by (simp add: held_hash_def facts_get_def)

lemma held_hash_refresh: "held_hash t h (snd (refresh_collected_at now t' h' src x at d)) = held_hash t h d"
  by (simp add: held_hash_def facts_get_def refresh_collected_at_def Let_def fetch_optional_def option.map_comp comp_def
      to_stored_def find_map_option_update is_facts_def)

lemma store_alone:
  assumes ok: "facts_ok (fx_db s)" and st: "store l now t h source hash json collected alone s = (res, s')"
  shows "hosts (fx_db s') = hosts (fx_db s) \<and> tenants (fx_db s') = tenants (fx_db s)
    \<and> (held_hash u j (fx_db s') = held_hash u j (fx_db s)
       \<or> (u, j, source) = (t, h, AGENT_SOURCE) \<and> res = Inr Stored \<and> held_hash u j (fx_db s') = Some hash)"
proof -
  have main: "hosts (fx_db (snd r)) = hosts (fx_db s) \<and> tenants (fx_db (snd r)) = tenants (fx_db s)
    \<and> (held_hash u j (fx_db (snd r)) = held_hash u j (fx_db s)
       \<or> (u, j, source) = (t, h, AGENT_SOURCE) \<and> fst r = Inr Stored \<and> held_hash u j (fx_db (snd r)) = Some hash)"
    if "r = store_attempts l now t h source hash json collected fs s" "\<forall>f \<in> set fs. \<forall>s. f s = s" for fs r
    using that
  proof (induction fs arbitrary: r)
    case Nil
    then show ?case by (simp add: store_attempts.simps)
  next
    case (Cons f fs)
    show ?case
    proof (cases "map_option sf_hash (facts_get t h source (fx_db s)) = Some hash \<or> parse_json (fx_codec l) json = None")
      case True
      then show ?thesis using store_attempts_shortcut Cons.prems(1) by simp
    next
      case False
      then obtain document where doc: "parse_json (fx_codec l) json = Some document" by auto
      have hash: "map_option sf_hash (facts_get t h source (fx_db s)) \<noteq> Some hash" using False by blast
      let ?doc = "new_document l t h source hash json collected document s"
      have fs: "f s = s" using Cons.prems(2) by simp
      note run = Cons.prems(1) [unfolded store_attempts_step [OF hash doc] fs]
      show ?thesis
      proof (cases "facts_replace now t h ?doc KEEP_HISTORY (fx_db s)")
        case (Inl e)
        with run show ?thesis by simp
      next
        case (Inr od)
        then obtain outcome d where od: "facts_replace now t h ?doc KEEP_HISTORY (fx_db s) = Inr (outcome, d)"
          by (cases od) simp
        consider "outcome = Stored" | "outcome = Conflict" | "outcome \<noteq> Stored" "outcome \<noteq> Conflict" by blast
        then show ?thesis
        proof cases
          case 1
          note rep = facts_replace_stored [OF od [unfolded 1]]
          have get: "facts_get u j a d = facts_get u j a (with_document now t h ?doc (fx_db s))" for a
            using rep(5) by (auto simp: facts_get_history split: option.splits)
          have "hosts d = hosts (fx_db s)" "tenants d = tenants (fx_db s)"
            using rep(5) by (auto simp: with_document_def add_history_def Let_def split: option.splits)
          moreover have "held_hash u j d = held_hash u j (fx_db s) \<or> (u, j, source) = (t, h, AGENT_SOURCE) \<and> held_hash u j d = Some hash"
          proof (cases "(j, AGENT_SOURCE) = (h, nf_source ?doc)")
            case True
            show ?thesis
            proof (cases "u = t")
              case same: True
              have "facts_get t h (nf_source ?doc) (with_document now t h ?doc (fx_db s)) = Some (to_stored (stored_row now t h ?doc))"
                by (rule facts_get_stored [OF ok rep(2)])
              then show ?thesis using True same get [of AGENT_SOURCE]
                by (simp add: held_hash_def new_document_def to_stored_def stored_row_def)
            next
              case False
              have "\<exists>x \<in> set (hosts (with_document now t h ?doc (fx_db s))). is_host t h x"
                using rep(2) by (simp add: with_document_def)
              note gone = facts_get_no_tenant [OF facts_ok_with_document [OF ok rep(2)] this False, of AGENT_SOURCE]
                facts_get_no_tenant [OF ok rep(2) False, of AGENT_SOURCE]
              show ?thesis using True gone get [of AGENT_SOURCE] by (simp add: held_hash_def)
            qed
          next
            case False
            then show ?thesis using facts_get_other [OF False] by (simp add: held_hash_def get)
          qed
          ultimately show ?thesis using run od 1 by (auto simp: fx_stored_def)
        next
          case 2
          with run od have "r = store_attempts l now t h source hash json collected fs s" by simp
          then show ?thesis using Cons.IH Cons.prems(2) by simp
        next
          case 3
          with run od show ?thesis by auto
        qed
      qed
    qed
  qed
  show ?thesis
    using main [of "(res, s')" "map alone [0..<STORE_ATTEMPTS]"] st by (simp add: store_def alone_def)
qed

text \<open>
  What a request says of the document a host holds: nothing, that it has none to speak of, or
  a hash. \<open>empty_since\<close> is the time since which a host has been saying the empty one.
\<close>

datatype said = Silent | Said "str option"

fun says :: "fx_lib \<Rightarrow> int \<Rightarrow> str \<Rightarrow> fx_app \<Rightarrow> fx_request \<Rightarrow> said" where
  "says l t h s (RPoll now t' h' x) = (if (t', h') = (t, h) then Said (Option.bind x normalize_hash) else Silent)"
| "says l t h s (RUpload now t' h' declared chunks) =
     (let r = fst (upload l now t' h' declared chunks alone s)
      in if (t', h') = (t, h) \<and> ur_status r = 200 then Said (ur_facts_hash r) else Silent)"
| "says l t h s _ = Silent"

fun fx_time :: "fx_request \<Rightarrow> int" where
  "fx_time (RPoll now t h x) = now"
| "fx_time (RUpload now t h declared chunks) = now"
| "fx_time (RRemove now t h source bump) = now"
| "fx_time (RRemoveSource now t source) = now"

definition note_said :: "int \<Rightarrow> said \<Rightarrow> int option \<Rightarrow> int option" where
  "note_said now x since =
     (case x of
        Silent \<Rightarrow> since
      | Said y \<Rightarrow> if y \<noteq> Some EMPTY_FACTS_HASH then None else if since = None then Some now else since)"

fun empty_since :: "fx_lib \<Rightarrow> int \<Rightarrow> str \<Rightarrow> fx_request list \<Rightarrow> fx_app \<Rightarrow> int option \<Rightarrow> int option" where
  "empty_since l t h [] s since = since"
| "empty_since l t h (r # rs) s since =
     empty_since l t h rs (fx_run l alone r s) (note_said (fx_time r) (says l t h s r) since)"

definition tracks :: "int \<Rightarrow> str \<Rightarrow> int option \<Rightarrow> db \<Rightarrow> bool" where
  "tracks t h since d \<longleftrightarrow> (case report_of t h d of
      None \<Rightarrow> True
    | Some (x, at) \<Rightarrow> if x = Some EMPTY_FACTS_HASH then since \<noteq> None \<and> at = since else since = None)"

lemma lower_hexdigit_visible:
  assumes "is_hexdigit c"
  shows "32 \<le> (of_char (lower_hexdigit c) :: nat) \<and> (of_char (lower_hexdigit c) :: nat) < 127"
proof -
  have "\<forall>c \<in> set ''0123456789abcdefABCDEF''. 32 \<le> (of_char (lower_hexdigit c) :: nat) \<and> (of_char (lower_hexdigit c) :: nat) < 127"
    by code_simp
  moreover have "c \<in> set ''0123456789abcdefABCDEF''" using assms by (auto simp: is_hexdigit_def is_digit_def)
  ultimately show ?thesis by (rule bspec)
qed

lemma header_hash: "normalize_hash x = Some h \<Longrightarrow> header_value h = Some h"
  by (auto simp: normalize_hash_def header_value_def list_all_iff lower_hexdigit_visible split: if_splits)

lemma parsed_hash: "parse_upload fs sha body = Inr up \<Longrightarrow> header_value (up_hash up) = Some (up_hash up)"
  by (auto simp: parse_upload_def Let_def split: sum.splits option.splits if_splits intro: header_hash)

definition report_to :: "str option \<Rightarrow> int \<Rightarrow> str option \<times> int option \<Rightarrow> str option \<times> int option" where
  "report_to x now r = (if fst r = x then r else (x, Some now))"

lemma report_of_to:
  "report_of t h (snd (set_reported_hash now t h x d)) = map_option (report_to (Some x) now) (report_of t h d)"
  "report_of t h (snd (clear_reported_hash now t h d)) = map_option (report_to None now) (report_of t h d)"
  by (auto simp: report_of_set report_of_clear report_to_def intro!: option.map_cong0)

lemma report_to_same: "r = Some (x, at) \<Longrightarrow> map_option (report_to x now) r = r"
  by (simp add: report_to_def)

lemma report_advertise:
  assumes ok: "facts_ok (fx_db s)"
  shows "report_of t h (fx_db (snd (advertise l now t' h' x alone s))) =
    (if (t', h') = (t, h) then map_option (report_to (Option.bind x normalize_hash) now) (report_of t h (fx_db s))
     else report_of t h (fx_db s))"
proof (cases "Option.bind x normalize_hash")
  case None
  then show ?thesis
    using facts_hashes_of_iff [of t' h' "fx_db s"]
    by (cases "facts_hashes_of t' h' (fx_db s)")
      (auto simp: advertise_def report_of_to report_to_same, auto simp: report_of_clear report_to_def)
next
  case x: (Some r)
  show ?thesis
  proof (cases "facts_hashes_of t' h' (fx_db s)")
    case None
    then show ?thesis using x facts_hashes_of_iff(1) [of t' h' "fx_db s"] by (auto simp: advertise_def)
  next
    case hs: (Some hs)
    define s1 where "s1 = (if reported_hash hs \<noteq> Some r
        then s\<lparr>fx_db := snd (set_reported_hash now t' h' r (fx_db s))\<rparr> else s)"
    have ok1: "facts_ok (fx_db s1)"
      using ok facts_apply_ok [OF ok, of "FReported now t' h' r"] by (simp add: s1_def)
    have rep1: "report_of t h (fx_db s1) = (if (t', h') = (t, h) then map_option (report_to (Some r) now) (report_of t h (fx_db s))
        else report_of t h (fx_db s))"
      using facts_hashes_of_iff(2) [OF hs] by (auto simp: s1_def report_of_to report_to_same, auto simp: report_of_set report_to_def)
    obtain res s2 where st: "store l now t' h' AGENT_SOURCE EMPTY_FACTS_HASH ''{}'' None alone s1 = (res, s2)" by fastforce
    have "report_of t h (fx_db s2) = report_of t h (fx_db s1)"
      using store_alone [OF ok1 st] by (auto intro: report_of_cong)
    then show ?thesis
      using x hs st rep1 unfolding advertise_def s1_def [symmetric]
      by (auto simp: Let_def s1_def [symmetric] split: empty_over_inventory.split sum.split replace_outcome.split)
  qed
qed

lemma report_accept:
  assumes "header_value x = Some x"
  shows "ur_status (fst (accept_upload now t' h' x s)) = 200 \<and> ur_facts_hash (fst (accept_upload now t' h' x s)) = Some x
    \<and> report_of t h (fx_db (snd (accept_upload now t' h' x s))) =
        (if (t', h') = (t, h) then map_option (report_to (Some x) now) (report_of t h (fx_db s)) else report_of t h (fx_db s))"
  using assms by (auto simp: accept_upload_def report_of_to, auto simp: report_of_set)

lemma report_upload:
  assumes ok: "facts_ok (fx_db s)"
  shows "report_of t h (fx_db (snd (upload l now t' h' declared chunks alone s))) =
    (if (t', h') = (t, h) \<and> ur_status (fst (upload l now t' h' declared chunks alone s)) = 200
     then map_option (report_to (ur_facts_hash (fst (upload l now t' h' declared chunks alone s))) now) (report_of t h (fx_db s))
     else report_of t h (fx_db s))"
proof (cases "read_capped declared MAX_FACTS_BODY_BYTES chunks")
  case (Inl e)
  then show ?thesis by (cases e) (auto simp: upload_def refuse_upload_def answer_def report_of_refusal)
next
  case body: (Inr body)
  show ?thesis
  proof (cases "parse_upload (upload_from_slice l) (fx_sha256 l) body")
    case (Inl e)
    with body show ?thesis by (auto simp: upload_def refuse_upload_def answer_def report_of_refusal)
  next
    case up: (Inr up)
    note head = parsed_hash [OF up]
    show ?thesis
    proof (cases "facts_hashes_of t' h' (fx_db s)")
      case None
      with body up show ?thesis by (auto simp: upload_def answer_def)
    next
      case hs: (Some hs)
      obtain res s2 where st: "store l now t' h' AGENT_SOURCE (up_hash up) (up_facts up) (up_collected_at up) alone s = (res, s2)"
        by fastforce
      have s2: "report_of t h (fx_db s2) = report_of t h (fx_db s)"
        using store_alone [OF ok st] by (auto intro: report_of_cong)
      have fresh: "report_of t h (snd (refresh_collected_at now t' h' src y at (fx_db s))) = report_of t h (fx_db s)" for src y at
        by (rule report_of_cong) (simp add: refresh_collected_at_def Let_def)
      note acc = report_accept [OF head, of now t' h' _ t h]
      consider "held hs = Some (up_hash up)" | "held hs \<noteq> Some (up_hash up)" "empty_over hs (up_hash up) now = Pending"
        | "held hs \<noteq> Some (up_hash up)" "empty_over hs (up_hash up) now \<noteq> Pending" by blast
      then show ?thesis
      proof cases
        case 1
        define s1 where "s1 = (case up_collected_at up of None \<Rightarrow> s
            | Some at \<Rightarrow> s\<lparr>fx_db := snd (refresh_collected_at now t' h' AGENT_SOURCE (up_hash up) at (fx_db s))\<rparr>)"
        have run: "upload l now t' h' declared chunks alone s = accept_upload now t' h' (up_hash up) s1"
          using body up hs 1 by (simp add: upload_def s1_def)
        have "report_of t h (fx_db s1) = report_of t h (fx_db s)" by (simp add: s1_def fresh split: option.split)
        then show ?thesis unfolding run using acc [of s1] by (cases "(t', h') = (t, h)") auto
      next
        case 2
        then have run: "upload l now t' h' declared chunks alone s = accept_upload now t' h' (up_hash up) s"
          using body up hs by (simp add: upload_def)
        show ?thesis unfolding run using acc [of s] by (cases "(t', h') = (t, h)") auto
      next
        case 3
        show ?thesis
        proof (cases "res = Inr Stored \<or> res = Inr Unchanged")
          case True
          then have run: "upload l now t' h' declared chunks alone s = accept_upload now t' h' (up_hash up) s2"
            using body up hs 3 st by (auto simp: upload_def)
          show ?thesis unfolding run using acc [of s2] s2 by (cases "(t', h') = (t, h)") auto
        next
          case False
          then have "snd (upload l now t' h' declared chunks alone s) = s2 \<and> ur_status (fst (upload l now t' h' declared chunks alone s)) \<noteq> 200"
            using body up hs 3 st by (auto simp: upload_def answer_def split: sum.split replace_outcome.split)
          then show ?thesis using s2 by simp
        qed
      qed
    qed
  qed
qed

lemma report_remove: "report_of t h (fx_db (snd (facts_remove now t' h' source bump s))) = report_of t h (fx_db s)"
  by (rule report_of_cong) (auto simp: facts_remove_def facts_delete_def split: prod.split bool.split)

lemma report_remove_source: "report_of t h (fx_db (snd (remove_source now t' source s))) = report_of t h (fx_db s)"
  by (rule report_of_cong) (simp add: remove_source_def delete_source_def Let_def)

lemma tracks_report:
  assumes "tracks t h since d" and "report_of t h d' = map_option (report_to x now) (report_of t h d)"
  shows "tracks t h (note_said now (Said x) since) d'"
  using assms by (auto simp: tracks_def note_said_def report_to_def split: option.splits if_splits)

lemma tracks_run:
  assumes "facts_ok (fx_db s)" and "tracks t h since (fx_db s)"
  shows "tracks t h (note_said (fx_time r) (says l t h s r) since) (fx_db (fx_run l alone r s))"
proof -
  have silent: "tracks t h (note_said now Silent since) d" if "report_of t h d = report_of t h (fx_db s)" for d now
    using that assms(2) by (simp add: tracks_def note_said_def)
  show ?thesis
  proof (cases r)
    case (RPoll now t' h' x)
    then show ?thesis
      using report_advertise [OF assms(1), of t h l now t' h' x] tracks_report [OF assms(2)] silent by auto
  next
    case (RUpload now t' h' declared chunks)
    then show ?thesis
      using report_upload [OF assms(1), of t h l now t' h' declared chunks] tracks_report [OF assms(2)] silent
      by (cases "(t', h') = (t, h)"; cases "ur_status (fst (upload l now t' h' declared chunks alone s)) = 200")
        (auto simp: Let_def)
  qed (simp_all add: silent report_remove report_remove_source)
qed

lemma keeps_informed_alone: "\<forall>k. keeps_informed facts_ok {} c (alone k)"
  by (simp add: keeps_informed_def alone_def informs_refl)

lemma fx_run_ok: "facts_ok (fx_db s) \<Longrightarrow> facts_ok (fx_db (fx_run l alone r s))"
  using fi.run_informs [OF keeps_informed_alone] fi.keeps_informedD by blast

lemma tracks_runs:
  "facts_ok (fx_db s) \<Longrightarrow> tracks t h since (fx_db s) \<Longrightarrow>
   tracks t h (empty_since l t h rs s since) (fx_db (fold (fx_run l alone) rs s)) \<and> facts_ok (fx_db (fold (fx_run l alone) rs s))"
proof (induction rs arbitrary: s since)
  case (Cons r rs)
  show ?case using Cons.IH [OF fx_run_ok [OF Cons.prems(1)] tracks_run [OF Cons.prems]] by simp
qed simp

text \<open>Which requests can change the document held for a host, and into what.\<close>

lemma held_advertise:
  assumes ok: "facts_ok (fx_db s)"
    and changed: "held_hash t h (fx_db (snd (advertise l now t' h' x alone s))) \<noteq> held_hash t h (fx_db s)"
  shows "(t', h') = (t, h) \<and> Option.bind x normalize_hash = Some EMPTY_FACTS_HASH
    \<and> (\<exists>hs. facts_hashes_of t h (fx_db s) = Some hs \<and> empty_over hs EMPTY_FACTS_HASH now = Due)"
proof -
  have clear: "held_hash t h (snd (clear_reported_hash now t' h' d)) = held_hash t h d" for d
    by (rule held_hash_cong) (simp add: clear_reported_hash_def Let_def)
  obtain r hs where r: "Option.bind x normalize_hash = Some r" and hs: "facts_hashes_of t' h' (fx_db s) = Some hs"
    using changed clear by (auto simp: advertise_def split: option.splits if_splits)
  define s1 where "s1 = (if reported_hash hs \<noteq> Some r
      then s\<lparr>fx_db := snd (set_reported_hash now t' h' r (fx_db s))\<rparr> else s)"
  have ok1: "facts_ok (fx_db s1)"
    using ok facts_apply_ok [OF ok, of "FReported now t' h' r"] by (simp add: s1_def)
  have held1: "held_hash t h (fx_db s1) = held_hash t h (fx_db s)"
    by (rule held_hash_cong) (simp add: s1_def set_reported_hash_def Let_def)
  obtain res s2 where st: "store l now t' h' AGENT_SOURCE EMPTY_FACTS_HASH ''{}'' None alone s1 = (res, s2)" by fastforce
  have run: "snd (advertise l now t' h' x alone s) = (if empty_over hs r now = Due then s2 else s1)"
    using r hs st unfolding advertise_def s1_def [symmetric]
    by (auto simp: Let_def s1_def [symmetric] split: empty_over_inventory.split sum.split replace_outcome.split)
  then have due: "empty_over hs r now = Due" and "held_hash t h (fx_db s2) \<noteq> held_hash t h (fx_db s1)"
    using changed held1 by (auto split: if_splits)
  then have "(t', h') = (t, h)" using store_alone [OF ok1 st, of t h] by auto
  moreover have "r = EMPTY_FACTS_HASH" using due by (auto simp: empty_over_def split: if_splits)
  ultimately show ?thesis using hs due r by auto
qed

lemma held_upload:
  assumes ok: "facts_ok (fx_db s)"
    and changed: "held_hash t h (fx_db (snd (upload l now t' h' declared chunks alone s))) \<noteq> held_hash t h (fx_db s)"
  shows "(t', h') = (t, h) \<and> (\<exists>hs hash. facts_hashes_of t h (fx_db s) = Some hs \<and> empty_over hs hash now \<noteq> Pending
    \<and> ur_facts_hash (fst (upload l now t' h' declared chunks alone s)) = Some hash
    \<and> ur_status (fst (upload l now t' h' declared chunks alone s)) = 200
    \<and> held_hash t h (fx_db (snd (upload l now t' h' declared chunks alone s))) = Some hash)"
proof -
  have refuse: "held_hash t h (record_refusal now t' h' st x d) = held_hash t h d" for st x d
    by (rule held_hash_cong) (simp add: record_refusal_def)
  have acc: "held_hash t h (fx_db (snd (accept_upload now t' h' x s'))) = held_hash t h (fx_db s')" for x s'
    unfolding accept_upload_def by (simp, rule held_hash_cong) (simp add: set_reported_hash_def Let_def)
  obtain body where body: "read_capped declared MAX_FACTS_BODY_BYTES chunks = Inr body"
    using changed refuse by (auto simp: upload_def refuse_upload_def split: sum.splits body_error.splits)
  obtain up where up: "parse_upload (upload_from_slice l) (fx_sha256 l) body = Inr up"
    using changed refuse body by (auto simp: upload_def refuse_upload_def split: sum.splits)
  obtain hs where hs: "facts_hashes_of t' h' (fx_db s) = Some hs"
    using changed body up by (auto simp: upload_def split: option.splits)
  obtain res s2 where st: "store l now t' h' AGENT_SOURCE (up_hash up) (up_facts up) (up_collected_at up) alone s = (res, s2)"
    by fastforce
  have go: "held hs \<noteq> Some (up_hash up)" "empty_over hs (up_hash up) now \<noteq> Pending"
    using changed body up hs acc held_hash_refresh by (auto simp: upload_def split: option.splits if_splits)
  have run: "upload l now t' h' declared chunks alone s =
      (if res = Inr Stored \<or> res = Inr Unchanged then accept_upload now t' h' (up_hash up) s2
       else (fst (upload l now t' h' declared chunks alone s), s2))"
    using body up hs go st by (auto simp: upload_def split: sum.split replace_outcome.split)
  have "held_hash t h (fx_db s2) \<noteq> held_hash t h (fx_db s)"
    using changed acc by (subst (asm) run) (auto split: if_splits)
  then have st2: "(t', h') = (t, h)" "res = Inr Stored" "held_hash t h (fx_db s2) = Some (up_hash up)"
    using store_alone [OF ok st, of t h] by auto
  then have "upload l now t' h' declared chunks alone s = accept_upload now t' h' (up_hash up) s2" using run by simp
  then show ?thesis
    using st2 hs go report_accept [OF parsed_hash [OF up], of now t' h' s2 t h] acc by auto
qed

lemma held_removed:
  "held_hash t h (fx_db (snd (facts_remove now t' h' source bump s))) \<in> {None, held_hash t h (fx_db s)}"
  "held_hash t h (fx_db (snd (remove_source now t' source s))) \<in> {None, held_hash t h (fx_db s)}"
proof -
  have find: "find p (delete_where q rows) \<in> {None, find p rows}"
    if "(\<forall>r. p r \<longrightarrow> q r) \<or> (\<forall>r. p r \<longrightarrow> \<not> q r)" for p q and rows :: "facts_row list"
    using that
  proof
    assume "\<forall>r. p r \<longrightarrow> q r"
    then show ?thesis by (auto simp: find_None_iff delete_where_def)
  next
    assume "\<forall>r. p r \<longrightarrow> \<not> q r"
    then show ?thesis using find_delete_where [of p q rows] by simp
  qed
  obtain gone d where del: "facts_delete t' h' source (fx_db s) = (gone, d)" by fastforce
  have "held_hash t h d \<in> {None, held_hash t h (fx_db s)}"
    using find [of "is_facts t h AGENT_SOURCE" "is_facts t' h' source" "host_facts (fx_db s)"] del
    by (auto simp: held_hash_def facts_get_def fetch_optional_def facts_delete_def is_facts_def)
  then show "held_hash t h (fx_db (snd (facts_remove now t' h' source bump s))) \<in> {None, held_hash t h (fx_db s)}"
    using del by (cases gone) (simp_all add: facts_remove_def)
  obtain hs d where del: "delete_source t' source (fx_db s) = (hs, d)" by fastforce
  have "held_hash t h d \<in> {None, held_hash t h (fx_db s)}"
    using find [of "is_facts t h AGENT_SOURCE" "\<lambda>r. f_tenant r = t' \<and> f_source r = source" "host_facts (fx_db s)"] del
    by (auto simp: held_hash_def facts_get_def fetch_optional_def delete_source_def Let_def is_facts_def)
  then show "held_hash t h (fx_db (snd (remove_source now t' source s))) \<in> {None, held_hash t h (fx_db s)}"
    using del by (simp add: remove_source_def)
qed


lemma store_succeeds:
  assumes host: "\<exists>x \<in> set (hosts (fx_db s)). is_host t h x" and tenant: "tenant_exists t (fx_db s)"
    and doc: "parse_json (fx_codec l) json = Some document"
    and ok: "facts_ok (fx_db s)" and st: "store l now t h AGENT_SOURCE hash json collected alone s = (res, s')"
  shows "(res = Inr Stored \<or> res = Inr Unchanged) \<and> held_hash t h (fx_db s') = Some hash"
proof (cases "map_option sf_hash (facts_get t h AGENT_SOURCE (fx_db s)) = Some hash")
  case True
  then have "res = Inr Unchanged \<and> s' = s"
    using st by (auto simp: store_def STORE_ATTEMPTS_def store_attempts.simps upt_rec Let_def)
  with True show ?thesis by (simp add: held_hash_def)
next
  case False
  let ?doc = "new_document l t h AGENT_SOURCE hash json collected document s"
  have valid: "valid_source AGENT_SOURCE" by code_simp
  have cur: "map_option f_hash (fetch_optional (is_facts t h AGENT_SOURCE) (host_facts (fx_db s)))
      = map_option sf_hash (facts_get t h AGENT_SOURCE (fx_db s))"
    by (simp add: facts_get_def to_stored_def option.map_comp comp_def)
  have "\<exists>d. facts_replace now t h ?doc KEEP_HISTORY (fx_db s) = Inr (Stored, d)"
    using valid host tenant False fetch_host [of "is_host t h" "hosts (fx_db s)"] cur
    by (auto simp: facts_replace_def new_document_def Let_def split: option.split)
  then obtain d where d: "facts_replace now t h ?doc KEEP_HISTORY (fx_db s) = Inr (Stored, d)" ..
  have "store l now t h AGENT_SOURCE hash json collected alone s
      = store_attempts l now t h AGENT_SOURCE hash json collected (alone 0 # [alone 1, alone 2]) s"
    by (simp add: store_def STORE_ATTEMPTS_def upt_rec numeral_2_eq_2)
  also have "\<dots> = (Inr Stored, fx_stored now t h d s)"
    using store_attempts_step [OF False doc, of now collected "alone 0"] d by (simp add: alone_def)
  finally have res: "res = Inr Stored" "s' = fx_stored now t h d s" using st by simp_all
  note rep = facts_replace_stored [OF d]
  have get: "facts_get t h a d = facts_get t h a (with_document now t h ?doc (fx_db s))" for a
    using rep(5) by (auto simp: facts_get_history split: option.splits)
  have "facts_get t h (nf_source ?doc) (with_document now t h ?doc (fx_db s)) = Some (to_stored (stored_row now t h ?doc))"
    by (rule facts_get_stored [OF ok rep(2)])
  then have "held_hash t h d = Some hash"
    using get [of AGENT_SOURCE] by (simp add: held_hash_def new_document_def to_stored_def stored_row_def)
  then show ?thesis using res by (simp add: fx_stored_def)
qed

text \<open>A host whose inventory is held, and which has said the empty document since time 0.\<close>

definition glitching :: db where
  "glitching = sample_hosts\<lparr>
     hosts := map (\<lambda>r. r\<lparr>h_reported_hash := Some EMPTY_FACTS_HASH, h_reported_at := Some 0\<rparr>) (hosts sample_hosts),
     host_facts := [\<lparr>f_tenant = 1, f_host = ''h'', f_source = AGENT_SOURCE, f_hash = ''aa'', f_json = ''{}'',
       f_collected_at = None, f_received_at = 0, f_size_bytes = 2\<rparr>]\<rparr>"

lemma glitching_ok: "facts_ok glitching"
  by (simp add: facts_ok_def glitching_def sample_defs is_host_def)


section \<open>The exchange settles\<close>

lemma normalize_normal: "normalize_hash x = Some h \<Longrightarrow> normalize_hash h = Some h"
proof -
  assume n: "normalize_hash x = Some h"
  have lower: "is_hexdigit (lower_hexdigit c) \<and> lower_hexdigit (lower_hexdigit c) = lower_hexdigit c" if "is_hexdigit c" for c
  proof -
    have "\<forall>c \<in> set ''0123456789abcdefABCDEF''. is_hexdigit (lower_hexdigit c) \<and>
        lower_hexdigit (lower_hexdigit c) = lower_hexdigit c" by code_simp
    moreover have "c \<in> set ''0123456789abcdefABCDEF''" using that by (auto simp: is_hexdigit_def is_digit_def)
    ultimately show ?thesis by (rule bspec)
  qed
  show ?thesis using n lower by (auto simp: normalize_hash_def list_all_iff split: if_splits)
qed

lemma parsed_normal: "parse_upload fs sha body = Inr up \<Longrightarrow> normalize_hash (up_hash up) = Some (up_hash up)"
  by (auto simp: parse_upload_def Let_def split: sum.splits option.splits if_splits intro: normalize_normal)

lemma host_of_hashes: "facts_hashes_of t h d \<noteq> None \<longleftrightarrow> (\<exists>x \<in> set (hosts d). is_host t h x)"
  using fetch_host [of "is_host t h" "hosts d"] by (auto simp: facts_hashes_of_def)

lemma host_report: "(\<exists>x \<in> set (hosts d). is_host t h x) \<longleftrightarrow> report_of t h d \<noteq> None"
  using fetch_host [of "is_host t h" "hosts d"] by (auto simp: report_of_def)

lemma hosts_set_reported:
  "(\<exists>x \<in> set (hosts (snd (set_reported_hash now t' h' y d))). is_host t h x) \<longleftrightarrow> (\<exists>x \<in> set (hosts d). is_host t h x)"
  unfolding host_report report_of_set by (simp del: not_None_eq)

text \<open>
  What a poll that says a hash is told: the hash itself where that is what is held, or where
  it is the empty document and either the grace period runs or the inventory can be cleared.
\<close>

lemma advertise_agrees:
  assumes ok: "facts_ok (fx_db s)" and host: "facts_hashes_of t h (fx_db s) = Some hs" and tenant: "tenant_exists t (fx_db s)"
    and n: "normalize_hash x = Some x" and empty: "parse_json (fx_codec l) ''{}'' \<noteq> None"
    and held: "held hs = Some x \<or> x = EMPTY_FACTS_HASH \<and> holds_inventory hs"
  shows "fst (advertise l now t h (Some x) alone s) = Some x"
proof -
  define s1 where "s1 = (if reported_hash hs \<noteq> Some x
      then s\<lparr>fx_db := snd (set_reported_hash now t h x (fx_db s))\<rparr> else s)"
  have ok1: "facts_ok (fx_db s1)"
    using ok facts_apply_ok [OF ok, of "FReported now t h x"] by (simp add: s1_def)
  have host1: "\<exists>y \<in> set (hosts (fx_db s1)). is_host t h y"
    using host host_of_hashes [of t h "fx_db s"] hosts_set_reported by (simp add: s1_def)
  have tenant1: "tenant_exists t (fx_db s1)"
    using tenant by (simp add: s1_def tenant_exists_def set_reported_hash_def Let_def)
  obtain document where "parse_json (fx_codec l) ''{}'' = Some document" using empty by auto
  obtain res s2 where st: "store l now t h AGENT_SOURCE EMPTY_FACTS_HASH ''{}'' None alone s1 = (res, s2)" by fastforce
  have res: "res = Inr Stored \<or> res = Inr Unchanged"
    using store_succeeds [OF host1 tenant1 \<open>parse_json _ _ = Some document\<close> ok1 st] by simp
  have "empty_over hs x now = NotApplicable \<longrightarrow> held hs = Some x"
    using held by (auto simp: empty_over_def)
  moreover have "empty_over hs x now \<noteq> NotApplicable \<longrightarrow> x = EMPTY_FACTS_HASH" by (simp add: empty_over_def)
  ultimately show ?thesis
    using n host st res header_hash [OF n] unfolding advertise_def s1_def [symmetric]
    by (auto simp: Let_def s1_def [symmetric] split: empty_over_inventory.split)
qed

text \<open>Such an upload is accepted, over what is then held.\<close>

lemma upload_accepted:
  assumes ok: "facts_ok (fx_db s)" and host: "\<exists>x \<in> set (hosts (fx_db s)). is_host t h x"
    and tenant: "tenant_exists t (fx_db s)" and hs: "facts_hashes_of t h (fx_db s) = Some hs"
    and body: "read_capped declared MAX_FACTS_BODY_BYTES chunks = Inr body"
    and up: "parse_upload (upload_from_slice l) (fx_sha256 l) body = Inr up"
    and docs: "parse_json (fx_codec l) (up_facts up) = Some document"
  shows "\<exists>s1. upload l now t h declared chunks alone s = accept_upload now t h (up_hash up) s1
      \<and> tenants (fx_db s1) = tenants (fx_db s)
      \<and> (held_hash t h (fx_db s1) = Some (up_hash up)
         \<or> up_hash up = EMPTY_FACTS_HASH \<and> held_hash t h (fx_db s1) = held hs \<and> holds_inventory hs)"
proof -
  obtain res s2 where st: "store l now t h AGENT_SOURCE (up_hash up) (up_facts up) (up_collected_at up) alone s = (res, s2)"
    by fastforce
  note stored = store_succeeds [OF host tenant docs ok st]
  consider "held hs = Some (up_hash up)" | "held hs \<noteq> Some (up_hash up)" "empty_over hs (up_hash up) now = Pending"
    | "held hs \<noteq> Some (up_hash up)" "empty_over hs (up_hash up) now \<noteq> Pending" by blast
  then show ?thesis
  proof cases
    case 1
    define s1 where "s1 = (case up_collected_at up of None \<Rightarrow> s
         | Some at \<Rightarrow> s\<lparr>fx_db := snd (refresh_collected_at now t h AGENT_SOURCE (up_hash up) at (fx_db s))\<rparr>)"
    have "upload l now t h declared chunks alone s = accept_upload now t h (up_hash up) s1"
      using body up hs 1 by (simp add: upload_def s1_def)
    moreover have "tenants (fx_db s1) = tenants (fx_db s)"
      by (simp add: s1_def refresh_collected_at_def Let_def split: option.split)
    moreover have "held_hash t h (fx_db s1) = Some (up_hash up)"
      using 1 facts_hashes_of_iff(2) [OF hs] by (simp add: s1_def held_hash_refresh split: option.split)
    ultimately show ?thesis by blast
  next
    case 2
    then have "upload l now t h declared chunks alone s = accept_upload now t h (up_hash up) s"
      using body up hs by (simp add: upload_def)
    moreover have "up_hash up = EMPTY_FACTS_HASH \<and> holds_inventory hs"
      using 2 by (auto simp: empty_over_def split: if_splits)
    ultimately show ?thesis using facts_hashes_of_iff(2) [OF hs] by auto
  next
    case 3
    then have "upload l now t h declared chunks alone s = accept_upload now t h (up_hash up) s2"
      using body up hs st stored by (auto simp: upload_def)
    then show ?thesis using stored store_alone [OF ok st] by auto
  qed
qed



end
