(* ===== verification/Ownership.thy ===== *)
theory Ownership
  imports Facts_Exchange Auth
begin

text \<open>
  Whose is what: the invariant of the database the console's handlers keep. Every host, group
  and bundle belongs to a tenant that exists, the tags and the override of a host to its
  tenant, and an assignment to the tenant of its group and of its bundle. It is what makes
  telling one tenant, or one host, of a change enough. Also what several handlers share:
  the best-effort bump of a configuration version and the audit entry.
\<close>

section \<open>The invariant\<close>

definition hosts_owned :: "db \<Rightarrow> bool" where
  "hosts_owned d \<longleftrightarrow> (\<forall>h \<in> set (hosts d). tenant_exists (h_tenant h) d)"

definition tags_owned :: "db \<Rightarrow> bool" where
  "tags_owned d \<longleftrightarrow> tags_ok d \<and> (\<forall>r \<in> set (host_tags d). \<exists>h \<in> set (hosts d). is_host (tg_tenant r) (tg_host r) h)"

definition overrides_owned :: "db \<Rightarrow> bool" where
  "overrides_owned d \<longleftrightarrow> (\<forall>r \<in> set (host_overrides d). \<exists>h \<in> set (hosts d). is_host (o_tenant r) (o_host r) h)"

definition groups_owned :: "db \<Rightarrow> bool" where
  "groups_owned d \<longleftrightarrow> distinct (map g_id (groups d)) \<and> (\<forall>g \<in> set (groups d). tenant_exists (g_tenant g) d)"

definition bundles_owned :: "db \<Rightarrow> bool" where
  "bundles_owned d \<longleftrightarrow> distinct (map b_id (bundles d)) \<and> (\<forall>b \<in> set (bundles d). tenant_exists (b_tenant b) d)"

definition assignments_owned :: "db \<Rightarrow> bool" where
  "assignments_owned d \<longleftrightarrow> (\<forall>a \<in> set (bundle_assignments d).
     (\<exists>g \<in> set (groups d). is_group (a_tenant a) (a_group a) g) \<and> (\<exists>b \<in> set (bundles d). is_bundle (a_tenant a) (a_bundle a) b))"

definition app_ok :: "db \<Rightarrow> bool" where
  "app_ok d \<longleftrightarrow> facts_ok d \<and> hosts_owned d \<and> tags_owned d \<and> overrides_owned d \<and> groups_owned d \<and> bundles_owned d
     \<and> assignments_owned d"

lemmas owned_defs = hosts_owned_def tags_owned_def overrides_owned_def groups_owned_def bundles_owned_def assignments_owned_def

lemma ex_host_map: "(\<exists>h \<in> set hs. is_host t i h) \<longleftrightarrow> (t, i) \<in> set (map (\<lambda>h. (h_tenant h, h_id h)) hs)"
  by (auto simp: is_host_def)

lemma tenant_exists_map: "tenant_exists t d \<longleftrightarrow> t \<in> set (map t_id (tenants d))"
  by (auto simp: tenant_exists_def)

lemma app_ok_owners:
  assumes "app_ok d" "facts_ok d'" "owners d' = owners d"
  shows "app_ok d'"
proof -
  have same: "map t_id (tenants d') = map t_id (tenants d)"
    "map (\<lambda>h. (h_tenant h, h_id h)) (hosts d') = map (\<lambda>h. (h_tenant h, h_id h)) (hosts d)"
    "host_tags d' = host_tags d" "host_overrides d' = host_overrides d" "groups d' = groups d" "bundles d' = bundles d"
    "bundle_assignments d' = bundle_assignments d"
    using assms(3) by (simp_all add: owners_def)
  have "tenant_exists t d' = tenant_exists t d" for t by (simp only: tenant_exists_map same)
  moreover have "(\<exists>h \<in> set (hosts d'). is_host t i h) = (\<exists>h \<in> set (hosts d). is_host t i h)" for t i
    by (simp only: ex_host_map same)
  moreover have "(\<forall>h \<in> set (hosts d'). tenant_exists (h_tenant h) d) = (\<forall>h \<in> set (hosts d). tenant_exists (h_tenant h) d)"
  proof -
    have "map h_tenant (hosts d') = map h_tenant (hosts d)"
      using arg_cong [where f = "map fst", OF same(2)] by (simp add: comp_def)
    from arg_cong [where f = set, OF this]
    have "(\<forall>x \<in> h_tenant ` set (hosts d'). tenant_exists x d) = (\<forall>x \<in> h_tenant ` set (hosts d). tenant_exists x d)" by simp
    then show ?thesis by simp
  qed
  ultimately show ?thesis using assms(1,2) same by (simp add: app_ok_def owned_defs tags_ok_def)
qed

interpretation ai: facts_inv app_ok G for G
  by unfold_locales (simp add: app_ok_def, rule app_ok_owners)

section \<open>What the handlers share\<close>

record op_lib =
  op_codec :: codec
  selector_text :: "selector \<Rightarrow> str option"
  json_text :: "json \<Rightarrow> str option"

text \<open>
  \<open>bump_config_version\<close> and \<open>audit::record\<close>: a failure is logged and the request goes on.
\<close>

definition bump_version_of :: "int \<Rightarrow> db \<Rightarrow> db" where
  "bump_version_of t d = (case bump_config_version t d of Inl _ \<Rightarrow> d | Inr (_, d') \<Rightarrow> d')"

definition audited_as :: "op_lib \<Rightarrow> int \<Rightarrow> int \<Rightarrow> int option \<Rightarrow> str \<Rightarrow> str \<Rightarrow> str \<Rightarrow> json option \<Rightarrow> db \<Rightarrow> db" where
  "audited_as l now t user action ttype tid metadata d =
     (case audit_record now t user action ttype tid (Option.bind metadata (json_text l)) d of
        Inl _ \<Rightarrow> d | Inr d' \<Rightarrow> d')"

definition audited :: "op_lib \<Rightarrow> int \<Rightarrow> authed_user \<Rightarrow> str \<Rightarrow> str \<Rightarrow> str \<Rightarrow> json option \<Rightarrow> db \<Rightarrow> db" where
  "audited l now who = audited_as l now (who_tenant who) (Some (who_user who))"

lemma bump_version_of_result:
  "bump_version_of t d = (if version_of t d = None then d else d\<lparr>tenants := bump_version t (tenants d)\<rparr>)"
  by (simp add: bump_version_of_def bump_config_version_result split: option.split)

lemma tenants_bump_ids [simp]: "map t_id (bump_version t rows) = map t_id rows"
  by (simp add: bump_version_def map_update_where)

lemma tenant_exists_bumped: "tenant_exists u (bump_version_of t d) = tenant_exists u d"
proof -
  have "map t_id (tenants (bump_version_of t d)) = map t_id (tenants d)" by (simp add: bump_version_of_result)
  then show ?thesis by (simp only: tenant_exists_map)
qed

lemma facts_ok_cong:
  "facts_ok d \<Longrightarrow> host_facts d' = host_facts d \<Longrightarrow> hosts d' = hosts d \<Longrightarrow> host_fact_changes d' = host_fact_changes d \<Longrightarrow> facts_ok d'"
  by (simp add: facts_ok_def)

lemma bump_ok:
  assumes "app_ok d"
  shows "app_ok (bump_version_of t d)"
proof (rule app_ok_owners [OF assms])
  from assms have "facts_ok d" by (simp add: app_ok_def)
  then show "facts_ok (bump_version_of t d)" by (rule facts_ok_cong) (simp_all add: bump_version_of_result)
qed (simp_all add: bump_version_of_result owners_def)

lemma audited_as_fields:
  "\<exists>rows. audited_as l now t user action ttype tid metadata d = d\<lparr>audit_log := rows\<rparr>"
proof (cases "audit_record now t user action ttype tid (Option.bind metadata (json_text l)) d")
  case (Inl e)
  then show ?thesis by (intro exI [of _ "audit_log d"]) (simp add: audited_as_def)
next
  case (Inr d')
  then show ?thesis by (auto simp: audited_as_def audit_record_def split: if_splits)
qed

lemma audited_fields:
  "\<exists>rows. audited l now who action ttype tid metadata d = d\<lparr>audit_log := rows\<rparr>"
  by (simp add: audited_def audited_as_fields)

lemma audited_as_unread [simp]:
  "app_ok (audited_as l now u user action ttype tid metadata d) = app_ok d"
  "read_input i (audited_as l now u user action ttype tid metadata d) = read_input i d"
  "version_of t (audited_as l now u user action ttype tid metadata d) = version_of t d"
proof -
  obtain rows where r: "audited_as l now u user action ttype tid metadata d = d\<lparr>audit_log := rows\<rparr>" using audited_as_fields by blast
  show "app_ok (audited_as l now u user action ttype tid metadata d) = app_ok d"
    unfolding r by (simp add: app_ok_def owned_defs facts_ok_def tags_ok_def tenant_exists_def)
  show "read_input i (audited_as l now u user action ttype tid metadata d) = read_input i d"
    unfolding r by (rule read_input_cong) simp_all
  show "version_of t (audited_as l now u user action ttype tid metadata d) = version_of t d"
    unfolding r by (rule version_of_cong) simp
qed

lemma audited_unread [simp]:
  "app_ok (audited l now who action ttype tid metadata d) = app_ok d"
  "read_input i (audited l now who action ttype tid metadata d) = read_input i d"
  "version_of t (audited l now who action ttype tid metadata d) = version_of t d"
  by (simp_all add: audited_def)

lemma audited_as_informs: "informs G c d m d' m' \<Longrightarrow> informs G c d m (audited_as l now t user action ttype tid metadata d') m'"
  by (erule informs_trans, rule informs_unread) simp_all

lemma audited_informs: "informs G c d m d' m' \<Longrightarrow> informs G c d m (audited l now who action ttype tid metadata d') m'"
  by (simp add: audited_def audited_as_informs)

end
