(* ===== verification/Config_Api.thy ===== *)
theory Config_Api
  imports Ownership
begin

text \<open>
  The console's requests for tags, groups and host overrides,
  \<open>crates/server/src/hosts/config_api.rs\<close>, and \<open>fold_host_facts\<close> of \<open>facts/store.rs\<close>.
  A handler answers a status, and what it answers with where it does, and leaves the state
  behind. \<open>managed\<close> is the tenant whose configuration comes from files, if any
  (\<open>config_source::refuse_if_managed\<close>). Ids, the time and encryption nonces are arguments.
\<close>

section \<open>Tags\<close>

definition host_belongs_to :: "int \<Rightarrow> str \<Rightarrow> db \<Rightarrow> bool" where
  "host_belongs_to t h d \<longleftrightarrow> host_get t h d \<noteq> None"

definition put_tag :: "op_lib \<Rightarrow> int \<Rightarrow> authed_user \<Rightarrow> str \<Rightarrow> str \<Rightarrow> str \<Rightarrow> fx_app \<Rightarrow> nat \<times> fx_app" where
  "put_tag l now who h key val s =
     (if \<not> can_write_config (who_role who) then (403, s)
      else if \<not> host_belongs_to (who_tenant who) h (fx_db s) then (404, s)
      else if trim key = [] \<or> length key > MAX_KEY_LEN then (400, s)
      else if length val > MAX_VALUE_LEN then (400, s)
      else case upsert_manual_tag now (who_tenant who) h key val (fx_db s) of
          Inl _ \<Rightarrow> (500, s)
        | Inr (True, d) \<Rightarrow>
            (204, s\<lparr>fx_db := audited l now who ''host.tag_set'' ''host'' h (Some (JObj [(''key'', JStr key)])) d,
                    fx_cache := invalidate_host now (who_tenant who) h (fx_cache s)\<rparr>)
        | Inr (False, d) \<Rightarrow> (204, s\<lparr>fx_db := d\<rparr>))"

definition delete_tag :: "op_lib \<Rightarrow> int \<Rightarrow> authed_user \<Rightarrow> str \<Rightarrow> str \<Rightarrow> fx_app \<Rightarrow> nat \<times> fx_app" where
  "delete_tag l now who h key s =
     (if \<not> can_write_config (who_role who) then (403, s)
      else if \<not> host_belongs_to (who_tenant who) h (fx_db s) then (404, s)
      else case delete_manual_tag (who_tenant who) h key (fx_db s) of
          (True, d) \<Rightarrow>
            (204, s\<lparr>fx_db := audited l now who ''host.tag_removed'' ''host'' h (Some (JObj [(''key'', JStr key)])) d,
                    fx_cache := invalidate_host now (who_tenant who) h (fx_cache s)\<rparr>)
        | (False, d) \<Rightarrow> (404, s\<lparr>fx_db := d\<rparr>))"

section \<open>Groups\<close>

record group_view =
  gv_id :: str
  gv_name :: str
  gv_selector :: json
  gv_created_at :: int

definition view_group :: "codec \<Rightarrow> group_row \<Rightarrow> group_view" where
  "view_group c g = \<lparr>gv_id = g_id g, gv_name = g_name g,
     gv_selector = (case parse_json c (g_selector_json g) of None \<Rightarrow> JObj [] | Some v \<Rightarrow> v), gv_created_at = g_created_at g\<rparr>"

definition refuse_if_managed :: "int option \<Rightarrow> int \<Rightarrow> bool" where
  "refuse_if_managed managed t \<longleftrightarrow> managed = Some t"

definition stored_selector :: "op_lib \<Rightarrow> selector \<Rightarrow> str" where
  "stored_selector l sel = (case selector_text l sel of None \<Rightarrow> ''{}'' | Some x \<Rightarrow> x)"

definition create_group ::
  "op_lib \<Rightarrow> int option \<Rightarrow> str \<Rightarrow> int \<Rightarrow> authed_user \<Rightarrow> str \<Rightarrow> json \<Rightarrow> fx_app \<Rightarrow> nat \<times> group_view option \<times> fx_app" where
  "create_group l managed new_id now who name sel s =
     (if \<not> can_write_config (who_role who) then (403, None, s)
      else if refuse_if_managed managed (who_tenant who) then (409, None, s)
      else if trim name = [] \<or> length name > 128 then (400, None, s)
      else case selector_from_json (op_codec l) sel of
          None \<Rightarrow> (400, None, s)
        | Some selector \<Rightarrow>
            (case group_create new_id now (who_tenant who) name (stored_selector l selector) (fx_db s) of
               Inl _ \<Rightarrow> (409, None, s)
             | Inr (g, d) \<Rightarrow>
                 (201, Some (view_group (op_codec l) g),
                  s\<lparr>fx_db := audited l now who ''group.created'' ''group'' (g_id g)
                      (Some (JObj [(''name'', JStr (g_name g))])) (bump_version_of (who_tenant who) d)\<rparr>)))"

definition patch_group ::
  "op_lib \<Rightarrow> int option \<Rightarrow> int \<Rightarrow> authed_user \<Rightarrow> str \<Rightarrow> str option \<Rightarrow> json option \<Rightarrow> fx_app \<Rightarrow> nat \<times> fx_app" where
  "patch_group l managed now who gid name sel s =
     (if \<not> can_write_config (who_role who) then (403, s)
      else if refuse_if_managed managed (who_tenant who) then (409, s)
      else if sel \<noteq> None \<and> Option.bind sel (selector_from_json (op_codec l)) = None then (400, s)
      else case group_update (who_tenant who) gid name
                  (map_option (stored_selector l) (Option.bind sel (selector_from_json (op_codec l)))) (fx_db s) of
          Inl _ \<Rightarrow> (500, s)
        | Inr (True, d) \<Rightarrow>
            (204, s\<lparr>fx_db := audited l now who ''group.updated'' ''group'' gid
                (Some (JObj [(''name'', case name of None \<Rightarrow> JNull | Some n \<Rightarrow> JStr n)])) (bump_version_of (who_tenant who) d)\<rparr>)
        | Inr (False, d) \<Rightarrow> (404, s\<lparr>fx_db := d\<rparr>))"

definition delete_group :: "op_lib \<Rightarrow> int option \<Rightarrow> int \<Rightarrow> authed_user \<Rightarrow> str \<Rightarrow> fx_app \<Rightarrow> nat \<times> fx_app" where
  "delete_group l managed now who gid s =
     (if \<not> can_write_config (who_role who) then (403, s)
      else if refuse_if_managed managed (who_tenant who) then (409, s)
      else case group_delete (who_tenant who) gid (fx_db s) of
          Inl _ \<Rightarrow> (409, s)
        | Inr (True, d) \<Rightarrow>
            (204, s\<lparr>fx_db := audited l now who ''group.deleted'' ''group'' gid None (bump_version_of (who_tenant who) d)\<rparr>)
        | Inr (False, d) \<Rightarrow> (404, s\<lparr>fx_db := d\<rparr>))"

definition list_groups :: "op_lib \<Rightarrow> authed_user \<Rightarrow> fx_app \<Rightarrow> group_view list" where
  "list_groups l who s = map (view_group (op_codec l)) (group_list (who_tenant who) (fx_db s))"

section \<open>Previewing a selector\<close>

text \<open>The rows arrive grouped by host; a host's documents are handed over when the next host starts.\<close>

fun gather :: "codec \<Rightarrow> (str \<times> str \<times> str) list \<Rightarrow> (str \<times> host_facts) option \<Rightarrow> (str \<times> host_facts) list" where
  "gather c [] current = (case current of None \<Rightarrow> [] | Some x \<Rightarrow> [x])"
| "gather c ((h, source, json) # rows) current =
     (let (handed, h', facts) =
            (case current of
               None \<Rightarrow> ([], h, Map.empty)
             | Some (g, fs) \<Rightarrow> if g = h then ([], g, fs) else ([(g, fs)], h, Map.empty))
      in handed @ gather c rows
           (Some (h', case parse_json c json of None \<Rightarrow> facts | Some doc \<Rightarrow> facts(source \<mapsto> doc))))"

definition fold_host_facts ::
  "codec \<Rightarrow> int \<Rightarrow> str set \<Rightarrow> (str \<times> host_facts \<Rightarrow> 'a \<Rightarrow> 'a) \<Rightarrow> 'a \<Rightarrow> db \<Rightarrow> 'a" where
  "fold_host_facts c t sources f acc d =
     (if sources = {} then acc
      else fold f (gather c (for_each_host_document t (sorted_list_of_set sources) d) None) acc)"

definition tags_or_none :: "(str \<rightharpoonup> host_tags) \<Rightarrow> str \<Rightarrow> host_tags" where
  "tags_or_none m h = (case m h of None \<Rightarrow> Map.empty | Some tags \<Rightarrow> tags)"

definition preview_selector ::
  "op_lib \<Rightarrow> authed_user \<Rightarrow> json \<Rightarrow> fx_app \<Rightarrow> nat \<times> (str \<times> str option) list" where
  "preview_selector l who sel s =
     (case selector_from_json (op_codec l) sel of
        None \<Rightarrow> (400, [])
      | Some selector \<Rightarrow>
          (let t = who_tenant who;
               tags_by_host = maps_for_tenant t (fx_db s);
               (with_facts, matched) =
                 fold_host_facts (op_codec l) t (fact_sources selector)
                   (\<lambda>(h, facts) (with_facts, matched).
                      (insert h with_facts,
                       if matches selector (tags_or_none tags_by_host h) facts then insert h matched else matched))
                   ({}, {}) (fx_db s)
           in (200, map (\<lambda>h. (hid h, hostname h))
                 (filter (\<lambda>h. if hid h \<in> with_facts then hid h \<in> matched
                              else matches selector (tags_or_none tags_by_host (hid h)) Map.empty)
                   (host_list t (fx_db s))))))"

section \<open>Host overrides\<close>

definition valid_bundle_token :: "str \<Rightarrow> bool" where
  "valid_bundle_token s \<longleftrightarrow> s \<noteq> [] \<and> length s \<le> 128
     \<and> list_all (\<lambda>c. is_digit c \<or> (CHR ''a'' \<le> c \<and> c \<le> CHR ''z'') \<or> (CHR ''A'' \<le> c \<and> c \<le> CHR ''Z'') \<or> c \<in> set ''._-'') s"

definition DEFAULT_OVERRIDE_PRIORITY :: int where "DEFAULT_OVERRIDE_PRIORITY = 1000"

definition override_template :: "str option \<Rightarrow> str option" where
  "override_template tmpl = (case map_option trim tmpl of None \<Rightarrow> None | Some x \<Rightarrow> if x = [] then None else Some x)"

definition put_override ::
  "op_lib \<Rightarrow> bytes \<Rightarrow> int \<Rightarrow> authed_user \<Rightarrow> str \<Rightarrow> json \<Rightarrow> int option \<Rightarrow> str option \<Rightarrow> fx_app \<Rightarrow> nat \<times> fx_app" where
  "put_override l nonce now who h patch prio tmpl s =
     (if \<not> can_write_config (who_role who) then (403, s)
      else if \<not> host_belongs_to (who_tenant who) h (fx_db s) then (404, s)
      else if \<not> is_object patch then (400, s)
      else
        let template = override_template tmpl in
        if (case template of None \<Rightarrow> False | Some x \<Rightarrow> \<not> valid_bundle_token x) then (400, s)
        else case json_text l patch of
            None \<Rightarrow> (400, s)
          | Some patch_str \<Rightarrow>
              let encrypted = encrypt_at_rest (at_rest (op_codec l)) nonce (HostOverride (who_tenant who) h) patch_str;
                  priority = (case prio of None \<Rightarrow> DEFAULT_OVERRIDE_PRIORITY | Some p \<Rightarrow> p)
              in case override_upsert now (who_tenant who) h encrypted priority template (Some (who_user who)) (fx_db s) of
                  Inl _ \<Rightarrow> (500, s)
                | Inr d \<Rightarrow>
                    (204, s\<lparr>fx_db := audited l now who ''host.override.updated'' ''host'' h
                        (Some (JObj [(''priority'', JNum (NInt priority)),
                           (''template'', case template of None \<Rightarrow> JNull | Some x \<Rightarrow> JStr x)]))
                        (bump_version_of (who_tenant who) d)\<rparr>))"

record override_view =
  ov_patch :: json
  ov_priority :: int
  ov_template :: "str option"

text \<open>\<open>Inl 500\<close> where the stored override cannot be decrypted or read; \<open>from_slice\<close> wants UTF-8.\<close>

definition load_override :: "op_lib \<Rightarrow> int \<Rightarrow> str \<Rightarrow> db \<Rightarrow> nat + override_view option" where
  "load_override l t h d =
     (case override_get t h d of
        None \<Rightarrow> Inr None
      | Some row \<Rightarrow>
          (case (case decrypt_at_rest (at_rest (op_codec l)) (HostOverride t h) (so_patch_encrypted row) of
                   Inl _ \<Rightarrow> None
                 | Inr plain \<Rightarrow> if utf8_ok (op_codec l) plain then parse_json (op_codec l) plain else None) of
             None \<Rightarrow> Inl 500
           | Some patch \<Rightarrow> Inr (Some \<lparr>ov_patch = patch, ov_priority = so_priority row, ov_template = so_template row\<rparr>)))"

fun override_shape :: "json \<Rightarrow> json" where
  "override_shape (JObj m) = JObj (map (\<lambda>(k, v). (k, override_shape v)) m)"
| "override_shape JNull = JNull"
| "override_shape _ = JStr []"

definition get_override_shape :: "op_lib \<Rightarrow> authed_user \<Rightarrow> str \<Rightarrow> fx_app \<Rightarrow> nat \<times> override_view option" where
  "get_override_shape l who h s =
     (if \<not> can_write_config (who_role who) then (403, None)
      else if \<not> host_belongs_to (who_tenant who) h (fx_db s) then (404, None)
      else case load_override l (who_tenant who) h (fx_db s) of
          Inl st \<Rightarrow> (st, None)
        | Inr None \<Rightarrow> (404, None)
        | Inr (Some v) \<Rightarrow> (200, Some (v\<lparr>ov_patch := override_shape (ov_patch v)\<rparr>)))"

definition get_override :: "op_lib \<Rightarrow> int \<Rightarrow> authed_user \<Rightarrow> str \<Rightarrow> fx_app \<Rightarrow> nat \<times> override_view option \<times> fx_app" where
  "get_override l now who h s =
     (if \<not> can_write_config (who_role who) then (403, None, s)
      else if \<not> host_belongs_to (who_tenant who) h (fx_db s) then (404, None, s)
      else case load_override l (who_tenant who) h (fx_db s) of
          Inl st \<Rightarrow> (st, None, s)
        | Inr None \<Rightarrow> (404, None, s)
        | Inr (Some v) \<Rightarrow> (200, Some v, s\<lparr>fx_db := audited l now who ''host.override.read'' ''host'' h None (fx_db s)\<rparr>))"

definition delete_override :: "op_lib \<Rightarrow> int \<Rightarrow> authed_user \<Rightarrow> str \<Rightarrow> fx_app \<Rightarrow> nat \<times> fx_app" where
  "delete_override l now who h s =
     (if \<not> can_write_config (who_role who) then (403, s)
      else if \<not> host_belongs_to (who_tenant who) h (fx_db s) then (404, s)
      else case override_delete (who_tenant who) h (fx_db s) of
          (True, d) \<Rightarrow>
            (204, s\<lparr>fx_db := audited l now who ''host.override.deleted'' ''host'' h None (bump_version_of (who_tenant who) d)\<rparr>)
        | (False, d) \<Rightarrow> (404, s\<lparr>fx_db := d\<rparr>))"

section \<open>What each write is read through\<close>

lemma map_for_host_cong:
  assumes "map (\<lambda>r. (tg_key r, to_tag_value r)) (filter (\<lambda>r. tg_tenant r = t \<and> tg_host r = h) (host_tags d')) =
    map (\<lambda>r. (tg_key r, to_tag_value r)) (filter (\<lambda>r. tg_tenant r = t \<and> tg_host r = h) (host_tags d))"
  shows "map_for_host t h d' = map_for_host t h d"
proof -
  have "map_for_host t h x = fold (\<lambda>(k, v) m. m(k \<mapsto> (case m k of None \<Rightarrow> [] | Some vs \<Rightarrow> vs) @ [v]))
      (map (\<lambda>r. (tg_key r, to_tag_value r)) (filter (\<lambda>r. tg_tenant r = t \<and> tg_host r = h) (host_tags x))) Map.empty" for x
    by (simp add: map_for_host_def fold_map comp_def)
  then show ?thesis using assms by presburger
qed

text \<open>What differs in the tags alone, in the override of one host alone, in the groups, bundles or assignments alone.\<close>

lemma tags_differ:
  assumes "d' = d\<lparr>host_tags := rows\<rparr>" and "\<And>u j. (u, j) \<noteq> (t, h) \<Longrightarrow> map_for_host u j d' = map_for_host u j d"
  shows "read_input i d' = read_input i d \<or> host_input t h i"
  using assms(2) unfolding assms(1)
  by (cases i) (auto simp: group_list_def facts_get_def list_for_groups_def override_get_def cong del: if_weak_cong)

lemma overrides_differ:
  assumes "d' = d\<lparr>host_overrides := rows\<rparr>" and "\<And>u j. u \<noteq> t \<Longrightarrow> override_get u j d' = override_get u j d"
  shows "read_input i d' = read_input i d \<or> input_tenant i = t"
  using assms(2) unfolding assms(1)
  by (cases i) (auto simp: group_list_def facts_get_def list_for_groups_def map_for_host_def cong del: if_weak_cong)

lemma groups_differ:
  assumes "d' = d\<lparr>groups := rows\<rparr>" and "\<And>u. u \<noteq> t \<Longrightarrow> filter (\<lambda>g. g_tenant g = u) rows = filter (\<lambda>g. g_tenant g = u) (groups d)"
  shows "read_input i d' = read_input i d \<or> input_tenant i = t"
  using assms(2) unfolding assms(1)
  by (cases i) (auto simp: group_list_def facts_get_def list_for_groups_def map_for_host_def override_get_def cong del: if_weak_cong)

lemma version_of_exists: "version_of t d \<noteq> None \<longleftrightarrow> tenant_exists t d"
  by (auto simp: version_of_def fetch_optional_def tenant_exists_def find_None_iff)

text \<open>A change of one host is told by invalidating it, one of a tenant by a bump.\<close>

lemma tell_host:
  assumes "app_ok d" and "\<And>i. read_input i d = read_input i (fx_db s) \<or> host_input t h i" and "tenants d = tenants (fx_db s)"
  shows "fx_informs app_ok G c s (s\<lparr>fx_db := audited l now who action ttype tid metadata d, fx_cache := invalidate_host now' t h (fx_cache s)\<rparr>)"
  using assms(1) audited_informs [OF informs_host [OF assms(2) version_of_cong [OF assms(3)]]]
  by (simp add: fx_informs_def)

lemma tell_tenant:
  assumes "app_ok d" and "\<And>i. read_input i d = read_input i (fx_db s) \<or> input_tenant i = t" and "tenants d = tenants (fx_db s)"
    and "tenant_exists t d"
  shows "fx_informs app_ok G c s (s\<lparr>fx_db := audited l now who action ttype tid metadata (bump_version_of t d)\<rparr>)"
proof -
  obtain v where "bump_config_version t d = Inr (v + 1, bump_version_of t d)"
    using assms(4) version_of_exists [of t d] by (auto simp: bump_version_of_def bump_config_version_result)
  from audited_informs [OF informs_tenant [OF assms(2) version_of_cong [OF assms(3)] this]]
  show ?thesis using bump_ok [OF assms(1)] by (simp add: fx_informs_def)
qed

lemma tell_nothing:
  assumes "app_ok d" and "\<And>i. read_input i d = read_input i (fx_db s)" and "tenants d = tenants (fx_db s)"
  shows "fx_informs app_ok G c s (s\<lparr>fx_db := d\<rparr>)"
  using assms(1) informs_unread [OF assms(2) version_of_cong [OF assms(3)]] by (simp add: fx_informs_def)

section \<open>What the repositories keep\<close>

lemma host_unique:
  "facts_ok d \<Longrightarrow> x \<in> set (hosts d) \<Longrightarrow> is_host t h x \<Longrightarrow> y \<in> set (hosts d) \<Longrightarrow> is_host u h y \<Longrightarrow> u = t"
  by (auto simp: facts_ok_def is_host_def distinct_map dest: inj_onD)

lemma host_belongs: "host_belongs_to t h d \<longleftrightarrow> (\<exists>x \<in> set (hosts d). is_host t h x)"
  using fetch_host [of "is_host t h" "hosts d"] by (auto simp: host_belongs_to_def host_get_def)

lemma tag_owner: "app_ok d \<Longrightarrow> host_belongs_to t h d \<Longrightarrow> r \<in> set (host_tags d) \<Longrightarrow> tg_host r = h \<Longrightarrow> tg_tenant r = t"
  unfolding host_belongs app_ok_def tags_owned_def using host_unique by blast

lemma override_owner:
  "app_ok d \<Longrightarrow> host_belongs_to t h d \<Longrightarrow> r \<in> set (host_overrides d) \<Longrightarrow> o_host r = h \<Longrightarrow> o_tenant r = t"
  unfolding host_belongs app_ok_def overrides_owned_def using host_unique by blast

lemma host_tenant_exists: "app_ok d \<Longrightarrow> host_belongs_to t h d \<Longrightarrow> tenant_exists t d"
  unfolding host_belongs app_ok_def hosts_owned_def by (auto simp: is_host_def)

lemma app_ok_tags:
  "app_ok d \<Longrightarrow> distinct (map tag_pk rows) \<Longrightarrow>
   (\<And>r. r \<in> set rows \<Longrightarrow> (tg_source r = ''manual'' \<or> tg_source r = ''agent'') \<and> (\<exists>h \<in> set (hosts d). is_host (tg_tenant r) (tg_host r) h)) \<Longrightarrow>
   app_ok (d\<lparr>host_tags := rows\<rparr>)"
  by (simp add: app_ok_def owned_defs facts_ok_def tags_ok_def tenant_exists_def)

lemma app_ok_overrides:
  "app_ok d \<Longrightarrow> (\<And>r. r \<in> set rows \<Longrightarrow> \<exists>h \<in> set (hosts d). is_host (o_tenant r) (o_host r) h) \<Longrightarrow> app_ok (d\<lparr>host_overrides := rows\<rparr>)"
  by (simp add: app_ok_def owned_defs facts_ok_def tags_ok_def tenant_exists_def)

lemma set_upsertD: "r \<in> set (upsert clash f new rows) \<Longrightarrow> r = new \<or> r \<in> set rows \<or> (\<exists>x \<in> set rows. clash x \<and> r = f x)"
  by (auto simp: upsert_def set_update_where split: if_splits)

lemma find_upsert:
  "(\<And>r. r \<in> set rows \<Longrightarrow> clash r \<Longrightarrow> \<not> q r \<and> \<not> q (f r)) \<Longrightarrow> \<not> q new \<Longrightarrow> find q (upsert clash f new rows) = find q rows"
proof -
  assume a: "\<And>r. r \<in> set rows \<Longrightarrow> clash r \<Longrightarrow> \<not> q r \<and> \<not> q (f r)" "\<not> q new"
  have "find q xs = (case filter q xs of [] \<Rightarrow> None | x # _ \<Rightarrow> Some x)" for xs
    by (induction xs) auto
  then show ?thesis using filter_upsert [of rows clash q f new] a by simp
qed

lemma find_upserted:
  assumes "\<And>r. clash r \<Longrightarrow> q (f r)" "\<And>r. q r \<Longrightarrow> clash r" "q new"
  shows "find q (upsert clash f new rows) = Some new \<or> (\<exists>x. find q (upsert clash f new rows) = Some (f x) \<and> clash x)"
proof (cases "\<exists>r \<in> set rows. clash r")
  case True
  then have "\<exists>x. find q (update_where clash f rows) = Some (f x) \<and> clash x"
    by (induction rows) (use assms in \<open>auto simp: update_where_def\<close>)
  with True show ?thesis by (simp add: upsert_def)
next
  case False
  then have "find q (rows @ [new]) = Some new"
    by (induction rows) (use assms in auto)
  with False show ?thesis by (simp add: upsert_def)
qed

lemma map_filter_update:
  "(\<And>r. r \<in> set rows \<Longrightarrow> p r \<Longrightarrow> q (f r) = q r \<and> (q r \<longrightarrow> g (f r) = g r)) \<Longrightarrow>
   map g (filter q (update_where p f rows)) = map g (filter q rows)"
  by (induction rows) (auto simp: update_where_def)

lemma manual_tag_kept:
  assumes ok: "app_ok d" and host: "host_belongs_to t h d"
    and r: "upsert_manual_tag now t h key val d = Inr (changed, d')"
  shows "app_ok d'" and "tenants d' = tenants d"
    and "read_input i d' = read_input i d \<or> changed \<and> host_input t h i"
proof -
  define new where "new = \<lparr>tg_tenant = t, tg_host = h, tg_key = key, tg_value = val, tg_source = ''manual'', tg_updated_at = now\<rparr>"
  define clash where "clash = (\<lambda>r :: tag_row. tg_host r = h \<and> tg_key r = key \<and> tg_source r = ''manual'')"
  define f where "f = (\<lambda>r :: tag_row. r\<lparr>tg_value := val, tg_updated_at := now, tg_tenant := t\<rparr>)"
  have d': "d' = d\<lparr>host_tags := upsert clash f new (host_tags d)\<rparr>"
    and ch: "changed = (existing_tag h key ''manual'' d \<noteq> Some val)"
    using r by (auto simp: upsert_manual_tag_def upsert_tag_def Let_def new_def clash_def f_def split: if_splits)
  have owner: "tg_tenant r = t" if "r \<in> set (host_tags d)" "clash r" for r
    using tag_owner [OF ok host] that by (simp add: clash_def)
  have tags: "tags_ok d" "\<And>r. r \<in> set (host_tags d) \<Longrightarrow> \<exists>h \<in> set (hosts d). is_host (tg_tenant r) (tg_host r) h"
    using ok by (simp_all add: app_ok_def tags_owned_def)
  show "app_ok d'" unfolding d'
  proof (rule app_ok_tags [OF ok])
    show "distinct (map tag_pk (upsert clash f new (host_tags d)))"
      by (rule distinct_map_upsert) (use tags in \<open>auto simp: tags_ok_def tag_pk_def f_def clash_def new_def\<close>)
    fix r assume "r \<in> set (upsert clash f new (host_tags d))"
    from set_upsertD [OF this] show "(tg_source r = ''manual'' \<or> tg_source r = ''agent'') \<and>
        (\<exists>h \<in> set (hosts d). is_host (tg_tenant r) (tg_host r) h)"
      using tags host owner by (auto simp: tags_ok_def host_belongs new_def f_def clash_def)
  qed
  show "tenants d' = tenants d" by (simp add: d')
  have other: "map_for_host u j d' = map_for_host u j d" if "(u, j) \<noteq> (t, h)" for u j
  proof (rule map_for_host_cong)
    have "filter (\<lambda>r. tg_tenant r = u \<and> tg_host r = j) (upsert clash f new (host_tags d)) =
        filter (\<lambda>r. tg_tenant r = u \<and> tg_host r = j) (host_tags d)"
      by (rule filter_upsert) (use that owner in \<open>auto simp: clash_def f_def new_def\<close>)
    then show "map (\<lambda>r. (tg_key r, to_tag_value r)) (filter (\<lambda>r. tg_tenant r = u \<and> tg_host r = j) (host_tags d')) =
        map (\<lambda>r. (tg_key r, to_tag_value r)) (filter (\<lambda>r. tg_tenant r = u \<and> tg_host r = j) (host_tags d))"
      by (simp add: d')
  qed
  show "read_input i d' = read_input i d \<or> changed \<and> host_input t h i"
  proof (cases changed)
    case True
    then show ?thesis using tags_differ [OF d' other, of t h i] by simp
  next
    case False
    then obtain x where x: "x \<in> set (host_tags d)" "clash x" "tg_value x = val"
      using ch by (auto simp: existing_tag_def fetch_optional_def clash_def dest: find_SomeD)
    have same: "r = x" if "r \<in> set (host_tags d)" "clash r" for r
    proof -
      have "tag_pk r = tag_pk x" using x that by (simp add: tag_pk_def clash_def)
      then show ?thesis using tags(1) x(1) that(1) by (auto simp: tags_ok_def distinct_map dest: inj_onD)
    qed
    have "host_tags d' = update_where clash f (host_tags d)" using x by (auto simp: d' upsert_def)
    then have "map_for_host u j d' = map_for_host u j d" for u j
      by (intro map_for_host_cong, simp, intro map_filter_update)
        (use same x(3) owner in \<open>auto simp: f_def to_tag_value_def\<close>)
    then show ?thesis using tags_differ [OF d', of "- 1" "[]"] tags_differ [OF d', of t h]
      by (cases i) (auto simp: d' group_list_def facts_get_def list_for_groups_def override_get_def cong del: if_weak_cong)
  qed
qed

lemma deleted_tag_kept:
  assumes ok: "app_ok d" and r: "delete_manual_tag t h key d = (gone, d')"
  shows "app_ok d'" and "tenants d' = tenants d"
    and "read_input i d' = read_input i d \<or> gone \<and> host_input t h i"
proof -
  define p where "p = (\<lambda>r :: tag_row. tg_tenant r = t \<and> tg_host r = h \<and> tg_key r = key \<and> tg_source r = ''manual'')"
  have d': "d' = d\<lparr>host_tags := delete_where p (host_tags d)\<rparr>" and gone: "gone = (affected p (host_tags d) > 0)"
    using r by (auto simp: delete_manual_tag_def Let_def p_def)
  show "app_ok d'" unfolding d'
    by (rule app_ok_tags [OF ok]) (use ok in \<open>auto simp: app_ok_def tags_owned_def tags_ok_def intro: distinct_map_delete\<close>)
  show "tenants d' = tenants d" by (simp add: d')
  have other: "map_for_host u j d' = map_for_host u j d" if "(u, j) \<noteq> (t, h)" for u j
  proof -
    have "filter (\<lambda>r. tg_tenant r = u \<and> tg_host r = j) (delete_where p (host_tags d)) =
        filter (\<lambda>r. tg_tenant r = u \<and> tg_host r = j) (host_tags d)"
      by (rule filter_delete_where) (use that in \<open>auto simp: p_def\<close>)
    then show ?thesis by (intro map_for_host_cong) (simp add: d')
  qed
  show "read_input i d' = read_input i d \<or> gone \<and> host_input t h i"
  proof (cases gone)
    case True
    then show ?thesis using tags_differ [OF d' other, of t h i] by simp
  next
    case False
    then have "d' = d" using d' by (simp add: gone affected_zero delete_where_none)
    then show ?thesis by simp
  qed
qed

lemma override_kept:
  assumes ok: "app_ok d" and host: "host_belongs_to t h d"
    and r: "override_upsert now t h patch prio tmpl by_user d = Inr d'"
  shows "app_ok d'" and "tenants d' = tenants d" and "read_input i d' = read_input i d \<or> input_tenant i = t"
    and "override_get t h d' = Some \<lparr>so_host_id = h, so_patch_encrypted = patch, so_priority = prio, so_template = tmpl\<rparr>"
proof -
  define new where "new = \<lparr>o_tenant = t, o_host = h, o_patch_encrypted = patch, o_priority = prio,
      o_updated_at = now, o_updated_by_user = by_user, o_template = tmpl\<rparr>"
  define clash where "clash = (\<lambda>r :: override_row. o_host r = h)"
  define f where "f = (\<lambda>r :: override_row. r\<lparr>o_patch_encrypted := patch, o_priority := prio, o_template := tmpl,
      o_updated_at := now, o_updated_by_user := by_user, o_tenant := t\<rparr>)"
  have d': "d' = d\<lparr>host_overrides := upsert clash f new (host_overrides d)\<rparr>"
    using r by (auto simp: override_upsert_def Let_def new_def clash_def f_def split: if_splits)
  have owner: "o_tenant r = t" if "r \<in> set (host_overrides d)" "clash r" for r
    using override_owner [OF ok host] that by (simp add: clash_def)
  show "app_ok d'" unfolding d'
  proof (rule app_ok_overrides [OF ok])
    fix r assume "r \<in> set (upsert clash f new (host_overrides d))"
    from set_upsertD [OF this] show "\<exists>h \<in> set (hosts d). is_host (o_tenant r) (o_host r) h"
      using ok host owner by (auto simp: app_ok_def overrides_owned_def host_belongs new_def f_def clash_def)
  qed
  show "tenants d' = tenants d" by (simp add: d')
  have "override_get u j d' = override_get u j d" if "u \<noteq> t" for u j
    unfolding override_get_def fetch_optional_def d'
    by (simp, subst find_upsert) (use that owner in \<open>auto simp: clash_def f_def new_def\<close>)
  from overrides_differ [OF d' this] show "read_input i d' = read_input i d \<or> input_tenant i = t" by simp
  have "find (\<lambda>r. o_tenant r = t \<and> o_host r = h) (upsert clash f new (host_overrides d)) = Some new \<or>
      (\<exists>x. find (\<lambda>r. o_tenant r = t \<and> o_host r = h) (upsert clash f new (host_overrides d)) = Some (f x) \<and> clash x)"
    by (rule find_upserted) (auto simp: clash_def f_def new_def)
  then show "override_get t h d' =
      Some \<lparr>so_host_id = h, so_patch_encrypted = patch, so_priority = prio, so_template = tmpl\<rparr>"
    by (auto simp: override_get_def fetch_optional_def d' new_def f_def clash_def)
qed

lemma deleted_override_kept:
  assumes ok: "app_ok d" and r: "override_delete t h d = (gone, d')"
  shows "app_ok d'" and "tenants d' = tenants d" and "read_input i d' = read_input i d \<or> gone \<and> input_tenant i = t"
proof -
  define p where "p = (\<lambda>r :: override_row. o_tenant r = t \<and> o_host r = h)"
  have d': "d' = d\<lparr>host_overrides := delete_where p (host_overrides d)\<rparr>" and gone: "gone = (affected p (host_overrides d) > 0)"
    using r by (auto simp: override_delete_def Let_def p_def)
  show "app_ok d'" unfolding d'
    by (rule app_ok_overrides [OF ok]) (use ok in \<open>auto simp: app_ok_def overrides_owned_def\<close>)
  show "tenants d' = tenants d" by (simp add: d')
  show "read_input i d' = read_input i d \<or> gone \<and> input_tenant i = t"
  proof (cases gone)
    case True
    have "override_get u j d' = override_get u j d" if "u \<noteq> t" for u j
      unfolding override_get_def fetch_optional_def d'
      by (simp, subst find_delete_where) (use that in \<open>auto simp: p_def\<close>)
    from overrides_differ [OF d' this] show ?thesis using True by simp
  next
    case False
    then have "d' = d" using d' by (simp add: gone affected_zero delete_where_none)
    then show ?thesis by simp
  qed
qed

lemma app_ok_groups:
  assumes "app_ok d" "distinct (map g_id rows)" "\<And>g. g \<in> set rows \<Longrightarrow> tenant_exists (g_tenant g) d"
    and "\<And>a. a \<in> set (bundle_assignments d) \<Longrightarrow> \<exists>g \<in> set rows. is_group (a_tenant a) (a_group a) g"
  shows "app_ok (d\<lparr>groups := rows\<rparr>)"
  using assms by (simp add: app_ok_def owned_defs facts_ok_def tags_ok_def tenant_exists_def)

lemma assigned_group:
  "app_ok d \<Longrightarrow> a \<in> set (bundle_assignments d) \<Longrightarrow> \<exists>g \<in> set (groups d). is_group (a_tenant a) (a_group a) g"
  by (simp add: app_ok_def assignments_owned_def)

lemma created_group_kept:
  assumes ok: "app_ok d" and r: "group_create new_id now t name sel d = Inr (g, d')"
  shows "app_ok d'" and "tenants d' = tenants d" and "tenant_exists t d'" and "read_input i d' = read_input i d \<or> input_tenant i = t"
    and "groups d' = groups d @ [g]" and "g_id g = new_id" and "g_selector_json g = sel" and "g_tenant g = t"
    and "\<exists>rows. d' = d\<lparr>groups := rows\<rparr>" and "\<forall>x \<in> set (groups d). g_id x \<noteq> new_id"
proof -
  have d': "d' = d\<lparr>groups := groups d @ [g]\<rparr>" and g: "g_id g = new_id" "g_selector_json g = sel" "g_tenant g = t"
    and t: "tenant_exists t d" and new: "\<forall>x \<in> set (groups d). g_id x \<noteq> new_id"
    using r by (auto simp: group_create_def Let_def split: if_splits)
  show "app_ok d'" unfolding d'
  proof (rule app_ok_groups [OF ok])
    show "distinct (map g_id (groups d @ [g]))" using ok g new by (auto simp: app_ok_def groups_owned_def)
    show "tenant_exists (g_tenant x) d" if "x \<in> set (groups d @ [g])" for x
      using that ok g t by (auto simp: app_ok_def groups_owned_def)
  qed (use assigned_group [OF ok] in auto)
  show "tenants d' = tenants d" "tenant_exists t d'" "groups d' = groups d @ [g]" "\<exists>rows. d' = d\<lparr>groups := rows\<rparr>"
    using t by (auto simp: d' tenant_exists_def)
  show "read_input i d' = read_input i d \<or> input_tenant i = t"
    by (rule groups_differ [OF d']) (simp add: g)
qed (use r in \<open>auto simp: group_create_def Let_def split: if_splits\<close>)

lemma updated_group_kept:
  assumes ok: "app_ok d" and r: "group_update t gid name sel d = Inr (found, d')"
  shows "app_ok d'" and "tenants d' = tenants d" and "found \<Longrightarrow> tenant_exists t d'"
    and "read_input i d' = read_input i d \<or> found \<and> input_tenant i = t"
proof -
  define f where "f = (\<lambda>g :: group_row. g\<lparr>g_name := (case name of Some n \<Rightarrow> n | None \<Rightarrow> g_name g),
      g_selector_json := (case sel of Some x \<Rightarrow> x | None \<Rightarrow> g_selector_json g)\<rparr>)"
  have d': "d' = d\<lparr>groups := update_where (is_group t gid) f (groups d)\<rparr>" and found: "found = (affected (is_group t gid) (groups d) > 0)"
    using r by (auto simp: group_update_def Let_def f_def split: if_splits)
  have f [simp]: "g_id (f g) = g_id g" "g_tenant (f g) = g_tenant g" "is_group u j (f g) = is_group u j g" for g u j
    by (simp_all add: f_def is_group_def)
  show "app_ok d'" unfolding d'
  proof (rule app_ok_groups [OF ok])
    show "distinct (map g_id (update_where (is_group t gid) f (groups d)))"
      using ok by (simp add: app_ok_def groups_owned_def map_update_where)
    show "tenant_exists (g_tenant x) d" if "x \<in> set (update_where (is_group t gid) f (groups d))" for x
      using that ok by (auto simp: app_ok_def groups_owned_def set_update_where)
    show "\<exists>g \<in> set (update_where (is_group t gid) f (groups d)). is_group (a_tenant a) (a_group a) g"
      if a: "a \<in> set (bundle_assignments d)" for a
    proof -
      obtain g where "g \<in> set (groups d)" "is_group (a_tenant a) (a_group a) g" using assigned_group [OF ok a] by blast
      then show ?thesis
        by (intro bexI [of _ "if is_group t gid g then f g else g"]) (auto simp: set_update_where)
    qed
  qed
  show "tenants d' = tenants d" by (simp add: d')
  show "tenant_exists t d'" if found
    using that ok by (auto simp: found affected_pos app_ok_def groups_owned_def is_group_def d' tenant_exists_def)
  show "read_input i d' = read_input i d \<or> found \<and> input_tenant i = t"
  proof (cases found)
    case True
    have "filter (\<lambda>g. g_tenant g = u) (update_where (is_group t gid) f (groups d)) = filter (\<lambda>g. g_tenant g = u) (groups d)"
      if "u \<noteq> t" for u
      by (rule filter_update_where) (use that in \<open>auto simp: is_group_def\<close>)
    from groups_differ [OF d' this] True show ?thesis by simp
  next
    case False
    then have "d' = d" using d' by (simp add: found affected_zero update_where_none)
    then show ?thesis by simp
  qed
qed

lemma deleted_group_kept:
  assumes ok: "app_ok d" and r: "group_delete t gid d = Inr (found, d')"
  shows "app_ok d'" and "tenants d' = tenants d" and "found \<Longrightarrow> tenant_exists t d'"
    and "read_input i d' = read_input i d \<or> found \<and> input_tenant i = t"
proof -
  have d': "d' = d\<lparr>groups := delete_where (is_group t gid) (groups d)\<rparr>" and found: "found = (affected (is_group t gid) (groups d) > 0)"
    and free: "found \<Longrightarrow> \<forall>a \<in> set (bundle_assignments d). a_group a \<noteq> gid"
    using r by (auto simp: group_delete_def split: if_splits)
  have none: "d' = d" if "\<not> found" using that d' by (simp add: found affected_zero delete_where_none)
  show "app_ok d'"
  proof (cases found)
    case True
    show ?thesis unfolding d'
    proof (rule app_ok_groups [OF ok])
      show "distinct (map g_id (delete_where (is_group t gid) (groups d)))"
        using ok by (simp add: app_ok_def groups_owned_def distinct_map_delete)
      show "tenant_exists (g_tenant x) d" if "x \<in> set (delete_where (is_group t gid) (groups d))" for x
        using that ok by (auto simp: app_ok_def groups_owned_def)
      show "\<exists>g \<in> set (delete_where (is_group t gid) (groups d)). is_group (a_tenant a) (a_group a) g"
        if a: "a \<in> set (bundle_assignments d)" for a
      proof -
        obtain g where "g \<in> set (groups d)" "is_group (a_tenant a) (a_group a) g" using assigned_group [OF ok a] by blast
        then show ?thesis using free [OF True] a by (intro bexI [of _ g]) (auto simp: is_group_def)
      qed
    qed
  qed (use none ok in simp)
  show "tenants d' = tenants d" by (simp add: d')
  show "tenant_exists t d'" if found
    using that ok by (auto simp: found affected_pos app_ok_def groups_owned_def is_group_def d' tenant_exists_def)
  show "read_input i d' = read_input i d \<or> found \<and> input_tenant i = t"
  proof (cases found)
    case True
    have "filter (\<lambda>g. g_tenant g = u) (delete_where (is_group t gid) (groups d)) = filter (\<lambda>g. g_tenant g = u) (groups d)"
      if "u \<noteq> t" for u
      by (rule filter_delete_where) (use that in \<open>auto simp: is_group_def\<close>)
    from groups_differ [OF d' this] True show ?thesis by simp
  qed (use none in simp)
qed

section \<open>Every request tells the cache\<close>

datatype cfg_request =
    CPutTag int authed_user str str str
  | CDeleteTag int authed_user str str
  | CCreateGroup str int authed_user str json
  | CPatchGroup int authed_user str "str option" "json option"
  | CDeleteGroup int authed_user str
  | CPutOverride bytes int authed_user str json "int option" "str option"
  | CGetOverride int authed_user str
  | CDeleteOverride int authed_user str

fun cfg_run :: "op_lib \<Rightarrow> int option \<Rightarrow> cfg_request \<Rightarrow> fx_app \<Rightarrow> fx_app" where
  "cfg_run l managed (CPutTag now who h key val) s = snd (put_tag l now who h key val s)"
| "cfg_run l managed (CDeleteTag now who h key) s = snd (delete_tag l now who h key s)"
| "cfg_run l managed (CCreateGroup new_id now who name sel) s = snd (snd (create_group l managed new_id now who name sel s))"
| "cfg_run l managed (CPatchGroup now who gid name sel) s = snd (patch_group l managed now who gid name sel s)"
| "cfg_run l managed (CDeleteGroup now who gid) s = snd (delete_group l managed now who gid s)"
| "cfg_run l managed (CPutOverride nonce now who h patch prio tmpl) s = snd (put_override l nonce now who h patch prio tmpl s)"
| "cfg_run l managed (CGetOverride now who h) s = snd (snd (get_override l now who h s))"
| "cfg_run l managed (CDeleteOverride now who h) s = snd (delete_override l now who h s)"

lemma keeps_informedI:
  "(\<And>s. app_ok (fx_db s) \<Longrightarrow> fx_informs app_ok G c s (f s)) \<Longrightarrow> keeps_informed app_ok G c f"
  by (simp add: keeps_informed_def fx_informs_def)

lemma put_tag_informs: "keeps_informed app_ok G c (\<lambda>s. snd (put_tag l now who h key val s))"
proof (rule keeps_informedI)
  fix s :: fx_app assume ok: "app_ok (fx_db s)"
  show "fx_informs app_ok G c s (snd (put_tag l now who h key val s))"
  proof (cases "host_belongs_to (who_tenant who) h (fx_db s)")
    case True
    show ?thesis
    proof (cases "upsert_manual_tag now (who_tenant who) h key val (fx_db s)")
      case (Inr x)
      then obtain changed d where d: "upsert_manual_tag now (who_tenant who) h key val (fx_db s) = Inr (changed, d)" by (cases x) simp
      note kept = manual_tag_kept [OF ok True d]
      show ?thesis
        using tell_host [OF kept(1) _ kept(2)] tell_nothing [OF kept(1) _ kept(2)] kept(3) d True
        by (cases changed) (auto simp: put_tag_def)
    qed (simp add: put_tag_def)
  qed (simp add: put_tag_def)
qed

lemma delete_tag_informs: "keeps_informed app_ok G c (\<lambda>s. snd (delete_tag l now who h key s))"
proof (rule keeps_informedI)
  fix s :: fx_app assume ok: "app_ok (fx_db s)"
  obtain gone d where d: "delete_manual_tag (who_tenant who) h key (fx_db s) = (gone, d)" by fastforce
  note kept = deleted_tag_kept [OF ok d]
  show "fx_informs app_ok G c s (snd (delete_tag l now who h key s))"
    using tell_host [OF kept(1) _ kept(2)] tell_nothing [OF kept(1) _ kept(2)] kept(3) d
    by (cases gone) (auto simp: delete_tag_def)
qed

lemma create_group_informs: "keeps_informed app_ok G c (\<lambda>s. snd (snd (create_group l managed new_id now who name sel s)))"
proof (rule keeps_informedI)
  fix s :: fx_app assume ok: "app_ok (fx_db s)"
  show "fx_informs app_ok G c s (snd (snd (create_group l managed new_id now who name sel s)))"
  proof (cases "selector_from_json (op_codec l) sel")
    case (Some selector)
    show ?thesis
    proof (cases "group_create new_id now (who_tenant who) name (stored_selector l selector) (fx_db s)")
      case (Inr x)
      then obtain g d where d: "group_create new_id now (who_tenant who) name (stored_selector l selector) (fx_db s) = Inr (g, d)"
        by (cases x) simp
      note kept = created_group_kept [OF ok d]
      show ?thesis using tell_tenant [OF kept(1) kept(4) kept(2,3)] d Some by (auto simp: create_group_def)
    qed (simp add: create_group_def Some)
  qed (simp add: create_group_def)
qed

lemma patch_group_informs: "keeps_informed app_ok G c (\<lambda>s. snd (patch_group l managed now who gid name sel s))"
proof (rule keeps_informedI)
  fix s :: fx_app assume ok: "app_ok (fx_db s)"
  define x where "x = map_option (stored_selector l) (Option.bind sel (selector_from_json (op_codec l)))"
  show "fx_informs app_ok G c s (snd (patch_group l managed now who gid name sel s))"
  proof (cases "group_update (who_tenant who) gid name x (fx_db s)")
    case (Inr y)
    then obtain found d where d: "group_update (who_tenant who) gid name x (fx_db s) = Inr (found, d)" by (cases y) simp
    note kept = updated_group_kept [OF ok d]
    show ?thesis
      using tell_tenant [OF kept(1) _ kept(2,3)] tell_nothing [OF kept(1) _ kept(2)] kept(4) d
      by (cases found) (auto simp: patch_group_def x_def [symmetric])
  qed (simp add: patch_group_def x_def [symmetric])
qed

lemma delete_group_informs: "keeps_informed app_ok G c (\<lambda>s. snd (delete_group l managed now who gid s))"
proof (rule keeps_informedI)
  fix s :: fx_app assume ok: "app_ok (fx_db s)"
  show "fx_informs app_ok G c s (snd (delete_group l managed now who gid s))"
  proof (cases "group_delete (who_tenant who) gid (fx_db s)")
    case (Inr y)
    then obtain found d where d: "group_delete (who_tenant who) gid (fx_db s) = Inr (found, d)" by (cases y) simp
    note kept = deleted_group_kept [OF ok d]
    show ?thesis
      using tell_tenant [OF kept(1) _ kept(2,3)] tell_nothing [OF kept(1) _ kept(2)] kept(4) d
      by (cases found) (auto simp: delete_group_def)
  qed (simp add: delete_group_def)
qed

lemma put_override_done:
  "snd (put_override l nonce now who h patch prio tmpl s) = s \<and> fst (put_override l nonce now who h patch prio tmpl s) \<noteq> 204
   \<or> (\<exists>plain d meta. host_belongs_to (who_tenant who) h (fx_db s) \<and> is_object patch \<and> json_text l patch = Some plain
        \<and> override_upsert now (who_tenant who) h (encrypt_at_rest (at_rest (op_codec l)) nonce (HostOverride (who_tenant who) h) plain)
             (case prio of None \<Rightarrow> DEFAULT_OVERRIDE_PRIORITY | Some p \<Rightarrow> p) (override_template tmpl) (Some (who_user who)) (fx_db s) = Inr d
        \<and> put_override l nonce now who h patch prio tmpl s =
            (204, s\<lparr>fx_db := audited l now who ''host.override.updated'' ''host'' h meta (bump_version_of (who_tenant who) d)\<rparr>))"
proof (cases "json_text l patch")
  case (Some plain)
  then show ?thesis
    by (cases "override_upsert now (who_tenant who) h (encrypt_at_rest (at_rest (op_codec l)) nonce (HostOverride (who_tenant who) h) plain)
        (case prio of None \<Rightarrow> DEFAULT_OVERRIDE_PRIORITY | Some p \<Rightarrow> p) (override_template tmpl) (Some (who_user who)) (fx_db s)")
      (simp_all add: put_override_def Let_def, blast?)
qed (simp add: put_override_def Let_def)

lemma put_override_informs: "keeps_informed app_ok G c (\<lambda>s. snd (put_override l nonce now who h patch prio tmpl s))"
proof (rule keeps_informedI)
  fix s :: fx_app assume ok: "app_ok (fx_db s)"
  from put_override_done [of l nonce now who h patch prio tmpl s]
  show "fx_informs app_ok G c s (snd (put_override l nonce now who h patch prio tmpl s))"
  proof (elim disjE exE conjE)
    fix plain d meta
    assume host: "host_belongs_to (who_tenant who) h (fx_db s)"
      and d: "override_upsert now (who_tenant who) h (encrypt_at_rest (at_rest (op_codec l)) nonce (HostOverride (who_tenant who) h) plain)
             (case prio of None \<Rightarrow> DEFAULT_OVERRIDE_PRIORITY | Some p \<Rightarrow> p) (override_template tmpl) (Some (who_user who)) (fx_db s) = Inr d"
      and run: "put_override l nonce now who h patch prio tmpl s =
            (204, s\<lparr>fx_db := audited l now who ''host.override.updated'' ''host'' h meta (bump_version_of (who_tenant who) d)\<rparr>)"
    note kept = override_kept [OF ok host d]
    have "tenant_exists (who_tenant who) d" using host_tenant_exists [OF ok host] kept(2) by (simp add: tenant_exists_def)
    from tell_tenant [OF kept(1,3,2) this] show ?thesis by (simp add: run)
  qed simp
qed

lemma get_override_informs: "keeps_informed app_ok G c (\<lambda>s. snd (snd (get_override l now who h s)))"
proof (rule keeps_informedI)
  fix s :: fx_app assume ok: "app_ok (fx_db s)"
  show "fx_informs app_ok G c s (snd (snd (get_override l now who h s)))"
    using ok audited_informs [OF informs_refl]
    by (auto simp: get_override_def fx_informs_def split: sum.split option.split)
qed

lemma delete_override_informs: "keeps_informed app_ok G c (\<lambda>s. snd (delete_override l now who h s))"
proof (rule keeps_informedI)
  fix s :: fx_app assume ok: "app_ok (fx_db s)"
  obtain gone d where d: "override_delete (who_tenant who) h (fx_db s) = (gone, d)" by fastforce
  note kept = deleted_override_kept [OF ok d]
  show "fx_informs app_ok G c s (snd (delete_override l now who h s))"
  proof (cases "host_belongs_to (who_tenant who) h (fx_db s)")
    case True
    have "tenant_exists (who_tenant who) d" using host_tenant_exists [OF ok True] kept(2) by (simp add: tenant_exists_def)
    then show ?thesis
      using tell_tenant [OF kept(1) _ kept(2)] tell_nothing [OF kept(1) _ kept(2)] kept(3) d
      by (cases gone) (auto simp: delete_override_def)
  qed (simp add: delete_override_def)
qed

lemma cfg_informs: "keeps_informed app_ok G c (cfg_run l managed r)"
  using put_tag_informs delete_tag_informs create_group_informs patch_group_informs delete_group_informs
    put_override_informs get_override_informs delete_override_informs
  unfolding ai.keeps_informed_iff by (cases r) simp_all

section \<open>An override is served\<close>

lemma decrypts_own: "aead_laws c A \<Longrightarrow> length nonce = 12 \<Longrightarrow> decrypt_at_rest c p (encrypt_at_rest c nonce p m) = Inr m"
  by (auto simp: decrypt_at_rest_def encrypt_at_rest_def open_at_rest_def aead_laws_def)

lemma override_get_logged:
  "override_get t h (audited l now who action ttype tid metadata (bump_version_of u d)) = override_get t h d"
proof -
  obtain rows where "audited l now who action ttype tid metadata (bump_version_of u d) = (bump_version_of u d)\<lparr>audit_log := rows\<rparr>"
    using audited_fields by blast
  then show ?thesis by (simp add: override_get_def bump_version_of_result)
qed

text \<open>
  C16: an override is served: once the console has answered that an override is in place, the
  host's next poll is answered the state of which it is the configuration, and an operator
  reads back the patch, the priority and the template that were given.
\<close>

theorem override_served:
  assumes world: "reachable_world (op_codec l) w" "w_pending w = {}" "app_ok (w_db w)" "fx_db s = w_db w" "fx_cache s = w_cache w"
    and laws: "aead_laws (at_rest (op_codec l)) A" "length nonce = 12"
    and serde: "\<forall>x. json_text l patch = Some x \<longrightarrow> parse_json (op_codec l) x = Some patch \<and> utf8_ok (op_codec l) x"
    and put: "put_override l nonce now who h patch prio tmpl s = (204, s')"
  shows "(\<exists>ds. fst (compute_desired_state (op_codec l) now' (who_tenant who) h (fx_db s') (fx_cache s')) = Inr ds
      \<and> merged_config ds = patch)
    \<and> load_override l (who_tenant who) h (fx_db s') =
        Inr (Some \<lparr>ov_patch = patch, ov_priority = (case prio of None \<Rightarrow> DEFAULT_OVERRIDE_PRIORITY | Some p \<Rightarrow> p),
          ov_template = override_template tmpl\<rparr>)"
proof -
  let ?t = "who_tenant who" and ?c = "op_codec l"
  have informed: "informs {} ?c (w_db w) (w_cache w) (fx_db s') (fx_cache s')" and ok': "app_ok (fx_db s')"
    using put_override_informs [of "{}" ?c l nonce now who h patch prio tmpl] world(3-5) put
    by (simp_all add: keeps_informed_def fx_informs_def) (metis snd_conv)+
  obtain plain d meta where host: "host_belongs_to ?t h (fx_db s)" and obj: "is_object patch" and plain: "json_text l patch = Some plain"
    and d: "override_upsert now ?t h (encrypt_at_rest (at_rest ?c) nonce (HostOverride ?t h) plain)
        (case prio of None \<Rightarrow> DEFAULT_OVERRIDE_PRIORITY | Some p \<Rightarrow> p) (override_template tmpl) (Some (who_user who)) (fx_db s) = Inr d"
    and s': "s' = s\<lparr>fx_db := audited l now who ''host.override.updated'' ''host'' h meta (bump_version_of ?t d)\<rparr>"
    using put_override_done [of l nonce now who h patch prio tmpl s] put by auto
  have ok: "app_ok (fx_db s)" using world(3,4) by simp
  note kept = override_kept [OF ok host d]
  have get: "override_get ?t h (fx_db s') = Some \<lparr>so_host_id = h,
      so_patch_encrypted = encrypt_at_rest (at_rest ?c) nonce (HostOverride ?t h) plain,
      so_priority = (case prio of None \<Rightarrow> DEFAULT_OVERRIDE_PRIORITY | Some p \<Rightarrow> p), so_template = override_template tmpl\<rparr>"
    by (simp add: s' override_get_logged kept(4))
  have reads: "parse_json ?c plain = Some patch" "utf8_ok ?c plain" using serde plain by simp_all
  obtain ds where ds: "compute_uncached ?c ?t h (fx_db s') = Inr ds" "merged_config ds = patch"
    by (simp add: compute_uncached_def compute_from_def override_value_def get decrypts_own [OF laws] reads Let_def merged_from_def obj)
  have "tenant_exists ?t (bump_version_of ?t d)"
    using host_tenant_exists [OF ok host] unfolding tenant_exists_bumped by (simp add: tenant_exists_def kept(2))
  then obtain v where "version_of ?t (fx_db s') = Some v"
    using version_of_exists by (auto simp: s')
  with informs_poll [OF world(1) refl refl world(2) informed, of ?t h now'] ds
  show ?thesis by (simp add: load_override_def get decrypts_own [OF laws] reads)
qed

definition cfg_sample_lib :: op_lib where
  "cfg_sample_lib = \<lparr>op_codec = sample_codec, selector_text = (\<lambda>_. Some ''{}''), json_text = (\<lambda>_. Some ''{}'')\<rparr>"

definition cfg_sample_user :: authed_user where
  "cfg_sample_user = \<lparr>via = ViaSession, who_user = 1, who_tenant = 1, who_role = Owner, who_platform_admin = False\<rparr>"

lemma cfg_sample_ok: "app_ok sample_hosts"
  using sample_facts_ok
  by (simp add: app_ok_def owned_defs tags_ok_def sample_hosts_def empty_db_def new_host_row_def tenant_exists_def)

definition cfg_sample_db :: db where
  "cfg_sample_db = sample_hosts\<lparr>users := [\<lparr>u_id = 1, u_tenant = 1, u_email = ''a@b.c'', u_role = ''owner'', u_created_at = 0,
     u_is_platform_admin = 0, u_blocked_at = None\<rparr>]\<rparr>"

lemma cfg_sample_db_ok: "app_ok cfg_sample_db"
proof (rule app_ok_owners [OF cfg_sample_ok])
  show "facts_ok cfg_sample_db"
    by (rule facts_ok_cong [OF sample_facts_ok]) (simp_all add: cfg_sample_db_def)
qed (simp add: owners_def cfg_sample_db_def)

theorem override_served_witness:
  "\<exists>s'. put_override cfg_sample_lib ''abcdefghijkl'' 5 cfg_sample_user ''h'' (JObj []) None None (fx_sample cfg_sample_db) = (204, s')
    \<and> (\<exists>ds. fst (compute_desired_state sample_codec 6 1 ''h'' (fx_db s') (fx_cache s')) = Inr ds \<and> merged_config ds = JObj [])
    \<and> load_override cfg_sample_lib 1 ''h'' (fx_db s') =
        Inr (Some \<lparr>ov_patch = JObj [], ov_priority = DEFAULT_OVERRIDE_PRIORITY, ov_template = None\<rparr>)"
proof -
  let ?s = "fx_sample cfg_sample_db"
  have who: "can_write_config (who_role cfg_sample_user)" "who_tenant cfg_sample_user = 1" "op_codec cfg_sample_lib = sample_codec"
    "who_user cfg_sample_user = 1" "json_text cfg_sample_lib = (\<lambda>_. Some ''{}'')"
    by (simp_all add: cfg_sample_user_def cfg_sample_lib_def can_write_config_def)
  have db: "host_belongs_to 1 ''h'' (fx_db ?s)" "tenant_exists 1 (fx_db ?s)" "host_id_exists ''h'' (fx_db ?s)"
    "\<exists>r \<in> set (users (fx_db ?s)). u_id r = 1"
    by (simp_all add: host_belongs fx_sample_def cfg_sample_db_def sample_hosts_def empty_db_def new_host_row_def is_host_def
        tenant_exists_def host_id_exists_def)
  obtain s' where put: "put_override cfg_sample_lib ''abcdefghijkl'' 5 cfg_sample_user ''h'' (JObj []) None None ?s = (204, s')"
    using db by (simp add: put_override_def who override_template_def override_upsert_def Let_def)
  have start: "reachable_world (op_codec cfg_sample_lib) (started cfg_sample_db)" "w_pending (started cfg_sample_db) = {}"
    "app_ok (w_db (started cfg_sample_db))" "fx_db ?s = w_db (started cfg_sample_db)" "fx_cache ?s = w_cache (started cfg_sample_db)"
    using reachable_world.start by (simp_all add: started_def fx_sample_def cfg_sample_db_ok)
  have laws: "aead_laws (at_rest (op_codec cfg_sample_lib)) {[], []}" "length ''abcdefghijkl'' = 12"
    by (simp_all only: who sample_codec_def codec.select_convs marking_cipher_laws) simp
  have serde: "\<forall>x. json_text cfg_sample_lib (JObj []) = Some x \<longrightarrow>
      parse_json (op_codec cfg_sample_lib) x = Some (JObj []) \<and> utf8_ok (op_codec cfg_sample_lib) x"
    by (simp add: who sample_codec_def)
  from override_served [OF start laws serde put, of 6] put show ?thesis
    by (auto simp: who override_template_def)
qed

end
