(* ===== verification/Preview.thy ===== *)
theory Preview
  imports Config_Api
begin

text \<open>
  What the preview of a selector lists, against what the group created with it holds: the
  grouping of the stored documents by host (\<open>fold_host_facts\<close>), and the per-host reading of
  \<open>desired_state.rs\<close>, see the same documents.
\<close>

section \<open>The preview is the membership\<close>

definition documents :: "codec \<Rightarrow> (str \<times> str) list \<Rightarrow> host_facts \<Rightarrow> host_facts" where
  "documents c xs m = fold (\<lambda>(source, json) m. case parse_json c json of None \<Rightarrow> m | Some doc \<Rightarrow> m(source \<mapsto> doc)) xs m"

lemma documents_simps [simp]:
  "documents c [] m = m"
  "documents c ((source, json) # xs) m = documents c xs (case parse_json c json of None \<Rightarrow> m | Some doc \<Rightarrow> m(source \<mapsto> doc))"
  by (simp_all add: documents_def)

lemma documents_lookup:
  "distinct (map fst xs) \<Longrightarrow> documents c xs m s =
     (case map_of xs s of None \<Rightarrow> m s
      | Some json \<Rightarrow> (case parse_json c json of None \<Rightarrow> m s | Some doc \<Rightarrow> Some doc))"
proof (induction xs arbitrary: m)
  case (Cons x xs)
  obtain source json where x: "x = (source, json)" by (cases x)
  have "map_of xs source = None" using Cons.prems by (auto simp: x map_of_eq_None_iff)
  then show ?case using Cons.IH [of "case parse_json c json of None \<Rightarrow> m | Some doc \<Rightarrow> m(source \<mapsto> doc)"] Cons.prems
    by (auto simp: x split: option.split)
qed simp

definition rows_of :: "str \<Rightarrow> (str \<times> str \<times> str) list \<Rightarrow> (str \<times> str) list" where
  "rows_of h rows = map snd (filter (\<lambda>r. fst r = h) rows)"

lemma rows_of_simps [simp]:
  "rows_of h [] = []" "rows_of h ((g, x) # rows) = (if g = h then x # rows_of h rows else rows_of h rows)"
  by (simp_all add: rows_of_def)

lemma rows_of_none: "h \<notin> fst ` set rows \<Longrightarrow> rows_of h rows = []"
  by (auto simp: rows_of_def filter_empty_conv)

lemma gather_current:
  assumes "sorted (map fst rows)" "\<forall>h \<in> fst ` set rows. g \<le> h"
  shows "set (gather c rows (Some (g, fs))) =
      insert (g, documents c (rows_of g rows) fs)
        ((\<lambda>h. (h, documents c (rows_of h rows) Map.empty)) ` (fst ` set rows - {g}))
    \<and> distinct (map fst (gather c rows (Some (g, fs))))"
  using assms
proof (induction rows arbitrary: g fs)
  case (Cons x rows)
  obtain h source json where x: "x = (h, source, json)" by (cases x)
  define fs' where "fs' = (\<lambda>facts :: host_facts. case parse_json c json of None \<Rightarrow> facts | Some doc \<Rightarrow> facts(source \<mapsto> doc))"
  have sorted: "sorted (map fst rows)" "\<forall>x \<in> fst ` set rows. h \<le> x" and le: "g \<le> h"
    using Cons.prems by (auto simp: x)
  show ?case
  proof (cases "g = h")
    case True
    have "set (gather c rows (Some (g, fs' fs))) =
        insert (g, documents c (rows_of g rows) (fs' fs)) ((\<lambda>h. (h, documents c (rows_of h rows) Map.empty)) ` (fst ` set rows - {g}))
      \<and> distinct (map fst (gather c rows (Some (g, fs' fs))))"
      by (rule Cons.IH) (use True sorted in \<open>simp_all add: fs'_def\<close>)
    moreover have "gather c ((h, source, json) # rows) (Some (g, fs)) = gather c rows (Some (g, fs' fs))"
      using True by (simp add: fs'_def)
    ultimately show ?thesis using True by (auto simp: x fs'_def)
  next
    case False
    have IH: "set (gather c rows (Some (h, fs' Map.empty))) =
        insert (h, documents c (rows_of h rows) (fs' Map.empty)) ((\<lambda>h. (h, documents c (rows_of h rows) Map.empty)) ` (fst ` set rows - {h}))
      \<and> distinct (map fst (gather c rows (Some (h, fs' Map.empty))))"
      by (rule Cons.IH) (use False sorted in \<open>simp_all add: fs'_def\<close>)
    have step: "gather c ((h, source, json) # rows) (Some (g, fs)) = (g, fs) # gather c rows (Some (h, fs' Map.empty))"
      using False by (simp add: fs'_def)
    have g: "g \<notin> fst ` set ((h, source, json) # rows)" using False sorted le by auto
    then have gr: "g \<noteq> h" "g \<notin> fst ` set rows" by simp_all
    define K where "K = fst ` set rows - {h}"
    have keys: "fst ` set (x # rows) - {g} = insert h K"
    proof -
      have "fst ` set (x # rows) = insert h (fst ` set rows)" by (simp add: x)
      with gr show ?thesis unfolding K_def by blast
    qed
    have "rows_of g (x # rows) = []" using g by (intro rows_of_none) (simp add: x)
    moreover have "documents c (rows_of h (x # rows)) Map.empty = documents c (rows_of h rows) (fs' Map.empty)"
      by (simp add: x fs'_def)
    moreover have "(\<lambda>j. (j, documents c (rows_of j (x # rows)) Map.empty)) ` K
        = (\<lambda>j. (j, documents c (rows_of j rows) Map.empty)) ` K"
      by (rule image_cong) (auto simp: x K_def)
    moreover have "g \<notin> fst ` set (gather c rows (Some (h, fs' Map.empty)))"
    proof -
      have "fst ` set (gather c rows (Some (h, fs' Map.empty))) = insert h K"
        using IH by (simp add: image_image K_def [symmetric])
      with gr show ?thesis unfolding K_def by blast
    qed
    ultimately show ?thesis using IH step unfolding keys K_def [symmetric] by (simp add: x)
  qed
qed simp

text \<open>The rows handed over: every host that holds one of the documents, once, with those that parse.\<close>

lemma sorted_rows:
  "set (order_asc f_host (order_asc f_source xs)) = set xs"
  "sorted (map f_host (order_asc f_host (order_asc f_source xs)))"
  "distinct (map g (order_asc f_host (order_asc f_source xs))) = distinct (map g xs)"
  by (simp_all add: order_asc_def distinct_map)

lemma gathered:
  fixes t :: int and d :: db and sources :: "str set"
  assumes ok: "facts_ok d" and fin: "finite sources" and ne: "sources \<noteq> {}"
  defines "rows \<equiv> for_each_host_document t (sorted_list_of_set sources) d"
  defines "held_doc \<equiv> (\<lambda>h s. map_option sf_json (facts_get t h s d))"
  shows "set (gather c rows None) = (\<lambda>h. (h, load_for_host c sources (held_doc h))) ` {h. \<exists>s \<in> sources. held_doc h s \<noteq> None}"
    and "distinct (map fst (gather c rows None))"
proof -
  define xs where "xs = filter (\<lambda>r. f_tenant r = t \<and> f_source r \<in> sources) (host_facts d)"
  define ys where "ys = order_asc f_host (order_asc f_source xs)"
  have rows: "rows = map (\<lambda>r. (f_host r, f_source r, f_json r)) ys"
    using fin ne unfolding rows_def for_each_host_document_def ys_def xs_def by (simp add: sorted_list_of_set_eq_Nil_iff)
  have ys: "set ys = set xs" "sorted (map f_host ys)" "distinct (map facts_pk ys)"
    using ok by (auto simp: ys_def sorted_rows xs_def facts_ok_def distinct_map_filter)
  have keys: "distinct (map fst (rows_of h rows))" for h
  proof -
    have "map fst (rows_of h rows) = map f_source (filter (\<lambda>r. f_host r = h) ys)"
      by (simp add: rows_of_def rows filter_map comp_def)
    moreover have "distinct (map facts_pk (filter (\<lambda>r. f_host r = h) ys))" using ys(3) by (rule distinct_map_filter)
    then have "distinct (map f_source (filter (\<lambda>r. f_host r = h) ys))"
      by (auto simp: distinct_map inj_on_def facts_pk_def)
    ultimately show ?thesis by simp
  qed
  have val: "map_of (rows_of h rows) s = (if s \<in> sources then held_doc h s else None)" for h s
  proof (cases "\<exists>r \<in> set (host_facts d). is_facts t h s r \<and> s \<in> sources")
    case True
    then obtain r where r: "r \<in> set (host_facts d)" "is_facts t h s r" "s \<in> sources" by blast
    have "find (is_facts t h s) (host_facts d) = Some r"
      by (rule find_unique [where g = facts_pk])
        (use ok r in \<open>auto simp: facts_ok_def facts_pk_def is_facts_def\<close>)
    then have "held_doc h s = Some (f_json r)"
      by (simp add: held_doc_def facts_get_def fetch_optional_def to_stored_def)
    moreover have "(s, f_json r) \<in> set (rows_of h rows)"
      using r ys(1) by (auto simp: rows_of_def rows xs_def is_facts_def image_iff)
    ultimately show ?thesis using r(3) keys by (simp add: map_of_is_SomeI)
  next
    case False
    then have "s \<notin> fst ` set (rows_of h rows)"
      using ys(1) by (auto simp: rows_of_def rows xs_def is_facts_def)
    moreover have "held_doc h s = None" if "s \<in> sources"
      using False that by (auto simp: held_doc_def facts_get_def fetch_optional_def find_None_iff)
    ultimately show ?thesis by (simp add: map_of_eq_None_iff)
  qed
  have docs: "documents c (rows_of h rows) Map.empty = load_for_host c sources (held_doc h)" for h
    by (rule ext) (simp add: documents_lookup [OF keys] val load_for_host_def split: option.split)
  have hosts: "fst ` set rows = {h. \<exists>s \<in> sources. held_doc h s \<noteq> None}"
  proof -
    have "h \<in> fst ` set rows \<longleftrightarrow> rows_of h rows \<noteq> []" for h
      by (auto simp: rows_of_def filter_empty_conv)
    also have "\<dots> h \<longleftrightarrow> (\<exists>s. map_of (rows_of h rows) s \<noteq> None)" for h
      by (cases "rows_of h rows") (auto simp: map_of_eq_None_iff simp del: not_None_eq)
    finally have "h \<in> fst ` set rows \<longleftrightarrow> (\<exists>s \<in> sources. held_doc h s \<noteq> None)" for h
      by (auto simp: val split: if_splits)
    then show ?thesis by blast
  qed
  have "set (gather c rows None) = (\<lambda>h. (h, documents c (rows_of h rows) Map.empty)) ` (fst ` set rows)
      \<and> distinct (map fst (gather c rows None))"
  proof (cases rows)
    case (Cons x rest)
    obtain h source json where x: "x = (h, source, json)" by (cases x)
    have le: "\<forall>j \<in> fst ` set rows. h \<le> j" and sorted: "sorted (map fst rows)"
    proof -
      have "map fst rows = map f_host ys" by (simp add: rows)
      then show "sorted (map fst rows)" using ys(2) by simp
      then show "\<forall>j \<in> fst ` set rows. h \<le> j" by (auto simp: Cons x)
    qed
    have "gather c rows None = gather c rows (Some (h, Map.empty))" by (simp add: Cons x)
    moreover have "insert (h, documents c (rows_of h rows) Map.empty)
        ((\<lambda>x. (x, documents c (rows_of x rows) Map.empty)) ` (fst ` set rows - {h}))
      = (\<lambda>x. (x, documents c (rows_of x rows) Map.empty)) ` (fst ` set rows)"
      by (auto simp: Cons x)
    ultimately show ?thesis using gather_current [OF sorted le, of c Map.empty] by simp
  qed simp
  then show "set (gather c rows None) = (\<lambda>h. (h, load_for_host c sources (held_doc h))) ` {h. \<exists>s \<in> sources. held_doc h s \<noteq> None}"
    and "distinct (map fst (gather c rows None))"
    by (simp_all only: docs hosts)
qed

lemma maps_for_tenant_host: "tags_or_none (maps_for_tenant t d) h = map_for_host t h d"
proof -
  define step where "step = (\<lambda>r (m :: str \<rightharpoonup> host_tags). let tags = (case m (tg_host r) of None \<Rightarrow> Map.empty | Some h \<Rightarrow> h);
      vs = (case tags (tg_key r) of None \<Rightarrow> [] | Some vs \<Rightarrow> vs) in m(tg_host r \<mapsto> tags(tg_key r \<mapsto> vs @ [to_tag_value r])))"
  have "tags_or_none (fold step rows Map.empty) h =
      fold (\<lambda>r m. m(tg_key r \<mapsto> (case m (tg_key r) of None \<Rightarrow> [] | Some vs \<Rightarrow> vs) @ [to_tag_value r]))
        (filter (\<lambda>r. tg_host r = h) rows) Map.empty" for rows
  proof (induction rows rule: rev_induct)
    case Nil
    show ?case by (simp add: tags_or_none_def)
  next
    case (snoc r rows)
    then show ?case by (auto simp: step_def Let_def tags_or_none_def)
  qed
  from this [of "filter (\<lambda>r. tg_tenant r = t) (host_tags d)"] show ?thesis
    by (simp only: maps_for_tenant_def step_def map_for_host_def filter_filter)
qed

lemma matches_cong: "(\<And>s. s \<in> fact_sources sel \<Longrightarrow> facts s = facts' s) \<Longrightarrow> matches sel tags facts = matches sel tags facts'"
proof -
  assume a: "\<And>s. s \<in> fact_sources sel \<Longrightarrow> facts s = facts' s"
  have "eval c tags facts = eval c tags facts'" if "c \<in> set (clauses sel)" for c
    using a that by (intro eval_fact_sources) (auto simp: fact_sources_def)
  then show ?thesis by (simp add: matches_def)
qed

lemma finite_fact_sources: "finite (fact_sources sel)"
proof -
  have "finite (expr_fact_sources e)" for e by (induction e) auto
  then show ?thesis by (simp add: fact_sources_def)
qed

lemma fold_marks:
  "fold (\<lambda>(h, facts) (seen, hit). (insert h seen, if P h facts then insert h hit else hit)) xs (A, B) =
     (A \<union> fst ` set xs, B \<union> {h. \<exists>facts. (h, facts) \<in> set xs \<and> P h facts})"
  by (induction xs arbitrary: A B) auto

definition host_documents :: "codec \<Rightarrow> int \<Rightarrow> str \<Rightarrow> str set \<Rightarrow> db \<Rightarrow> host_facts" where
  "host_documents c t h sources d = load_for_host c sources (\<lambda>s. map_option sf_json (facts_get t h s d))"

lemma preview_hosts:
  assumes ok: "facts_ok (fx_db s)" and sel: "selector_from_json (op_codec l) v = Some sel"
  shows "preview_selector l who v s = (200, map (\<lambda>h. (hid h, hostname h))
    (filter (\<lambda>h. matches sel (map_for_host (who_tenant who) (hid h) (fx_db s))
        (host_documents (op_codec l) (who_tenant who) (hid h) (fact_sources sel) (fx_db s)))
      (host_list (who_tenant who) (fx_db s))))"
proof -
  let ?c = "op_codec l" and ?t = "who_tenant who" and ?d = "fx_db s" and ?S = "fact_sources sel"
  define held_doc where "held_doc = (\<lambda>h s. map_option sf_json (facts_get ?t h s ?d))"
  define W where "W = {h. \<exists>s \<in> ?S. held_doc h s \<noteq> None}"
  define M where "M = {h \<in> W. matches sel (map_for_host ?t h ?d) (host_documents ?c ?t h ?S ?d)}"
  have none: "host_documents ?c ?t h ?S ?d = Map.empty" if "h \<notin> W" for h
    using that by (auto simp: host_documents_def load_for_host_def W_def held_doc_def intro!: ext)
  have "fold_host_facts ?c ?t ?S (\<lambda>(h, facts) (seen, hit). (insert h seen,
      if matches sel (tags_or_none (maps_for_tenant ?t ?d) h) facts then insert h hit else hit)) ({}, {}) ?d = (W, M)"
  proof (cases "?S = {}")
    case True
    then show ?thesis by (simp add: fold_host_facts_def W_def M_def)
  next
    case False
    have g: "set (gather ?c (for_each_host_document ?t (sorted_list_of_set ?S) ?d) None) =
        (\<lambda>h. (h, host_documents ?c ?t h ?S ?d)) ` W"
      using gathered(1) [OF ok finite_fact_sources False, of ?c ?t] by (simp add: W_def held_doc_def host_documents_def)
    from False show ?thesis
      by (simp only: fold_host_facts_def if_False fold_marks g maps_for_tenant_host) (auto simp: M_def image_image)
  qed
  moreover have "((h \<in> W \<longrightarrow> h \<in> M) \<and> (h \<notin> W \<longrightarrow> matches sel (map_for_host ?t h ?d) (\<lambda>x. None))) =
      matches sel (map_for_host ?t h ?d) (host_documents ?c ?t h ?S ?d)" for h
    using none [of h] by (auto simp: M_def)
  ultimately show ?thesis
    by (simp add: preview_selector_def sel Let_def maps_for_tenant_host)
qed

text \<open>The group just created is among those a host is in exactly where its selector matches.\<close>

lemma in_matching_groups:
  assumes "distinct (map g_id gs)" "g \<in> set gs"
    and "Option.bind (parse_json c (g_selector_json g)) (selector_from_json c) = Some sel"
  shows "g_id g \<in> set (matching_group_ids c tags stored_doc gs) \<longleftrightarrow> matches sel tags (load_for_host c (fact_sources sel) stored_doc)"
proof -
  define sources where "sources = (\<Union>(i, s) \<in> set (group_selectors c gs). fact_sources s)"
  have mem: "(g_id g, sel') \<in> set (group_selectors c gs) \<longleftrightarrow> sel' = sel" for sel'
  proof
    assume "(g_id g, sel') \<in> set (group_selectors c gs)"
    then obtain g' where g': "g' \<in> set gs" "g_id g' = g_id g" "Option.bind (parse_json c (g_selector_json g')) (selector_from_json c) = Some sel'"
      by (auto simp: group_selectors_def List.map_filter_def)
    then have "g' = g" using assms(1,2) by (auto simp: distinct_map dest: inj_onD)
    with g' assms(3) show "sel' = sel" by simp
  next
    assume "sel' = sel"
    then show "(g_id g, sel') \<in> set (group_selectors c gs)"
      using assms(2,3) by (auto simp: group_selectors_def List.map_filter_def image_iff intro!: bexI [of _ g])
  qed
  then have sub: "fact_sources sel \<subseteq> sources" unfolding sources_def by blast
  have "matches sel tags (load_for_host c sources stored_doc) = matches sel tags (load_for_host c (fact_sources sel) stored_doc)"
    by (rule matches_cong) (use sub in \<open>auto simp: load_for_host_def\<close>)
  moreover have "g_id g \<in> set (matching_group_ids c tags stored_doc gs) \<longleftrightarrow>
      (\<exists>s. (g_id g, s) \<in> set (group_selectors c gs) \<and> matches s tags (load_for_host c sources stored_doc))"
    by (auto simp: matching_group_ids_def Let_def sources_def image_iff)
  ultimately show ?thesis by (simp add: mem)
qed

text \<open>
  C15: the preview is the membership: the hosts a preview lists for a selector are those the
  group created with it has, which are those whose desired state counts it: with
  \<open>serde_json\<close> reading back the selectors it wrote.
\<close>

theorem preview_is_membership:
  assumes ok: "app_ok (fx_db s)"
    and serde: "\<forall>sel. selector_from_json (op_codec l) v = Some sel \<longrightarrow>
      Option.bind (parse_json (op_codec l) (stored_selector l sel)) (parse_selector (op_codec l)) = Some sel"
    and made: "create_group l managed gid now who name v s = (201, view, s')"
    and host: "h \<in> set (host_list (who_tenant who) (fx_db s))"
  shows "fst (preview_selector l who v s) = 200
    \<and> ((hid h, hostname h) \<in> set (snd (preview_selector l who v s)) \<longleftrightarrow>
        gid \<in> set (matching_group_ids (op_codec l) (map_for_host (who_tenant who) (hid h) (fx_db s'))
          (\<lambda>source. map_option sf_json (facts_get (who_tenant who) (hid h) source (fx_db s'))) (group_list (who_tenant who) (fx_db s'))))"
proof -
  let ?t = "who_tenant who"
  obtain sel g d where sel: "selector_from_json (op_codec l) v = Some sel"
    and d: "group_create gid now ?t name (stored_selector l sel) (fx_db s) = Inr (g, d)"
    and s': "fx_db s' = audited l now who ''group.created'' ''group'' (g_id g)
      (Some (JObj [(''name'', JStr (g_name g))])) (bump_version_of ?t d)"
    using made by (auto simp: create_group_def split: if_splits option.splits sum.splits)
  note kept = created_group_kept [OF ok d]
  obtain log where log: "fx_db s' = (bump_version_of ?t d)\<lparr>audit_log := log\<rparr>" unfolding s' using audited_fields by blast
  obtain rows where rows: "d = (fx_db s)\<lparr>groups := rows\<rparr>" using kept(9) by blast
  have same: "host_tags (fx_db s') = host_tags (fx_db s)" "host_facts (fx_db s') = host_facts (fx_db s)"
    "groups (fx_db s') = groups (fx_db s) @ [g]"
    using kept(5) by (simp_all add: log bump_version_of_result) (simp_all add: rows)
  have held: "facts_get ?t j source (fx_db s') = facts_get ?t j source (fx_db s)"
    "map_for_host ?t j (fx_db s') = map_for_host ?t j (fx_db s)" for j source
    by (simp_all add: facts_get_def map_for_host_def same)
  have g: "g \<in> set (group_list ?t (fx_db s'))" "distinct (map g_id (group_list ?t (fx_db s')))"
    using kept(6,8,10) ok
    by (auto simp: group_list_def order_asc_def same app_ok_def groups_owned_def distinct_map intro: inj_on_subset)
  have "Option.bind (parse_json (op_codec l) (g_selector_json g)) (selector_from_json (op_codec l)) = Some sel"
    using serde sel unfolding kept(7) by (auto simp: selector_from_json_def split: bind_splits option.splits sum.splits)
  note counted = in_matching_groups [OF g(2,1) this, unfolded kept(6)]
  have "(hid h, hostname h) \<in> (\<lambda>h. (hid h, hostname h)) ` {h \<in> set (host_list ?t (fx_db s)). P (hid h)} \<longleftrightarrow> P (hid h)" for P
    using host by auto
  then show ?thesis
    using ok by (simp add: preview_hosts [OF _ sel] app_ok_def counted held host_documents_def)
qed

theorem preview_is_membership_witness:
  "\<exists>view (s' :: fx_app). create_group cfg_sample_lib None ''g'' 0 cfg_sample_user ''web'' (JObj []) (fx_sample sample_hosts) = (201, view, s')
    \<and> fst (preview_selector cfg_sample_lib cfg_sample_user (JObj []) (fx_sample sample_hosts)) = 200
    \<and> ((''h'', None) \<in> set (snd (preview_selector cfg_sample_lib cfg_sample_user (JObj []) (fx_sample sample_hosts))) \<longleftrightarrow>
        ''g'' \<in> set (matching_group_ids sample_codec (map_for_host 1 ''h'' (fx_db s'))
          (\<lambda>source. map_option sf_json (facts_get 1 ''h'' source (fx_db s'))) (group_list 1 (fx_db s'))))"
proof -
  have sel: "selector_from_json sample_codec (JObj []) = Some \<lparr>clauses = []\<rparr>"
    by (simp add: selector_from_json_def sample_codec_def validate_def)
  have name: "trim ''web'' = ''web''" by code_simp
  have who: "can_write_config (who_role cfg_sample_user)" "who_tenant cfg_sample_user = 1" "op_codec cfg_sample_lib = sample_codec"
    by (simp_all add: cfg_sample_user_def cfg_sample_lib_def can_write_config_def)
  obtain g d where "group_create ''g'' 0 1 ''web'' (stored_selector cfg_sample_lib \<lparr>clauses = []\<rparr>) (fx_db (fx_sample sample_hosts)) = Inr (g, d)"
    by (auto simp: group_create_def fx_sample_def sample_hosts_def empty_db_def tenant_exists_def Let_def)
  then obtain view s' where made: "create_group cfg_sample_lib None ''g'' 0 cfg_sample_user ''web'' (JObj []) (fx_sample sample_hosts) = (201, view, s')"
    by (simp add: create_group_def who sel name refuse_if_managed_def)
  have ok: "app_ok (fx_db (fx_sample sample_hosts))" by (simp add: fx_sample_def cfg_sample_ok)
  have serde: "\<forall>x. selector_from_json (op_codec cfg_sample_lib) (JObj []) = Some x \<longrightarrow>
      Option.bind (parse_json (op_codec cfg_sample_lib) (stored_selector cfg_sample_lib x)) (parse_selector (op_codec cfg_sample_lib)) = Some x"
    by (simp add: cfg_sample_lib_def sel stored_selector_def) (simp add: sample_codec_def)
  have host: "map_host ((new_host_row ''h'' 1 0)\<lparr>h_nonce_hash := Some ''n'', h_bootstrap_expires_at := Some 100\<rparr>)
      \<in> set (host_list (who_tenant cfg_sample_user) (fx_db (fx_sample sample_hosts)))"
    by (simp add: host_list_def order_desc_def fx_sample_def sample_hosts_def cfg_sample_user_def new_host_row_def)
  show ?thesis
    using preview_is_membership [OF ok serde made host] made
    by (intro exI [of _ view] exI [of _ s']) (simp add: who map_host_def new_host_row_def)
qed

end
