(* ===== verification/Identity.thy ===== *)
theory Identity
  imports Users Tenants_Repo Crypto "HOL-Library.Finite_Map"
begin

text \<open>
  Who an agent is. \<open>crates/enrollment\<close>: the bootstrap token (\<open>jwt.rs\<close>) and the client
  certificate (\<open>sign.rs\<close>); \<open>transport/mtls.rs\<close>: the trust store built from the tenants'
  CAs and the reading of a client certificate. JSON web tokens, X.509, PEM and TLS are parameters
  (\<open>jsonwebtoken\<close>, \<open>rcgen\<close>, \<open>x509_parser\<close>, \<open>rustls\<close>); random bytes and
  the clock are arguments.
\<close>

section \<open>Bootstrap tokens\<close>

record bootstrap_claims =
  bc_host_id :: str
  bc_tenant_id :: int
  bc_nonce :: str
  bc_exp :: int
  bc_iat :: int
  bc_aud :: str

record jwt_lib =
  jwt_encode :: "bytes \<Rightarrow> bootstrap_claims \<Rightarrow> str"
  jwt_decode :: "bytes \<Rightarrow> str list \<Rightarrow> str list \<Rightarrow> int \<Rightarrow> str \<Rightarrow> bootstrap_claims option"

definition AUDIENCE :: str where "AUDIENCE = ''nsclient-fleet/enroll''"

definition encode_bootstrap :: "jwt_lib \<Rightarrow> bytes \<Rightarrow> bootstrap_claims \<Rightarrow> str" where
  "encode_bootstrap j secret claims = jwt_encode j secret (claims\<lparr>bc_aud := AUDIENCE\<rparr>)"

definition decode_bootstrap :: "jwt_lib \<Rightarrow> bytes \<Rightarrow> int \<Rightarrow> str \<Rightarrow> bootstrap_claims option" where
  "decode_bootstrap j secret now token = jwt_decode j secret [''exp'', ''aud''] [AUDIENCE] now token"

text \<open>
  What \<open>jsonwebtoken\<close> documents of HS256 with a required expiry and an audience, of the claims
  in use: a token is read back under its own secret while it has not expired and its
  audience is one of those asked for, and not where its audience is another.
\<close>

definition jwt_laws :: "jwt_lib \<Rightarrow> bootstrap_claims set \<Rightarrow> bool" where
  "jwt_laws j C \<longleftrightarrow> (\<forall>claims \<in> C. \<forall>secret req auds now.
     (bc_aud claims \<in> set auds \<longrightarrow> now < bc_exp claims \<longrightarrow>
        jwt_decode j secret req auds now (jwt_encode j secret claims) = Some claims)
     \<and> (bc_aud claims \<notin> set auds \<longrightarrow> jwt_decode j secret req auds now (jwt_encode j secret claims) = None))"

lemma bootstrap_read_back:
  "jwt_laws j C \<Longrightarrow> claims\<lparr>bc_aud := AUDIENCE\<rparr> \<in> C \<Longrightarrow> now < bc_exp claims \<Longrightarrow>
   decode_bootstrap j secret now (encode_bootstrap j secret claims) = Some (claims\<lparr>bc_aud := AUDIENCE\<rparr>)"
  by (auto simp: jwt_laws_def decode_bootstrap_def encode_bootstrap_def)

lemma other_purpose_refused:
  "jwt_laws j C \<Longrightarrow> claims \<in> C \<Longrightarrow> bc_aud claims \<noteq> AUDIENCE \<Longrightarrow>
   decode_bootstrap j secret now (jwt_encode j secret claims) = None"
  by (auto simp: jwt_laws_def decode_bootstrap_def)

section \<open>Client certificates\<close>

datatype sign_error = BadCsr | CaLoad | Rcgen | SpiffeNotAscii

record issued_cert =
  ic_cert_pem :: str
  ic_serial_hex :: str
  ic_fingerprint_sha256_hex :: str
  ic_not_before_unix :: int
  ic_not_after_unix :: int

text \<open>What is asked of \<open>rcgen\<close>: subject, names, usages, validity and serial.\<close>

record cert_params =
  cp_common_name :: str
  cp_organization :: str
  cp_uris :: "str list"
  cp_client_auth_only :: bool
  cp_is_ca :: bool
  cp_not_before :: int
  cp_not_after :: int
  cp_serial :: bytes

text \<open>What \<open>x509_parser\<close> reads of a certificate: subject and issuer as DER, the URI names, the serial's bytes.\<close>

record x509_cert =
  xc_subject :: bytes
  xc_issuer :: bytes
  xc_uris :: "str list"
  xc_serial :: bytes

record x509_lib =
  csr_public_key :: "str \<Rightarrow> bytes option"
  key_from_pem :: "str \<Rightarrow> bytes option"
  issuer_from_ca :: "str \<Rightarrow> bytes \<Rightarrow> bytes option"
  signed_by :: "cert_params \<Rightarrow> bytes \<Rightarrow> bytes \<Rightarrow> (str \<times> bytes) option"
  x_sha256 :: "bytes \<Rightarrow> bytes"
  x509_from_der :: "bytes \<Rightarrow> x509_cert option"
  pem_certs :: "str \<Rightarrow> bytes list option"
  root_acceptable :: "bytes \<Rightarrow> bool"
  server_config_ok :: "bytes list \<Rightarrow> str \<Rightarrow> str \<Rightarrow> bool"

definition SPIFFE_PREFIX :: str where "SPIFFE_PREFIX = ''spiffe://nsclient-fleet/''"

definition spiffe_uri :: "str \<Rightarrow> str \<Rightarrow> str" where
  "spiffe_uri slug host = SPIFFE_PREFIX @ slug @ ''/'' @ host"

definition is_ascii :: "str \<Rightarrow> bool" where
  "is_ascii s \<longleftrightarrow> list_all (\<lambda>c. (of_char c :: nat) < 128) s"

text \<open>Sixteen random bytes with the first made odd and less than \<open>0x80\<close>.\<close>

definition fix_serial :: "bytes \<Rightarrow> bytes" where
  "fix_serial bs = (case bs of [] \<Rightarrow> [] | b # r \<Rightarrow> char_of (or (and (of_char b) 127) 1 :: nat) # r)"

definition sign_client_cert ::
  "x509_lib \<Rightarrow> int \<Rightarrow> bytes \<Rightarrow> str \<Rightarrow> str \<Rightarrow> str \<Rightarrow> str \<Rightarrow> str \<Rightarrow> int \<Rightarrow> sign_error + issued_cert" where
  "sign_client_cert x now random csr_pem ca_cert_pem ca_key_pem slug host lifetime_days =
     (case csr_public_key x csr_pem of
        None \<Rightarrow> Inl BadCsr
      | Some public_key \<Rightarrow>
          if \<not> is_ascii (spiffe_uri slug host) then Inl SpiffeNotAscii
          else
            let params = \<lparr>cp_common_name = host, cp_organization = ''NSClient Fleet'', cp_uris = [spiffe_uri slug host],
                  cp_client_auth_only = True, cp_is_ca = False, cp_not_before = now - 5 * 60,
                  cp_not_after = now + lifetime_days * 86400, cp_serial = fix_serial random\<rparr>
            in case key_from_pem x ca_key_pem of
                 None \<Rightarrow> Inl CaLoad
               | Some ca_key \<Rightarrow>
                   (case issuer_from_ca x ca_cert_pem ca_key of
                      None \<Rightarrow> Inl CaLoad
                    | Some issuer \<Rightarrow>
                        (case signed_by x params public_key issuer of
                           None \<Rightarrow> Inl Rcgen
                         | Some (pem, der) \<Rightarrow>
                             Inr \<lparr>ic_cert_pem = pem, ic_serial_hex = hex (cp_serial params),
                               ic_fingerprint_sha256_hex = hex (x_sha256 x der),
                               ic_not_before_unix = cp_not_before params, ic_not_after_unix = cp_not_after params\<rparr>)))"

section \<open>The trust store\<close>

record trust =
  roots :: "bytes list"
  tenant_by_issuer_der :: "(bytes, int \<times> str) fmap"

definition trusts_tenant :: "int \<Rightarrow> trust \<Rightarrow> bool" where
  "trusts_tenant t tr \<longleftrightarrow> t |\<in>| fst |`| fmran (tenant_by_issuer_der tr)"

definition parse_all_cert_pem :: "x509_lib \<Rightarrow> str \<Rightarrow> bytes list option" where
  "parse_all_cert_pem x pem = (case pem_certs x pem of None \<Rightarrow> None | Some ds \<Rightarrow> if ds = [] then None else Some ds)"

definition parse_first_cert_pem :: "x509_lib \<Rightarrow> str \<Rightarrow> bytes option" where
  "parse_first_cert_pem x pem = map_option hd (parse_all_cert_pem x pem)"

definition ca_subject_der :: "x509_lib \<Rightarrow> bytes \<Rightarrow> bytes option" where
  "ca_subject_der x der = map_option xc_subject (x509_from_der x der)"

fun add_cas :: "x509_lib \<Rightarrow> ca_summary list \<Rightarrow> trust \<Rightarrow> trust option" where
  "add_cas x [] tr = Some tr"
| "add_cas x (ca # cas) tr =
     (case parse_first_cert_pem x (ca_ca_cert_pem ca) of
        None \<Rightarrow> None
      | Some der \<Rightarrow>
          (case ca_subject_der x der of
             None \<Rightarrow> None
           | Some subject \<Rightarrow>
               if fmlookup (tenant_by_issuer_der tr) subject \<noteq> None
               then add_cas x cas (tr\<lparr>tenant_by_issuer_der := fmdrop subject (tenant_by_issuer_der tr)\<rparr>)
               else if \<not> root_acceptable x der then None
               else add_cas x cas (tr\<lparr>roots := roots tr @ [der],
                      tenant_by_issuer_der := fmupd subject (ca_tenant_id ca, ca_tenant_slug ca) (tenant_by_issuer_der tr)\<rparr>)))"

definition build_state :: "x509_lib \<Rightarrow> str \<Rightarrow> str \<Rightarrow> db \<Rightarrow> trust option" where
  "build_state x server_cert_pem server_key_pem d =
     (let cas = list_all_cas d in
      case add_cas x cas \<lparr>roots = [], tenant_by_issuer_der = fmempty\<rparr> of
        None \<Rightarrow> None
      | Some tr \<Rightarrow>
          (case parse_all_cert_pem x server_cert_pem of
             None \<Rightarrow> None
           | Some certs \<Rightarrow>
               let tr' = (if cas = [] then tr\<lparr>roots := roots tr @ filter (root_acceptable x) certs\<rparr> else tr)
               in if server_config_ok x (roots tr') server_cert_pem server_key_pem then Some tr' else None))"

definition rebuild :: "x509_lib \<Rightarrow> str \<Rightarrow> str \<Rightarrow> db \<Rightarrow> trust \<Rightarrow> bool \<times> trust" where
  "rebuild x cert key d tr = (case build_state x cert key d of None \<Rightarrow> (False, tr) | Some tr' \<Rightarrow> (True, tr'))"

definition ensure_tenant_trusted :: "x509_lib \<Rightarrow> str \<Rightarrow> str \<Rightarrow> int \<Rightarrow> db \<Rightarrow> trust \<Rightarrow> bool \<times> trust" where
  "ensure_tenant_trusted x cert key t d tr =
     (if trusts_tenant t tr then (True, tr)
      else case rebuild x cert key d tr of
          (False, tr') \<Rightarrow> (False, tr')
        | (True, tr') \<Rightarrow> (trusts_tenant t tr', tr'))"

section \<open>Reading a client certificate\<close>

record peer_context =
  peer_tenant :: int
  peer_slug :: str
  peer_host :: str
  peer_serial :: str

datatype leaf_error = LeafParse | IssuerUnknown | NoSpiffe | TenantMismatch

text \<open>\<open>strip_prefix\<close> and \<open>splitn(2, '/')\<close>; of several names that fit, the last.\<close>

definition strip_prefix :: "str \<Rightarrow> str \<Rightarrow> str option" where
  "strip_prefix p s = (if take (length p) s = p then Some (drop (length p) s) else None)"

definition split_slash :: "str \<Rightarrow> (str \<times> str) option" where
  "split_slash s =
     (case dropWhile (\<lambda>c. c \<noteq> CHR ''/'') s of [] \<Rightarrow> None | _ # rest \<Rightarrow> Some (takeWhile (\<lambda>c. c \<noteq> CHR ''/'') s, rest))"

definition spiffe_names :: "str list \<Rightarrow> (str \<times> str) option" where
  "spiffe_names uris =
     fold (\<lambda>uri acc. case strip_prefix SPIFFE_PREFIX uri of
         None \<Rightarrow> acc
       | Some rest \<Rightarrow> (case split_slash rest of None \<Rightarrow> acc | Some x \<Rightarrow> Some x)) uris None"

definition parse_leaf :: "x509_lib \<Rightarrow> bytes \<Rightarrow> (bytes, int \<times> str) fmap \<Rightarrow> leaf_error + peer_context" where
  "parse_leaf x der tenants_by_issuer =
     (case x509_from_der x der of
        None \<Rightarrow> Inl LeafParse
      | Some cert \<Rightarrow>
          (case fmlookup tenants_by_issuer (xc_issuer cert) of
             None \<Rightarrow> Inl IssuerUnknown
           | Some (t, slug) \<Rightarrow>
               (case spiffe_names (xc_uris cert) of
                  None \<Rightarrow> Inl NoSpiffe
                | Some (san_slug, host) \<Rightarrow>
                    if san_slug \<noteq> slug then Inl TenantMismatch
                    else Inr \<lparr>peer_tenant = t, peer_slug = slug, peer_host = host, peer_serial = hex (xc_serial cert)\<rparr>)))"

section \<open>Which tenants are trusted\<close>

definition ca_subject :: "x509_lib \<Rightarrow> ca_summary \<Rightarrow> bytes option" where
  "ca_subject x ca = Option.bind (parse_first_cert_pem x (ca_ca_cert_pem ca)) (ca_subject_der x)"

lemma add_cas_append: "add_cas x (cas @ cas') tr = Option.bind (add_cas x cas tr) (add_cas x cas')"
  by (induction x cas tr rule: add_cas.induct) (auto split: option.split)

text \<open>The subjects of the CAs, in the order of the query: a second one cancels the first, a third is taken again.\<close>

lemma add_cas_lookup:
  assumes "add_cas x cas \<lparr>roots = [], tenant_by_issuer_der = fmempty\<rparr> = Some tr"
  shows "fmlookup (tenant_by_issuer_der tr) subject =
    (let same = filter (\<lambda>ca. ca_subject x ca = Some subject) cas
     in if odd (length same) then Some (ca_tenant_id (last same), ca_tenant_slug (last same)) else None)"
  using assms
proof (induction cas arbitrary: tr rule: rev_induct)
  case (snoc ca cas)
  then obtain tr0 where tr0: "add_cas x cas \<lparr>roots = [], tenant_by_issuer_der = fmempty\<rparr> = Some tr0"
    and step: "add_cas x [ca] tr0 = Some tr"
    by (auto simp: add_cas_append bind_eq_Some_conv simp del: add_cas.simps)
  obtain s where s: "ca_subject x ca = Some s"
    using step by (auto simp: ca_subject_def split: option.splits)
  then have "tenant_by_issuer_der tr = (if fmlookup (tenant_by_issuer_der tr0) s \<noteq> None
      then fmdrop s (tenant_by_issuer_der tr0) else fmupd s (ca_tenant_id ca, ca_tenant_slug ca) (tenant_by_issuer_der tr0))"
    using step by (auto simp: ca_subject_def split: option.splits if_splits)
  then show ?case using snoc.IH [OF tr0] s by (auto simp: Let_def split: if_splits)
qed simp

definition secrets_ok :: "db \<Rightarrow> bool" where
  "secrets_ok d \<longleftrightarrow> distinct (map ts_tenant (tenant_secrets d)) \<and> distinct (map t_id (tenants d))"

lemma tenant_ca:
  assumes ok: "secrets_ok d" and ca: "ca \<in> set (list_all_cas d)" "ca_tenant_id ca = t"
    and sec: "get_by_tenant t d = Some sec" and ten: "tenant_get t d = Some ten"
  shows "ca_ca_cert_pem ca = sec_ca_cert_pem sec" and "ca_tenant_slug ca = te_slug ten"
proof -
  obtain s r where sr: "s \<in> set (tenant_secrets d)" "r \<in> set (tenants d)" "t_id r = ts_tenant s"
    "ca_tenant_id ca = ts_tenant s" "ca_ca_cert_pem ca = ts_ca_cert_pem s" "ca_tenant_slug ca = t_slug r"
    using ca(1) by (auto simp: list_all_cas_def with_tenant_def)
  have "find (\<lambda>r. ts_tenant r = t) (tenant_secrets d) = Some s"
    by (rule find_unique [where g = ts_tenant]) (use ok sr ca(2) in \<open>auto simp: secrets_ok_def\<close>)
  then show "ca_ca_cert_pem ca = sec_ca_cert_pem sec"
    using sec sr by (auto simp: get_by_tenant_def fetch_optional_def)
  have "find (\<lambda>r. t_id r = t) (tenants d) = Some r"
    by (rule find_unique [where g = t_id]) (use ok sr ca(2) in \<open>auto simp: secrets_ok_def\<close>)
  then show "ca_tenant_slug ca = te_slug ten"
    using ten sr by (auto simp: tenant_get_def fetch_optional_def map_tenant_def)
qed

lemma trusted_subject:
  assumes ok: "secrets_ok d" and built: "build_state x cert key d = Some tr" and trusted: "trusts_tenant t tr"
    and sec: "get_by_tenant t d = Some sec" and ten: "tenant_get t d = Some ten"
    and subject: "Option.bind (parse_first_cert_pem x (sec_ca_cert_pem sec)) (ca_subject_der x) = Some subject"
  shows "fmlookup (tenant_by_issuer_der tr) subject = Some (t, te_slug ten)"
proof -
  obtain tr0 where tr0: "add_cas x (list_all_cas d) \<lparr>roots = [], tenant_by_issuer_der = fmempty\<rparr> = Some tr0"
    and same: "tenant_by_issuer_der tr = tenant_by_issuer_der tr0"
    using built by (auto simp: build_state_def Let_def split: option.splits if_splits)
  obtain i u where iu: "fmlookup (tenant_by_issuer_der tr) i = Some (t, u)"
    using trusted by (auto simp: trusts_tenant_def fmlookup_ran_iff)
  define cas where "cas = filter (\<lambda>ca. ca_subject x ca = Some i) (list_all_cas d)"
  have odd: "odd (length cas)" and last: "(t, u) = (ca_tenant_id (last cas), ca_tenant_slug (last cas))"
    using iu unfolding same add_cas_lookup [OF tr0] cas_def [symmetric] by (auto simp: Let_def split: if_splits)
  then have "last cas \<in> set cas" by (intro last_in_set) auto
  then have mem: "last cas \<in> set (list_all_cas d)" "ca_subject x (last cas) = Some i" by (simp_all add: cas_def)
  from tenant_ca [OF ok mem(1) _ sec ten] last
  have "ca_ca_cert_pem (last cas) = sec_ca_cert_pem sec" "u = te_slug ten" by auto
  with mem(2) subject iu show ?thesis by (simp add: ca_subject_def)
qed

section \<open>A certificate identifies its host\<close>

text \<open>
  What \<open>rcgen\<close> writes \<open>x509_parser\<close> reads: a certificate carries its issuer's subject, the
  names it was given, and its serial as a DER integer, which is the serial's own bytes where the
  first is neither zero nor has its top bit set.
\<close>

definition plain_serial :: "bytes \<Rightarrow> bool" where
  "plain_serial bs \<longleftrightarrow> bs \<noteq> [] \<and> 0 < (of_char (hd bs) :: nat) \<and> (of_char (hd bs) :: nat) < 128"

definition x509_laws :: "x509_lib \<Rightarrow> bool" where
  "x509_laws x \<longleftrightarrow> (\<forall>ca_pem key issuer p pub pem der.
     issuer_from_ca x ca_pem key = Some issuer \<longrightarrow> signed_by x p pub issuer = Some (pem, der) \<longrightarrow> plain_serial (cp_serial p) \<longrightarrow>
       pem_certs x pem = Some [der]
       \<and> (\<exists>subject own. Option.bind (parse_first_cert_pem x ca_pem) (ca_subject_der x) = Some subject
            \<and> x509_from_der x der = Some \<lparr>xc_subject = own, xc_issuer = subject, xc_uris = cp_uris p, xc_serial = cp_serial p\<rparr>))"

lemma fixed_serial_plain: "bs \<noteq> [] \<Longrightarrow> plain_serial (fix_serial bs)"
proof (cases bs)
  case (Cons b r)
  define n where "n = or (and (of_char b) 127) (1 :: nat)"
  have "and (of_char b) 127 = take_bit 7 (of_char b :: nat)" by (simp add: take_bit_eq_mask mask_eq_exp_minus_1)
  then have "and (of_char b) 127 < (128 :: nat)" using take_bit_nat_less_exp [of 7 "of_char b"] by simp
  then have "n < 128" unfolding n_def or_one_eq by (cases "and (of_char b) 127 = (127 :: nat)") auto
  moreover have "0 < n" unfolding n_def or_one_eq by (auto intro: odd_pos)
  moreover have "plain_serial (fix_serial bs) \<longleftrightarrow> plain_serial (char_of n # r)"
    by (simp only: Cons fix_serial_def list.case n_def)
  ultimately show ?thesis by (simp add: plain_serial_def)
qed simp

lemma split_slug:
  assumes "CHR ''/'' \<notin> set s"
  shows "split_slash (s @ ''/'' @ h) = Some (s, h)"
proof -
  have "dropWhile (\<lambda>c. c \<noteq> CHR ''/'') (s @ ''/'' @ h) = ''/'' @ h" "takeWhile (\<lambda>c. c \<noteq> CHR ''/'') (s @ ''/'' @ h) = s"
    using assms by (induction s) auto
  then show ?thesis by (simp add: split_slash_def)
qed

lemma valid_slug_no_slash: "valid_slug s \<Longrightarrow> CHR ''/'' \<notin> set s"
  by (auto simp: valid_slug_def list_all_iff is_lower_def is_digit_def)

lemma spiffe_read_back: "CHR ''/'' \<notin> set s \<Longrightarrow> spiffe_names [spiffe_uri s h] = Some (s, h)"
  using split_slug [of s h] by (simp add: spiffe_names_def spiffe_uri_def strip_prefix_def)

text \<open>
  C19: a certificate identifies its host: the certificate the server signs for a host of a tenant
  whose CA is trusted is read, off the wire, as that tenant, slug and host, and with the
  very serial that is recorded for it.
\<close>

theorem issued_cert_identifies:
  assumes laws: "x509_laws x" and ok: "secrets_ok d" and sec: "get_by_tenant t d = Some sec" and ten: "tenant_get t d = Some ten"
    and built: "build_state x server_pem server_key d = Some tr" and trusted: "trusts_tenant t tr"
    and slug: "valid_slug (te_slug ten)" and random: "length random = 16"
    and signed: "sign_client_cert x now random csr (sec_ca_cert_pem sec) ca_key (te_slug ten) host days = Inr issued"
  shows "\<exists>der. parse_first_cert_pem x (ic_cert_pem issued) = Some der
    \<and> parse_leaf x der (tenant_by_issuer_der tr) =
        Inr \<lparr>peer_tenant = t, peer_slug = te_slug ten, peer_host = host, peer_serial = ic_serial_hex issued\<rparr>"
proof -
  obtain key issuer p pub der where issuer: "issuer_from_ca x (sec_ca_cert_pem sec) key = Some issuer"
    and cert: "signed_by x p pub issuer = Some (ic_cert_pem issued, der)"
    and p: "cp_serial p = fix_serial random" "cp_uris p = [spiffe_uri (te_slug ten) host]" "ic_serial_hex issued = hex (cp_serial p)"
    using signed by (auto simp: sign_client_cert_def Let_def split: option.splits if_splits)
  have "plain_serial (cp_serial p)" using fixed_serial_plain [of random] random p(1) by fastforce
  then obtain subject own where pem: "pem_certs x (ic_cert_pem issued) = Some [der]"
    and subject: "Option.bind (parse_first_cert_pem x (sec_ca_cert_pem sec)) (ca_subject_der x) = Some subject"
    and der: "x509_from_der x der = Some \<lparr>xc_subject = own, xc_issuer = subject, xc_uris = cp_uris p, xc_serial = cp_serial p\<rparr>"
    using laws issuer cert unfolding x509_laws_def by blast
  have "parse_leaf x der (tenant_by_issuer_der tr) =
      Inr \<lparr>peer_tenant = t, peer_slug = te_slug ten, peer_host = host, peer_serial = ic_serial_hex issued\<rparr>"
    using spiffe_read_back [OF valid_slug_no_slash [OF slug], of host]
    by (simp add: parse_leaf_def der p(2,3) trusted_subject [OF ok built trusted sec ten subject])
  moreover have "parse_first_cert_pem x (ic_cert_pem issued) = Some der"
    by (simp add: parse_first_cert_pem_def parse_all_cert_pem_def pem)
  ultimately show ?thesis by blast
qed

text \<open>A library that knows one CA, \<open>C\<close>, and signs one certificate, \<open>L\<close>.\<close>

definition sample_params :: cert_params where
  "sample_params = \<lparr>cp_common_name = ''h'', cp_organization = ''NSClient Fleet'', cp_uris = [spiffe_uri ''acme'' ''h''],
     cp_client_auth_only = True, cp_is_ca = False, cp_not_before = 1000 - 5 * 60, cp_not_after = 1000 + 90 * 86400,
     cp_serial = fix_serial ''abcdefghijklmnop''\<rparr>"

definition sample_x509 :: x509_lib where
  "sample_x509 = \<lparr>csr_public_key = (\<lambda>_. Some ''K''), key_from_pem = (\<lambda>_. Some ''S''),
     issuer_from_ca = (\<lambda>pem key. if pem = ''ca'' then Some ''I'' else None),
     signed_by = (\<lambda>p pub issuer. if p = sample_params then Some (''leaf'', ''L'') else None),
     x_sha256 = (\<lambda>b. b),
     x509_from_der = (\<lambda>der. if der = ''C'' then Some \<lparr>xc_subject = ''n'', xc_issuer = ''n'', xc_uris = [], xc_serial = ''1''\<rparr>
       else if der = ''L'' then Some \<lparr>xc_subject = ''h'', xc_issuer = ''n'', xc_uris = cp_uris sample_params, xc_serial = cp_serial sample_params\<rparr>
       else None),
     pem_certs = (\<lambda>pem. if pem = ''ca'' then Some [''C''] else if pem = ''leaf'' then Some [''L''] else Some [''W'']),
     root_acceptable = (\<lambda>_. True), server_config_ok = (\<lambda>_ _ _. True)\<rparr>"

lemma sample_x509_laws: "x509_laws sample_x509"
  by (auto simp: x509_laws_def sample_x509_def parse_first_cert_pem_def parse_all_cert_pem_def ca_subject_der_def split: if_splits)

definition sample_trust_db :: db where
  "sample_trust_db = sample_hosts\<lparr>tenant_secrets := [\<lparr>ts_tenant = 1, ts_ca_cert_pem = ''ca'', ts_ca_key_encrypted = ''e'',
     ts_ca_subject_dn = ''dn'', ts_bundle_signing_pub_pem = ''p'', ts_bundle_signing_key_encrypted = ''s'', ts_created_at = 0\<rparr>]\<rparr>"

theorem issued_cert_identifies_witness:
  "\<exists>tr issued der. build_state sample_x509 ''web'' ''k'' sample_trust_db = Some tr
    \<and> sign_client_cert sample_x509 1000 ''abcdefghijklmnop'' ''csr'' ''ca'' ''key'' ''acme'' ''h'' 90 = Inr issued
    \<and> parse_leaf sample_x509 der (tenant_by_issuer_der tr) =
        Inr \<lparr>peer_tenant = 1, peer_slug = ''acme'', peer_host = ''h'', peer_serial = ic_serial_hex issued\<rparr>"
proof -
  have ok: "secrets_ok sample_trust_db"
    by (simp add: secrets_ok_def sample_trust_db_def sample_hosts_def empty_db_def)
  obtain sec where sec: "get_by_tenant 1 sample_trust_db = Some sec" "sec_ca_cert_pem sec = ''ca''"
    by (simp add: get_by_tenant_def fetch_optional_def sample_trust_db_def)
  obtain ten where ten: "tenant_get 1 sample_trust_db = Some ten" "te_slug ten = ''acme''"
    by (simp add: tenant_get_def fetch_optional_def sample_trust_db_def sample_hosts_def empty_db_def map_tenant_def)
  have cas: "list_all_cas sample_trust_db = [\<lparr>ca_tenant_id = 1, ca_tenant_slug = ''acme'', ca_ca_cert_pem = ''ca'', ca_ca_subject_dn = ''dn''\<rparr>]"
    by (simp add: list_all_cas_def with_tenant_def sample_trust_db_def sample_hosts_def empty_db_def)
  have x: "parse_first_cert_pem sample_x509 ''ca'' = Some ''C''" "ca_subject_der sample_x509 ''C'' = Some ''n''"
    "parse_all_cert_pem sample_x509 ''web'' = Some [''W'']" "root_acceptable sample_x509 ''C''"
    "server_config_ok sample_x509 rs ''web'' ''k''" for rs
    by (simp_all add: parse_first_cert_pem_def parse_all_cert_pem_def ca_subject_der_def) (simp_all add: sample_x509_def)
  obtain tr where tr: "build_state sample_x509 ''web'' ''k'' sample_trust_db = Some tr" "trusts_tenant 1 tr"
    by (simp add: build_state_def cas x Let_def trusts_tenant_def) (force intro: fmranI [of _ "''n''"])
  obtain issued where issued: "sign_client_cert sample_x509 1000 ''abcdefghijklmnop'' ''csr'' ''ca'' ''key'' ''acme'' ''h'' 90 = Inr issued"
    by (simp add: sign_client_cert_def sample_x509_def sample_params_def Let_def)
      (simp add: is_ascii_def spiffe_uri_def SPIFFE_PREFIX_def)
  have "valid_slug (te_slug ten)" by (simp add: ten valid_slug_def is_lower_def)
  moreover have "length ''abcdefghijklmnop'' = 16" by simp
  ultimately show ?thesis
    using issued_cert_identifies [OF sample_x509_laws ok sec(1) ten(1) tr, of "''abcdefghijklmnop''" 1000 "''csr''" "''key''" "''h''" 90 issued]
      issued tr(1) sec(2) ten(2) by auto
qed

end
