(* ===== verification/Agent_Limits.thy ===== *)
theory Agent_Limits
  imports Rate_Limit Tier
begin

text \<open>
  \<open>crates/server/src/agent/limits.rs\<close>: the limits in front of the agents' API
  (\<open>AgentRateLimits\<close>) and of enrollment (\<open>EnrollmentLimits\<close>). As for the auth limits the
  decision about one key is the \<open>governor\<close> crate's, a parameter. Instants are nanoseconds;
  intervals are whole seconds cut to 32 bits.
\<close>

section \<open>Per-host limits\<close>

text \<open>One limiter per tier name, with the quota it was made with.\<close>

record agent_limits =
  by_tier :: "str \<rightharpoonup> quota \<times> (int \<times> str \<rightharpoonup> nanos)"
  last_poll :: "str \<rightharpoonup> nanos"
  checks_since_prune :: nat

definition AGENT_PRUNE_EVERY :: nat where "AGENT_PRUNE_EVERY = 512"

definition seconds :: "nat \<Rightarrow> nanos" where
  "seconds n = n * 10 ^ 9"

definition LAST_POLL_TTL :: nanos where "LAST_POLL_TTL = seconds 3600"

definition agent_limits_new :: agent_limits where
  "agent_limits_new = \<lparr>by_tier = Map.empty, last_poll = Map.empty, checks_since_prune = 0\<rparr>"

definition request_quota :: "32 word \<Rightarrow> quota" where
  "request_quota per_minute_limit = per_minute (unat (max per_minute_limit 1))"

definition limiter_for_tier :: "tier_limits \<Rightarrow> agent_limits \<Rightarrow> (quota \<times> (int \<times> str \<rightharpoonup> nanos)) \<times> agent_limits" where
  "limiter_for_tier tier l =
     (case by_tier l (tier_name tier) of
        Some limiter \<Rightarrow> (limiter, l)
      | None \<Rightarrow>
          (let limiter = (request_quota (per_host_requests_per_minute tier), Map.empty)
           in (limiter, l\<lparr>by_tier := (by_tier l)(tier_name tier \<mapsto> limiter)\<rparr>)))"

definition agent_prune :: "governor \<Rightarrow> nanos \<Rightarrow> agent_limits \<Rightarrow> agent_limits" where
  "agent_prune g now l = l\<lparr>
     by_tier := (\<lambda>n. map_option (\<lambda>(q, m). (q, retain_recent g now m)) (by_tier l n)),
     last_poll := (\<lambda>h. case last_poll l h of
         Some seen \<Rightarrow> if seen + LAST_POLL_TTL > now then Some seen else None | None \<Rightarrow> None)\<rparr>"

definition agent_maybe_prune :: "governor \<Rightarrow> nanos \<Rightarrow> agent_limits \<Rightarrow> agent_limits" where
  "agent_maybe_prune g now l =
     (if checks_since_prune l + 1 \<ge> AGENT_PRUNE_EVERY then agent_prune g now (l\<lparr>checks_since_prune := 0\<rparr>)
      else l\<lparr>checks_since_prune := checks_since_prune l + 1\<rparr>)"

text \<open>\<open>(60.0 / n as f64).ceil() as u32\<close>, for \<open>n\<close> at least one.\<close>

definition retry_for :: "32 word \<Rightarrow> 32 word" where
  "retry_for n = word_of_nat ((60 + unat n - 1) div unat n)"

definition check_request ::
  "governor \<Rightarrow> nanos \<Rightarrow> tier_limits \<Rightarrow> int \<Rightarrow> str \<Rightarrow> agent_limits \<Rightarrow> (32 word + unit) \<times> agent_limits" where
  "check_request g now tier t h l =
     (case limiter_for_tier tier (agent_maybe_prune g now l) of
        ((q, keys), l1) \<Rightarrow>
          (case admit_key g q now (t, h) keys of
             (admitted, keys') \<Rightarrow>
               (if admitted then Inr () else Inl (retry_for (max (per_host_requests_per_minute tier) 1)),
                l1\<lparr>by_tier := (by_tier l1)(tier_name tier \<mapsto> (q, keys'))\<rparr>)))"

definition elapsed_secs :: "nanos \<Rightarrow> nanos \<Rightarrow> 32 word" where
  "elapsed_secs prev now = word_of_nat ((now - prev) div 10 ^ 9)"

definition check_poll_interval ::
  "nanos \<Rightarrow> tier_limits \<Rightarrow> str \<Rightarrow> agent_limits \<Rightarrow> (32 word + unit) \<times> agent_limits" where
  "check_poll_interval now tier h l =
     (let admit = (Inr (), l\<lparr>last_poll := (last_poll l)(h \<mapsto> now)\<rparr>) in
      case last_poll l h of
        None \<Rightarrow> admit
      | Some prev \<Rightarrow>
          if elapsed_secs prev now < min_poll_interval_secs tier
          then (Inl (min_poll_interval_secs tier - elapsed_secs prev now), l)
          else admit)"

definition forget_last_poll :: "str \<Rightarrow> agent_limits \<Rightarrow> agent_limits" where
  "forget_last_poll h l = l\<lparr>last_poll := (last_poll l)(h := None)\<rparr>"

definition clear_limiters :: "agent_limits \<Rightarrow> agent_limits" where
  "clear_limiters l = l\<lparr>by_tier := Map.empty\<rparr>"

section \<open>Enrollment limits\<close>

record enrollment_limits =
  by_tenant :: "int \<rightharpoonup> nanos"
  by_source :: "str \<rightharpoonup> nanos"
  enrollments_per_minute :: "32 word"
  sources_since_prune :: nat

definition enrollment_limits_new :: "32 word \<Rightarrow> enrollment_limits" where
  "enrollment_limits_new n =
     \<lparr>by_tenant = Map.empty, by_source = Map.empty, enrollments_per_minute = n, sources_since_prune = 0\<rparr>"

text \<open>\<open>60.0 / 0.0\<close> is infinite, and cast to \<open>u32::MAX\<close>.\<close>

definition enroll_retry_after :: "enrollment_limits \<Rightarrow> 32 word" where
  "enroll_retry_after l = (if enrollments_per_minute l = 0 then - 1 else retry_for (enrollments_per_minute l))"

definition enroll_check :: "governor \<Rightarrow> nanos \<Rightarrow> int \<Rightarrow> enrollment_limits \<Rightarrow> (32 word + unit) \<times> enrollment_limits" where
  "enroll_check g now t l =
     (case admit_key g (request_quota (enrollments_per_minute l)) now t (by_tenant l) of
        (admitted, m) \<Rightarrow> (if admitted then Inr () else Inl (enroll_retry_after l), l\<lparr>by_tenant := m\<rparr>))"

definition enroll_check_source ::
  "governor \<Rightarrow> nanos \<Rightarrow> str \<Rightarrow> enrollment_limits \<Rightarrow> (32 word + unit) \<times> enrollment_limits" where
  "enroll_check_source g now ip l =
     (let l1 = (if sources_since_prune l + 1 \<ge> AGENT_PRUNE_EVERY
                then l\<lparr>sources_since_prune := 0, by_source := retain_recent g now (by_source l),
                       by_tenant := retain_recent g now (by_tenant l)\<rparr>
                else l\<lparr>sources_since_prune := sources_since_prune l + 1\<rparr>)
      in case admit_key g (request_quota (enrollments_per_minute l)) now ip (by_source l1) of
           (admitted, m) \<Rightarrow> (if admitted then Inr () else Inl (enroll_retry_after l1), l1\<lparr>by_source := m\<rparr>))"

section \<open>Runs\<close>

datatype agent_check = RequestCheck nanos tier_limits int str | PollCheck nanos tier_limits str

fun agent_check_time :: "agent_check \<Rightarrow> nanos" where
  "agent_check_time (RequestCheck now tier t h) = now"
| "agent_check_time (PollCheck now tier h) = now"

fun agent_check_step :: "governor \<Rightarrow> agent_check \<Rightarrow> agent_limits \<Rightarrow> (32 word + unit) \<times> agent_limits" where
  "agent_check_step g (RequestCheck now tier t h) l = check_request g now tier t h l"
| "agent_check_step g (PollCheck now tier h) l = check_poll_interval now tier h l"

section \<open>Polls are apart\<close>

text \<open>
  What is remembered of an accepted poll at \<open>since\<close>: it, or a later one, is still held, or the
  lifetime of its entry has passed.
\<close>

definition poll_remembered :: "nanos \<Rightarrow> nanos \<Rightarrow> str \<Rightarrow> agent_limits \<Rightarrow> bool" where
  "poll_remembered since now h l \<longleftrightarrow>
     (case last_poll l h of Some seen \<Rightarrow> since \<le> seen | None \<Rightarrow> since + LAST_POLL_TTL \<le> now)"

lemma poll_remembered_later: "poll_remembered since now h l \<Longrightarrow> now \<le> now' \<Longrightarrow> poll_remembered since now' h l"
  by (auto simp: poll_remembered_def split: option.splits)

lemma poll_remembered_request:
  assumes "poll_remembered since now h l"
  shows "poll_remembered since now h (snd (check_request g now tier t j l))"
proof -
  have "poll_remembered since now h (agent_maybe_prune g now l)"
    using assms by (auto simp: poll_remembered_def agent_maybe_prune_def agent_prune_def split: option.splits)
  then have "poll_remembered since now h (snd (limiter_for_tier tier (agent_maybe_prune g now l)))"
    by (auto simp: poll_remembered_def limiter_for_tier_def Let_def split: option.split)
  then show ?thesis
    by (auto simp: poll_remembered_def check_request_def split: prod.split)
qed

lemma poll_remembered_poll:
  assumes "poll_remembered since now h l" "since \<le> now"
  shows "poll_remembered since now h (snd (check_poll_interval now tier j l))"
  using assms by (auto simp: poll_remembered_def check_poll_interval_def Let_def split: option.splits)

lemma poll_remembered_step:
  assumes "poll_remembered since now h l" "since \<le> now" "now \<le> agent_check_time c"
  shows "poll_remembered since (agent_check_time c) h (snd (agent_check_step g c l))"
  using poll_remembered_later [OF assms(1,3)] assms(2,3)
  by (cases c) (auto intro: poll_remembered_request poll_remembered_poll)

lemma poll_remembered_run:
  assumes "poll_remembered since now h l" "since \<le> now" "sorted (now # map agent_check_time cs @ [later])"
  shows "poll_remembered since later h (snd (run_with (agent_check_step g) cs l))"
  using assms
proof (induction cs arbitrary: now l)
  case Nil
  then show ?case by (auto intro: poll_remembered_later)
next
  case (Cons c cs)
  show ?case
    unfolding run_with_Cons snd_conv
    by (rule Cons.IH [OF poll_remembered_step]) (use Cons.prems in auto)
qed

lemma elapsed_at_least:
  assumes "m \<le> elapsed_secs prev now"
  shows "prev + seconds (unat m) \<le> now \<or> m = 0"
proof -
  have "unat m \<le> (now - prev) div 10 ^ 9"
    using assms unat_of_nat [where 'a = 32, of "(now - prev) div 10 ^ 9"]
    by (simp add: word_le_nat_alt elapsed_secs_def) (meson le_trans mod_less_eq_dividend)
  then have "unat m * 10 ^ 9 \<le> now - prev"
    by (meson div_times_less_eq_dividend le_trans mult_le_mono1)
  moreover have "m \<noteq> 0 \<Longrightarrow> 0 < unat m" by (simp add: unat_gt_0)
  ultimately show ?thesis by (cases "m = 0") (simp_all add: seconds_def)
qed

text \<open>
  C18: polls are apart: whatever requests and polls of whichever hosts come between, and however
  often the maps are swept, two accepted polls of a host lie at least its tier's interval
  apart, for an interval of at most the hour an entry is kept.
\<close>

theorem accepted_polls_apart:
  assumes first: "check_poll_interval t1 tier1 h l = (Inr (), l1)"
    and between: "l2 = snd (run_with (agent_check_step g) cs l1)"
    and second: "check_poll_interval t2 tier2 h l2 = (Inr (), l3)"
    and clock: "sorted (t1 # map agent_check_time cs @ [t2])"
    and interval: "min_poll_interval_secs tier2 \<le> 3600"
  shows "t1 + seconds (unat (min_poll_interval_secs tier2)) \<le> t2"
proof -
  have "last_poll l1 h = Some t1"
    using first by (auto simp: check_poll_interval_def Let_def split: option.splits if_splits)
  then have "poll_remembered t1 t1 h l1" by (simp add: poll_remembered_def)
  then have held: "poll_remembered t1 t2 h l2"
    unfolding between using clock by (intro poll_remembered_run) auto
  have "t1 \<le> t2" using clock by simp
  have small: "unat (min_poll_interval_secs tier2) \<le> 3600" using interval by (simp add: word_le_nat_alt)
  show ?thesis
  proof (cases "last_poll l2 h")
    case None
    then have "t1 + LAST_POLL_TTL \<le> t2" using held by (simp add: poll_remembered_def)
    moreover have "seconds (unat (min_poll_interval_secs tier2)) \<le> LAST_POLL_TTL"
      using small by (simp add: LAST_POLL_TTL_def seconds_def)
    ultimately show ?thesis by simp
  next
    case (Some prev)
    then have "min_poll_interval_secs tier2 \<le> elapsed_secs prev t2"
      using second by (auto simp: check_poll_interval_def Let_def not_less split: if_splits)
    from elapsed_at_least [OF this] \<open>t1 \<le> t2\<close> held Some show ?thesis
      by (auto simp: poll_remembered_def seconds_def)
  qed
qed

theorem accepted_polls_apart_witness:
  "\<exists>l3. check_poll_interval (seconds 60) FREE ''h''
      (snd (run_with (agent_check_step open_governor) [RequestCheck (seconds 5) FREE 1 ''h'', PollCheck (seconds 59) FREE ''h'']
        (snd (check_poll_interval 0 FREE ''h'' agent_limits_new)))) = (Inr (), l3)
    \<and> 0 + seconds (unat (min_poll_interval_secs FREE)) \<le> seconds 60"
proof -
  let ?l1 = "snd (check_poll_interval 0 FREE ''h'' agent_limits_new)"
  let ?cs = "[RequestCheck (seconds 5) FREE 1 ''h'', PollCheck (seconds 59) FREE ''h'']"
  let ?l2 = "snd (run_with (agent_check_step open_governor) ?cs ?l1)"
  have first: "check_poll_interval 0 FREE ''h'' agent_limits_new = (Inr (), ?l1)"
    by (simp add: check_poll_interval_def agent_limits_new_def)
  have "last_poll ?l2 ''h'' = Some 0"
    by (simp add: run_with_Cons check_poll_interval_def check_request_def agent_maybe_prune_def agent_limits_new_def Let_def
        limiter_for_tier_def FREE_def elapsed_secs_def seconds_def AGENT_PRUNE_EVERY_def split: prod.split)
  then have "fst (check_poll_interval (seconds 60) FREE ''h'' ?l2) = Inr ()"
    by (simp add: check_poll_interval_def Let_def FREE_def elapsed_secs_def seconds_def)
  then obtain l3 where second: "check_poll_interval (seconds 60) FREE ''h'' ?l2 = (Inr (), l3)" by (metis prod.collapse)
  have "sorted (0 # map agent_check_time ?cs @ [seconds 60])" "min_poll_interval_secs FREE \<le> 3600"
    by (simp_all add: seconds_def FREE_def)
  from accepted_polls_apart [OF first refl second this] second show ?thesis by blast
qed

section \<open>Where the limits are not what they are taken for\<close>

text \<open>
  A limiter is looked up by the name of its tier, which an override keeps: a tenant whose
  override sets its own requests per minute shares the limiter, and the quota, of whichever
  tenant of the tier came first.
\<close>

lemma override_shares_limiter:
  "fst (limiter_for_tier (apply_to ov base) (snd (limiter_for_tier base l))) = fst (limiter_for_tier base l)"
  by (auto simp: limiter_for_tier_def apply_to_def Let_def split: option.split)

text \<open>An override may ask for an interval longer than an entry is kept: a sweep then hands out a free poll.\<close>

lemma long_interval_swept:
  assumes "last_poll l h = Some seen" "seen + LAST_POLL_TTL \<le> now"
  shows "fst (check_poll_interval now tier h (agent_prune g now l)) = Inr ()"
  using assms by (simp add: check_poll_interval_def agent_prune_def Let_def)

end
