(* ===== verification/Hosts_Api.thy ===== *)
theory Hosts_Api
  imports Config_Api Identity Agent_Limits Tier Host_Status
begin

text \<open>
  The console's requests for hosts, \<open>crates/server/src/hosts/mod.rs\<close>: adding one within the
  tier's limit, listing them with their status, revoking and deleting, and the bulk requests.
  Enrollment is in the theory of the agents' API. Ids, tokens and the time are arguments.
\<close>

record fleet_lib =
  fl_ops :: op_lib
  fl_hash :: lib
  fl_overrides :: "str \<Rightarrow> raw_overrides option"
  fl_jwt :: jwt_lib
  fl_x509 :: x509_lib
  fl_governor :: governor

record fleet_config =
  cfg_bootstrap_ttl_secs :: int
  cfg_bootstrap_jwt_secret :: bytes
  cfg_base_url :: str
  cfg_host_lost_after_secs :: int
  cfg_client_cert_lifetime_days :: int
  cfg_agent_mtls_url :: str
  cfg_mtls_server_cert_pem :: str
  cfg_mtls_server_key_pem :: str

section \<open>Adding a host\<close>

record create_host_response =
  chr_host_id :: str
  chr_bootstrap_token :: str
  chr_server_url :: str
  chr_install_command :: str
  chr_expires_at :: int

record tier_limit_error =
  tle_limit :: "32 word"
  tle_current :: nat
  tle_tier :: str

definition trim_end_slashes :: "str \<Rightarrow> str" where
  "trim_end_slashes s = rev (dropWhile (\<lambda>c. c = CHR ''/'') (rev s))"

definition bootstrap_token :: "fleet_lib \<Rightarrow> fleet_config \<Rightarrow> int \<Rightarrow> int \<Rightarrow> str \<Rightarrow> str \<Rightarrow> str" where
  "bootstrap_token l cfg now t h nonce =
     encode_bootstrap (fl_jwt l) (cfg_bootstrap_jwt_secret cfg)
       \<lparr>bc_host_id = h, bc_tenant_id = t, bc_nonce = nonce, bc_exp = now + cfg_bootstrap_ttl_secs cfg,
        bc_iat = now, bc_aud = []\<rparr>"

definition install_command :: "fleet_config \<Rightarrow> str \<Rightarrow> str" where
  "install_command cfg token =
     ''nscp enroll --server '' @ trim_end_slashes (cfg_base_url cfg) @ '' --token '' @ token"

definition host_provision ::
  "fleet_lib \<Rightarrow> fleet_config \<Rightarrow> str \<Rightarrow> str \<Rightarrow> int \<Rightarrow> authed_user \<Rightarrow> fx_app \<Rightarrow>
     (nat \<times> tier_limit_error option + create_host_response) \<times> fx_app" where
  "host_provision l cfg new_id nonce now who s =
     (if \<not> can_add_hosts (who_role who) then (Inl (403, None), s)
      else case tenant_get (who_tenant who) (fx_db s) of
          None \<Rightarrow> (Inl (500, None), s)
        | Some tenant \<Rightarrow>
            (let limits = effective (fl_overrides l) (te_tier tenant) (te_tier_overrides_json tenant);
                 active = count_active now (te_id tenant) (fx_db s) in
             if active \<ge> unat (max_hosts limits)
             then (Inl (403, Some \<lparr>tle_limit = max_hosts limits, tle_current = active, tle_tier = tier_name limits\<rparr>), s)
             else
               let expires_at = now + cfg_bootstrap_ttl_secs cfg in
               case create_pending new_id now (te_id tenant) (hash_token (fl_hash l) nonce) expires_at (fx_db s) of
                 Inl _ \<Rightarrow> (Inl (500, None), s)
               | Inr (host, d) \<Rightarrow>
                   (let token = bootstrap_token l cfg now (te_id tenant) (hid host) nonce in
                    (Inr \<lparr>chr_host_id = hid host, chr_bootstrap_token = token,
                       chr_server_url = trim_end_slashes (cfg_base_url cfg),
                       chr_install_command = install_command cfg token, chr_expires_at = expires_at\<rparr>,
                     s\<lparr>fx_db := audited (fl_ops l) now who ''host.created'' ''host'' (hid host) None d\<rparr>))))"

section \<open>Listing hosts\<close>

record tag_view =
  tv_key :: str
  tv_value :: str
  tv_source :: str

record host_view =
  hv_id :: str
  hv_hostname :: "str option"
  hv_os :: "str option"
  hv_enrolled_at :: "int option"
  hv_last_seen_at :: "int option"
  hv_current_state_hash :: "str option"
  hv_status :: host_status
  hv_bootstrap_expires_at :: "int option"
  hv_local_config_present :: "bool option"
  hv_host_override_last :: "bool option"
  hv_created_at :: int
  hv_tags :: "tag_view list"

definition view_host :: "host \<Rightarrow> int \<Rightarrow> status_thresholds \<Rightarrow> str option \<Rightarrow> tag_view list \<Rightarrow> host_view" where
  "view_host h now thresholds desired_hash tags =
     \<lparr>hv_id = hid h, hv_hostname = hostname h, hv_os = os h, hv_enrolled_at = enrolled_at h,
      hv_last_seen_at = last_seen_at h, hv_current_state_hash = current_state_hash h,
      hv_status = status h now thresholds desired_hash, hv_bootstrap_expires_at = bootstrap_expires_at h,
      hv_local_config_present = local_config_present h, hv_host_override_last = host_override_last h,
      hv_created_at = created_at h, hv_tags = tags\<rparr>"

text \<open>The tags of the tenant, grouped by host as the rows come.\<close>

definition tag_views_by_host :: "(str \<times> str \<times> str \<times> str) list \<Rightarrow> str \<Rightarrow> tag_view list" where
  "tag_views_by_host rows = fold (\<lambda>(h, key, val, source) m.
     m(h := m h @ [\<lparr>tv_key = key, tv_value = val, tv_source = source\<rparr>])) rows (\<lambda>_. [])"

text \<open>What an enrolled host would be served, and the cache it leaves; \<open>Inl\<close> where it cannot be computed.\<close>

definition desired_hash_at ::
  "codec \<Rightarrow> int \<Rightarrow> int \<Rightarrow> int \<Rightarrow> host \<Rightarrow> db \<Rightarrow> cache \<Rightarrow> (nat + str option) \<times> cache" where
  "desired_hash_at c now t v host d m =
     (if enrolled_at host = None then (Inr None, m)
      else case compute_desired_state_at c now t (hid host) v d m of
          (Inl _, m') \<Rightarrow> (Inl 500, m')
        | (Inr ds, m') \<Rightarrow> (Inr (Some (state_hash ds)), m'))"

fun host_views ::
  "codec \<Rightarrow> int \<Rightarrow> int \<Rightarrow> int \<Rightarrow> status_thresholds \<Rightarrow> db \<Rightarrow> host list \<Rightarrow> (str \<Rightarrow> tag_view list) \<Rightarrow> cache \<Rightarrow>
     (nat + host_view list) \<times> cache" where
  "host_views c now t v thresholds d [] tags m = (Inr [], m)"
| "host_views c now t v thresholds d (host # rest) tags m =
     (case desired_hash_at c now t v host d m of
        (Inl st, m') \<Rightarrow> (Inl st, m')
      | (Inr desired, m') \<Rightarrow>
          (case host_views c now t v thresholds d rest (tags(hid host := [])) m' of
             (Inl st, m'') \<Rightarrow> (Inl st, m'')
           | (Inr views, m'') \<Rightarrow> (Inr (view_host host now thresholds desired (tags (hid host)) # views), m'')))"

definition host_thresholds :: "fleet_lib \<Rightarrow> fleet_config \<Rightarrow> tenant \<Rightarrow> status_thresholds" where
  "host_thresholds l cfg tenant = thresholds_new
     (min_poll_interval_secs (effective (fl_overrides l) (te_tier tenant) (te_tier_overrides_json tenant)))
     (cfg_host_lost_after_secs cfg)"

definition hosts_page :: "fleet_lib \<Rightarrow> fleet_config \<Rightarrow> int \<Rightarrow> authed_user \<Rightarrow> fx_app \<Rightarrow> (nat + host_view list) \<times> fx_app" where
  "hosts_page l cfg now who s =
     (case tenant_get (who_tenant who) (fx_db s) of
        None \<Rightarrow> (Inl 500, s)
      | Some tenant \<Rightarrow>
          (case host_views (op_codec (fl_ops l)) now (who_tenant who) (te_config_version tenant) (host_thresholds l cfg tenant)
                  (fx_db s) (host_list (who_tenant who) (fx_db s))
                  (tag_views_by_host (list_for_tenant (who_tenant who) (fx_db s))) (fx_cache s) of
             (r, m) \<Rightarrow> (r, s\<lparr>fx_cache := m\<rparr>)))"

record host_detail =
  hd_host :: host_view
  hd_override_priority :: "int option"

definition status_inputs ::
  "fleet_lib \<Rightarrow> fleet_config \<Rightarrow> int \<Rightarrow> int \<Rightarrow> host \<Rightarrow> fx_app \<Rightarrow> (nat + status_thresholds \<times> str option) \<times> fx_app" where
  "status_inputs l cfg now t host s =
     (case tenant_get t (fx_db s) of
        None \<Rightarrow> (Inl 500, s)
      | Some tenant \<Rightarrow>
          (case desired_hash_at (op_codec (fl_ops l)) now t (te_config_version tenant) host (fx_db s) (fx_cache s) of
             (Inl st, m) \<Rightarrow> (Inl st, s\<lparr>fx_cache := m\<rparr>)
           | (Inr desired, m) \<Rightarrow> (Inr (host_thresholds l cfg tenant, desired), s\<lparr>fx_cache := m\<rparr>)))"

definition host_page ::
  "fleet_lib \<Rightarrow> fleet_config \<Rightarrow> int \<Rightarrow> authed_user \<Rightarrow> str \<Rightarrow> fx_app \<Rightarrow> (nat + host_detail) \<times> fx_app" where
  "host_page l cfg now who h s =
     (case host_get (who_tenant who) h (fx_db s) of
        None \<Rightarrow> (Inl 404, s)
      | Some host \<Rightarrow>
          (let tags = map (\<lambda>(key, val, source). \<lparr>tv_key = key, tv_value = val, tv_source = source\<rparr>)
                 (list_for_host (who_tenant who) h (fx_db s));
               override_meta = map_option so_priority (override_get (who_tenant who) h (fx_db s))
           in case status_inputs l cfg now (who_tenant who) host s of
                (Inl st, s') \<Rightarrow> (Inl st, s')
              | (Inr (thresholds, desired), s') \<Rightarrow>
                  (Inr \<lparr>hd_host = view_host host now thresholds desired tags, hd_override_priority = override_meta\<rparr>, s')))"

record desired_bundle_view =
  dbv_id :: str
  dbv_name :: str
  dbv_version :: str
  dbv_sha256 :: str
  dbv_priority :: int
  dbv_format :: str

record desired_state_view =
  dsv_state_hash :: str
  dsv_in_sync :: bool
  dsv_bundles :: "desired_bundle_view list"

definition view_bundle :: "desired_bundle \<Rightarrow> desired_bundle_view" where
  "view_bundle b = \<lparr>dbv_id = db_id b, dbv_name = db_name b, dbv_version = db_version b, dbv_sha256 = db_sha256 b,
     dbv_priority = db_priority b, dbv_format = db_format b\<rparr>"

definition host_desired ::
  "fleet_lib \<Rightarrow> int \<Rightarrow> authed_user \<Rightarrow> str \<Rightarrow> fx_app \<Rightarrow> (nat + desired_state_view) \<times> fx_app" where
  "host_desired l now who h s =
     (case host_get (who_tenant who) h (fx_db s) of
        None \<Rightarrow> (Inl 404, s)
      | Some host \<Rightarrow>
          (case compute_desired_state (op_codec (fl_ops l)) now (who_tenant who) h (fx_db s) (fx_cache s) of
             (Inl _, m) \<Rightarrow> (Inl 500, s\<lparr>fx_cache := m\<rparr>)
           | (Inr ds, m) \<Rightarrow>
               (Inr \<lparr>dsv_state_hash = state_hash ds, dsv_in_sync = (current_state_hash host = Some (state_hash ds)),
                  dsv_bundles = map view_bundle (desired_bundles ds)\<rparr>, s\<lparr>fx_cache := m\<rparr>)))"

section \<open>Revoking and deleting\<close>

record revoke_host_response =
  rhr_host_id :: str
  rhr_revoked_certs :: nat
  rhr_bootstrap_token :: str
  rhr_install_command :: str
  rhr_expires_at :: int

definition revoke_host_certs ::
  "fleet_lib \<Rightarrow> fleet_config \<Rightarrow> str \<Rightarrow> int \<Rightarrow> authed_user \<Rightarrow> str \<Rightarrow> fx_app \<Rightarrow> (nat + revoke_host_response) \<times> fx_app" where
  "revoke_host_certs l cfg nonce now who h s =
     (if \<not> can_write_config (who_role who) then (Inl 403, s)
      else case tenant_get (who_tenant who) (fx_db s) of
          None \<Rightarrow> (Inl 500, s)
        | Some tenant \<Rightarrow>
            (let expires_at = now + cfg_bootstrap_ttl_secs cfg in
             case revoke_certs_and_reset_to_pending now (who_tenant who) h (hash_token (fl_hash l) nonce) expires_at (fx_db s) of
               (None, d) \<Rightarrow> (Inl 404, s\<lparr>fx_db := d\<rparr>)
             | (Some revoked, d) \<Rightarrow>
                 (let token = bootstrap_token l cfg now (te_id tenant) h nonce in
                  (Inr \<lparr>rhr_host_id = h, rhr_revoked_certs = revoked, rhr_bootstrap_token = token,
                     rhr_install_command = install_command cfg token, rhr_expires_at = expires_at\<rparr>,
                   s\<lparr>fx_db := audited (fl_ops l) now who ''host.certs_revoked'' ''host'' h
                        (Some (JObj [(''revoked_certs'', JNum (NInt (int revoked)))])) d,
                     fx_cache := forget_host (who_tenant who) h (fx_cache s)\<rparr>))))"

definition deleted_metadata :: "host \<Rightarrow> json" where
  "deleted_metadata host = JObj [(''hostname'', case hostname host of None \<Rightarrow> JNull | Some n \<Rightarrow> JStr n),
     (''enrolled'', JBool (enrolled_at host \<noteq> None))]"

definition delete_host :: "fleet_lib \<Rightarrow> int \<Rightarrow> authed_user \<Rightarrow> str \<Rightarrow> fx_app \<Rightarrow> nat \<times> fx_app" where
  "delete_host l now who h s =
     (if \<not> can_write_config (who_role who) then (403, s)
      else case host_get (who_tenant who) h (fx_db s) of
          None \<Rightarrow> (404, s)
        | Some host \<Rightarrow>
            (case host_delete (who_tenant who) h (fx_db s) of
               Inl _ \<Rightarrow> (500, s)
             | Inr (False, d) \<Rightarrow> (404, s\<lparr>fx_db := d\<rparr>)
             | Inr (True, d) \<Rightarrow>
                 (204, s\<lparr>fx_db := audited (fl_ops l) now who ''host.deleted'' ''host'' h (Some (deleted_metadata host)) d,
                    fx_cache := forget_host (who_tenant who) h (fx_cache s),
                    fx_catalog := catalog_bump (who_tenant who) CRemoved (fx_catalog s)\<rparr>)))"

section \<open>Bulk requests\<close>

definition BULK_MAX_HOSTS :: nat where "BULK_MAX_HOSTS = 1000"

text \<open>The first occurrence of each id is kept.\<close>

definition validate_bulk_ids :: "str list \<Rightarrow> str list option" where
  "validate_bulk_ids host_ids =
     (let ids = rev (remdups (rev host_ids)) in
      if ids = [] then None else if length ids > BULK_MAX_HOSTS then None else Some ids)"

record bulk_result =
  br_updated :: nat
  br_not_found :: "str list"

fun bulk_delete_each ::
  "fleet_lib \<Rightarrow> int \<Rightarrow> authed_user \<Rightarrow> str list \<Rightarrow> bulk_result \<Rightarrow> fx_app \<Rightarrow> (nat + bulk_result) \<times> fx_app" where
  "bulk_delete_each l now who [] r s = (Inr r, s)"
| "bulk_delete_each l now who (h # hs) r s =
     (case host_get (who_tenant who) h (fx_db s) of
        None \<Rightarrow> bulk_delete_each l now who hs (r\<lparr>br_not_found := br_not_found r @ [h]\<rparr>) s
      | Some host \<Rightarrow>
          (case host_delete (who_tenant who) h (fx_db s) of
             Inl _ \<Rightarrow> (Inl 500, s)
           | Inr (False, d) \<Rightarrow>
               bulk_delete_each l now who hs (r\<lparr>br_not_found := br_not_found r @ [h]\<rparr>) (s\<lparr>fx_db := d\<rparr>)
           | Inr (True, d) \<Rightarrow>
               bulk_delete_each l now who hs (r\<lparr>br_updated := br_updated r + 1\<rparr>)
                 (s\<lparr>fx_db := audited (fl_ops l) now who ''host.deleted'' ''host'' h (Some (deleted_metadata host)) d,
                    fx_cache := forget_host (who_tenant who) h (fx_cache s)\<rparr>)))"

definition bulk_delete :: "fleet_lib \<Rightarrow> int \<Rightarrow> authed_user \<Rightarrow> str list \<Rightarrow> fx_app \<Rightarrow> (nat + bulk_result) \<times> fx_app" where
  "bulk_delete l now who host_ids s =
     (if \<not> can_write_config (who_role who) then (Inl 403, s)
      else case validate_bulk_ids host_ids of
          None \<Rightarrow> (Inl 400, s)
        | Some ids \<Rightarrow>
            (case bulk_delete_each l now who ids \<lparr>br_updated = 0, br_not_found = []\<rparr> s of
               (Inl st, s') \<Rightarrow> (Inl st, s')
             | (Inr r, s') \<Rightarrow>
                 (Inr r, if br_updated r > 0
                    then s'\<lparr>fx_catalog := catalog_bump (who_tenant who) CRemoved (fx_catalog s')\<rparr> else s')))"

text \<open>One host's tags set and removed; \<open>Inl\<close> keeps what was written before the failure.\<close>

fun bulk_set :: "int \<Rightarrow> int \<Rightarrow> str \<Rightarrow> (str \<times> str) list \<Rightarrow> bool \<Rightarrow> db \<Rightarrow> (nat + bool) \<times> db" where
  "bulk_set now t h [] changed d = (Inr changed, d)"
| "bulk_set now t h ((key, val) # sets) changed d =
     (case upsert_manual_tag now t h key val d of
        Inl _ \<Rightarrow> (Inl 500, d)
      | Inr (c, d') \<Rightarrow> bulk_set now t h sets (changed \<or> c) d')"

fun bulk_remove :: "int \<Rightarrow> str \<Rightarrow> str list \<Rightarrow> bool \<Rightarrow> db \<Rightarrow> bool \<times> db" where
  "bulk_remove t h [] changed d = (changed, d)"
| "bulk_remove t h (key # keys) changed d =
     (case delete_manual_tag t h key d of (c, d') \<Rightarrow> bulk_remove t h keys (changed \<or> c) d')"

fun bulk_tags_each ::
  "int \<Rightarrow> int \<Rightarrow> (str \<times> str) list \<Rightarrow> str list \<Rightarrow> str list \<Rightarrow> bulk_result \<Rightarrow> str list \<Rightarrow> db \<Rightarrow>
     (nat + bulk_result \<times> str list) \<times> db" where
  "bulk_tags_each now t sets removes [] r touched d = (Inr (r, touched), d)"
| "bulk_tags_each now t sets removes (h # hs) r touched d =
     (if host_get t h d = None
      then bulk_tags_each now t sets removes hs (r\<lparr>br_not_found := br_not_found r @ [h]\<rparr>) touched d
      else case bulk_set now t h sets False d of
          (Inl st, d') \<Rightarrow> (Inl st, d')
        | (Inr set_changed, d') \<Rightarrow>
            (case bulk_remove t h removes set_changed d' of
               (changed, d'') \<Rightarrow>
                 bulk_tags_each now t sets removes hs (r\<lparr>br_updated := br_updated r + 1\<rparr>)
                   (if changed then touched @ [h] else touched) d''))"

fun join_comma :: "str list \<Rightarrow> str" where
  "join_comma [] = []"
| "join_comma [x] = x"
| "join_comma (x # xs) = x @ '','' @ join_comma xs"

definition bulk_tags ::
  "fleet_lib \<Rightarrow> int \<Rightarrow> authed_user \<Rightarrow> str list \<Rightarrow> (str \<times> str) list \<Rightarrow> str list \<Rightarrow> fx_app \<Rightarrow> (nat + bulk_result) \<times> fx_app" where
  "bulk_tags l now who host_ids sets removes s =
     (if \<not> can_write_config (who_role who) then (Inl 403, s)
      else case validate_bulk_ids host_ids of
          None \<Rightarrow> (Inl 400, s)
        | Some ids \<Rightarrow>
            if sets = [] \<and> removes = [] then (Inl 400, s)
            else if \<exists>key \<in> set (map fst sets @ removes). trim key = [] \<or> length key > 128 then (Inl 400, s)
            else case bulk_tags_each now (who_tenant who) sets removes ids \<lparr>br_updated = 0, br_not_found = []\<rparr> [] (fx_db s) of
                (Inl st, d) \<Rightarrow> (Inl st, s\<lparr>fx_db := d\<rparr>)
              | (Inr (r, touched), d) \<Rightarrow>
                  (let s' = s\<lparr>fx_db := d, fx_cache := fold (invalidate_host now (who_tenant who)) touched (fx_cache s)\<rparr> in
                   (Inr r, if touched = [] then s'
                      else s'\<lparr>fx_db := audited (fl_ops l) now who ''host.tags_bulk_changed'' ''host'' (join_comma touched)
                        (Some (JObj [(''set'', JArr (map (JStr \<circ> fst) sets)), (''remove'', JArr (map JStr removes)),
                          (''hosts'', JNum (NInt (int (length touched))))])) (fx_db s')\<rparr>)))"

section \<open>What the repositories keep\<close>

lemma pending_host_kept:
  assumes ok: "app_ok d" and r: "create_pending new_id now t nonce_hash expires d = Inr (host, d')"
  shows "app_ok d'" and "tenants d' = tenants d" and "read_input i d' = read_input i d"
    and "hid host = new_id"
proof -
  obtain row where d': "d' = d\<lparr>hosts := hosts d @ [row]\<rparr>" and row: "h_id row = new_id" "h_tenant row = t"
    and t: "tenant_exists t d" and new: "\<forall>x \<in> set (hosts d). h_id x \<noteq> new_id" and host: "host = map_host row"
    using r by (auto simp: create_pending_def insert_host_def host_id_exists_def new_host_row_def split: if_splits)
  have "facts_ok d'" using ok new row by (auto simp: app_ok_def facts_ok_def d')
  then show "app_ok d'"
    using ok t row by (auto simp: app_ok_def owned_defs tags_ok_def tenant_exists_def d')
  show "tenants d' = tenants d" by (simp add: d')
  show "read_input i d' = read_input i d" by (rule read_input_cong) (simp_all add: d')
  show "hid host = new_id" by (simp add: host row map_host_def)
qed

lemma owners_update_hosts:
  assumes "\<And>r. h_tenant (f r) = h_tenant r \<and> h_id (f r) = h_id r"
  shows "owners (d\<lparr>hosts := update_where p f (hosts d)\<rparr>) = owners d"
proof -
  have "map (\<lambda>h. (h_tenant h, h_id h)) (update_where p f (hosts d)) = map (\<lambda>h. (h_tenant h, h_id h)) (hosts d)"
    using assms by (auto simp: update_where_def)
  then show ?thesis by (simp add: owners_def)
qed

lemma app_ok_same_owners:
  assumes "app_ok d" "owners d' = owners d" "host_facts d' = host_facts d" "host_fact_changes d' = host_fact_changes d"
  shows "app_ok d'"
proof (rule app_ok_owners [OF assms(1) _ assms(2)])
  have same: "map (\<lambda>h. (h_tenant h, h_id h)) (hosts d') = map (\<lambda>h. (h_tenant h, h_id h)) (hosts d)"
    using assms(2) by (simp add: owners_def)
  have "map h_id (hosts d') = map h_id (hosts d)"
    using arg_cong [where f = "map snd", OF same] by (simp add: comp_def)
  moreover have "(\<exists>h \<in> set (hosts d'). is_host t i h) = (\<exists>h \<in> set (hosts d). is_host t i h)" for t i
    by (simp only: ex_host_map same)
  ultimately show "facts_ok d'"
    using assms(1,3,4) by (simp add: app_ok_def facts_ok_def)
qed

lemma app_ok_update_hosts:
  "app_ok d \<Longrightarrow> (\<And>r. h_tenant (f r) = h_tenant r \<and> h_id (f r) = h_id r) \<Longrightarrow> app_ok (d\<lparr>hosts := update_where p f (hosts d)\<rparr>)"
  using app_ok_same_owners owners_update_hosts by simp

lemma reset_host_kept:
  assumes ok: "app_ok d" and r: "revoke_certs_and_reset_to_pending now t h nonce_hash expires d = (revoked, d')"
  shows "app_ok d'" and "tenants d' = tenants d" and "read_input i d' = read_input i d"
proof -
  define certs where "certs = update_where (live_cert_of t h) (c_revoked_at_update (\<lambda>_. Some now)) (host_certs d)"
  define rows where "rows = update_where (is_host t h) (\<lambda>r. r\<lparr>h_enrolled_at := None, h_nonce_hash := Some nonce_hash,
      h_bootstrap_expires_at := Some expires\<rparr>) (hosts d)"
  have d': "d' = d \<or> d' = d\<lparr>host_certs := certs, hosts := rows\<rparr>"
    using r by (auto simp: revoke_certs_and_reset_to_pending_def Let_def certs_def rows_def split: if_splits)
  have rows: "map (\<lambda>h. (h_tenant h, h_id h)) rows = map (\<lambda>h. (h_tenant h, h_id h)) (hosts d)"
    unfolding rows_def by (rule map_update_where) simp
  show "app_ok d'" using d' rows by (auto intro: app_ok_same_owners [OF ok] ok simp: owners_def)
  show "tenants d' = tenants d" using d' by auto
  show "read_input i d' = read_input i d" by (rule read_input_cong) (use d' in auto)
qed

lemma deleted_host_kept:
  assumes ok: "app_ok d" and r: "host_delete t h d = Inr (gone, d')"
  shows "app_ok d'" and "tenants d' = tenants d" and "(t, h) \<in> G \<Longrightarrow> read_input i d' = read_input i d \<or> dead_input G i"
proof -
  define keep where "keep = (\<lambda>u j. (u, j) \<noteq> (t, h))"
  have d': "d' = d\<lparr>
      host_tags := filter (\<lambda>r. keep (tg_tenant r) (tg_host r)) (host_tags d),
      host_overrides := filter (\<lambda>r. keep (o_tenant r) (o_host r)) (host_overrides d),
      host_facts := filter (\<lambda>r. keep (f_tenant r) (f_host r)) (host_facts d),
      host_fact_changes := filter (\<lambda>r. keep (fc_tenant r) (fc_host r)) (host_fact_changes d),
      host_certs := filter (\<lambda>r. keep (c_tenant r) (c_host r)) (host_certs d),
      hosts := filter (\<lambda>r. keep (h_tenant r) (h_id r)) (hosts d)\<rparr>"
    using r by (auto simp: host_delete_def Let_def delete_where_def keep_def is_host_def split: if_splits)
  have kept: "(\<exists>x \<in> set (hosts d'). is_host u j x) \<longleftrightarrow> (\<exists>x \<in> set (hosts d). is_host u j x) \<and> keep u j" for u j
    by (auto simp: d' is_host_def)
  have "facts_ok d'"
    unfolding facts_ok_def kept
    using ok by (auto simp: app_ok_def facts_ok_def d' distinct_map_filter sorted_wrt_filter sorted_wrt_map)
  moreover have "tags_ok d'"
    using ok by (auto simp: app_ok_def tags_owned_def tags_ok_def d' distinct_map_filter)
  ultimately show "app_ok d'"
    unfolding app_ok_def owned_defs kept using ok
    by (auto simp: app_ok_def owned_defs d' tenant_exists_def)
  show "tenants d' = tenants d" by (simp add: d')
  show "read_input i d' = read_input i d \<or> dead_input G i" if G: "(t, h) \<in> G"
  proof (cases "\<exists>s. i = ITags t h \<or> i = IFacts t h s \<or> i = IOverride t h")
    case True
    then show ?thesis using G by (auto simp: dead_input_def)
  next
    case False
    have keep: "keep u j" if "i = ITags u j \<or> i = IFacts u j src \<or> i = IOverride u j" for u j src
      using that False by (auto simp: keep_def)
    have "filter (\<lambda>r. tg_tenant r = u \<and> tg_host r = j) (filter (\<lambda>r. keep (tg_tenant r) (tg_host r)) xs) =
        filter (\<lambda>r. tg_tenant r = u \<and> tg_host r = j) xs" if "keep u j" for u j and xs :: "tag_row list"
      using that by (induction xs) auto
    moreover have "find (\<lambda>r. o_tenant r = u \<and> o_host r = j) (filter (\<lambda>r. keep (o_tenant r) (o_host r)) xs) =
        find (\<lambda>r. o_tenant r = u \<and> o_host r = j) xs" if "keep u j" for u j and xs :: "override_row list"
      using that by (induction xs) auto
    moreover have "find (is_facts u j src) (filter (\<lambda>r. keep (f_tenant r) (f_host r)) xs) = find (is_facts u j src) xs" if "keep u j" for u j src xs
      using that by (induction xs) (auto simp: is_facts_def)
    ultimately show ?thesis
      using keep by (cases i)
        (simp_all add: d' map_for_host_def override_get_def facts_get_def fetch_optional_def group_list_def list_for_groups_def
          del: filter_filter cong del: if_weak_cong)
  qed
qed

section \<open>Every request tells the cache\<close>

lemma current_version: "tenant_get t d = Some tenant \<Longrightarrow> version_of t d = Some (te_config_version tenant)"
  by (auto simp: version_of_def tenant_get_def map_tenant_def)

lemma desired_hash_informs:
  "version_of t d = Some v \<Longrightarrow> informs G c d m d (snd (desired_hash_at c now t v host d m))"
  using informs_computed [of t d v G c m now "hid host"]
  by (auto simp: desired_hash_at_def split: prod.split sum.split)

lemma host_views_informs:
  "version_of t d = Some v \<Longrightarrow> informs G c d m d (snd (host_views c now t v thresholds d hs tags m))"
proof (induction hs arbitrary: tags m)
  case (Cons host rest)
  obtain r m1 where r: "desired_hash_at c now t v host d m = (r, m1)" by fastforce
  from desired_hash_informs [OF Cons.prems, of G c m now host] r have one: "informs G c d m d m1" by simp
  show ?case
  proof (cases r)
    case (Inr desired)
    obtain r2 m2 where r2: "host_views c now t v thresholds d rest (tags(hid host := [])) m1 = (r2, m2)" by fastforce
    from informs_trans [OF one Cons.IH [OF Cons.prems, of m1 "tags(hid host := [])", unfolded r2 snd_conv]] show ?thesis
      by (cases r2) (simp_all add: r Inr r2)
  qed (use one r in simp)
qed auto

lemma fx_informs_cache: "informs G c (fx_db s) (fx_cache s) (fx_db s) m \<Longrightarrow> fx_informs app_ok G c s (s\<lparr>fx_cache := m\<rparr>)"
  by (simp add: fx_informs_def)

lemma hosts_page_informs: "fx_informs app_ok G (op_codec (fl_ops l)) s (snd (hosts_page l cfg now who s))"
proof (cases "tenant_get (who_tenant who) (fx_db s)")
  case (Some tenant)
  show ?thesis
    using fx_informs_cache [OF host_views_informs [OF current_version [OF Some]]] by (simp add: hosts_page_def Some split_def)
qed (simp add: hosts_page_def ai.fx_informs_refl)

lemma status_inputs_informs: "fx_informs app_ok G (op_codec (fl_ops l)) s (snd (status_inputs l cfg now t host s))"
proof (cases "tenant_get t (fx_db s)")
  case (Some tenant)
  from fx_informs_cache [OF desired_hash_informs [OF current_version [OF Some], of G "op_codec (fl_ops l)" "fx_cache s" now host]]
  show ?thesis by (auto simp: status_inputs_def Some split: prod.split sum.split)
qed (simp add: status_inputs_def ai.fx_informs_refl)

lemma host_page_informs: "fx_informs app_ok G (op_codec (fl_ops l)) s (snd (host_page l cfg now who h s))"
proof (cases "host_get (who_tenant who) h (fx_db s)")
  case (Some host)
  from status_inputs_informs [of G l s cfg now "who_tenant who" host] show ?thesis
    by (auto simp: host_page_def Some Let_def split: prod.split sum.split)
qed (simp add: host_page_def ai.fx_informs_refl)

lemma host_desired_informs: "fx_informs app_ok G (op_codec (fl_ops l)) s (snd (host_desired l now who h s))"
proof -
  have "informs G c (fx_db s) (fx_cache s) (fx_db s) (snd (compute_desired_state c now t j (fx_db s) (fx_cache s)))" for c t j
    using informs_computed [of t "fx_db s" _ G c "fx_cache s" now j] current_version
    by (auto simp: compute_desired_state_def split: option.split)
  from fx_informs_cache [OF this] show ?thesis
    by (auto simp: host_desired_def ai.fx_informs_refl split: option.split prod.split sum.split) (metis snd_conv)+
qed

lemma provision_informs: "fx_informs app_ok G c s (snd (host_provision l cfg new_id nonce now who s))"
proof (cases "\<exists>r s'. host_provision l cfg new_id nonce now who s = (Inr r, s')")
  case True
  then obtain t expires host d meta where d: "create_pending new_id now t (hash_token (fl_hash l) nonce) expires (fx_db s) = Inr (host, d)"
    and s': "snd (host_provision l cfg new_id nonce now who s)
      = s\<lparr>fx_db := audited (fl_ops l) now who ''host.created'' ''host'' (hid host) None d\<rparr>"
    by (auto simp: host_provision_def Let_def split: if_splits option.splits sum.splits)
  show ?thesis unfolding fx_informs_def s'
    using pending_host_kept [OF _ d] audited_informs [OF informs_unread [OF _ version_of_cong]] by simp
next
  case False
  then have "snd (host_provision l cfg new_id nonce now who s) = s"
    by (auto simp: host_provision_def Let_def split: if_splits option.splits sum.splits)
  then show ?thesis by (simp add: ai.fx_informs_refl)
qed

lemma revoke_informs: "fx_informs app_ok G c s (snd (revoke_host_certs l cfg nonce now who h s))"
proof -
  define r where "r = revoke_certs_and_reset_to_pending now (who_tenant who) h (hash_token (fl_hash l) nonce) (now + cfg_bootstrap_ttl_secs cfg) (fx_db s)"
  obtain n d where nd: "r = (n, d)" by (cases r)
  note kept = reset_host_kept [OF _ nd [unfolded r_def]]
  have told: "informs G c (fx_db s) (fx_cache s) d (fx_cache s)" if "app_ok (fx_db s)"
    by (rule informs_unread) (use kept(3) [OF that] version_of_cong [OF kept(2) [OF that]] in auto)
  show ?thesis
    using kept(1) told audited_informs [OF informs_trans [OF told informs_forget]]
    by (auto simp: revoke_host_certs_def r_def [symmetric] nd fx_informs_def informs_refl Let_def split: option.split)
qed

lemma told_deleted:
  assumes ok: "app_ok d" and r: "host_delete t h d = Inr (gone, d')" and G: "(t, h) \<in> G"
  shows "app_ok d'" and "informs G c d m d' m"
proof -
  note kept = deleted_host_kept [OF ok r]
  show "app_ok d'" by (rule kept(1))
  show "informs G c d m d' m" by (rule informs_dead) (use kept(3) [OF G] version_of_cong [OF kept(2)] in auto)
qed

lemma delete_host_informs:
  assumes G: "(who_tenant who, h) \<in> G"
  shows "fx_informs app_ok G c s (snd (delete_host l now who h s))"
proof (cases "host_delete (who_tenant who) h (fx_db s)")
  case (Inr x)
  obtain gone d where d: "host_delete (who_tenant who) h (fx_db s) = Inr (gone, d)" using Inr by (cases x) simp
  have "app_ok d" and told: "informs G c (fx_db s) (fx_cache s) d (fx_cache s)" if "app_ok (fx_db s)"
    using told_deleted [OF that d G] by simp_all
  then show ?thesis using audited_informs [OF informs_trans [OF told informs_forget]]
    by (cases gone) (auto simp: delete_host_def d fx_informs_def informs_refl split: option.split)
qed (auto simp: delete_host_def ai.fx_informs_refl split: option.split)

lemma bulk_delete_each_informs:
  "{who_tenant who} \<times> set hs \<subseteq> G \<Longrightarrow> fx_informs app_ok G c s (snd (bulk_delete_each l now who hs r s))"
proof (induction hs arbitrary: r s)
  case (Cons h hs)
  from Cons.prems have G: "(who_tenant who, h) \<in> G" and rest: "{who_tenant who} \<times> set hs \<subseteq> G" by auto
  note IH = Cons.IH [OF rest]
  show ?case
  proof (cases "host_get (who_tenant who) h (fx_db s)")
    case (Some host)
    show ?thesis
    proof (cases "host_delete (who_tenant who) h (fx_db s)")
      case (Inr x)
      then obtain gone d where d: "host_delete (who_tenant who) h (fx_db s) = Inr (gone, d)" by (cases x) simp
      have "app_ok d" and told: "informs G c (fx_db s) (fx_cache s) d (fx_cache s)" if "app_ok (fx_db s)"
        using told_deleted [OF that d G] by simp_all
      then have "fx_informs app_ok G c s (s\<lparr>fx_db := d\<rparr>)"
        and "fx_informs app_ok G c s (s\<lparr>fx_db := audited (fl_ops l) now who ''host.deleted'' ''host'' h (Some (deleted_metadata host)) d,
          fx_cache := forget_host (who_tenant who) h (fx_cache s)\<rparr>)"
        using audited_informs [OF informs_trans [OF told informs_forget]] by (simp_all add: fx_informs_def)
      from this [THEN ai.fx_informs_trans, OF IH] show ?thesis using Some d by (cases gone) simp_all
    qed (simp add: Some ai.fx_informs_refl)
  qed (use IH in simp)
qed (simp add: ai.fx_informs_refl)

lemma host_belongs_cong: "hosts d' = hosts d \<Longrightarrow> host_belongs_to t h d' = host_belongs_to t h d"
  by (simp add: host_belongs)

lemma manual_tag_stored:
  assumes ok: "app_ok d" and host: "host_belongs_to t h d"
  obtains changed d' where "upsert_manual_tag now t h key val d = Inr (changed, d')" and "hosts d' = hosts d"
proof -
  have "host_id_exists h d" using host by (auto simp: host_belongs host_id_exists_def is_host_def)
  with host_tenant_exists [OF ok host] that show thesis by (auto simp: upsert_manual_tag_def upsert_tag_def Let_def)
qed

lemma bulk_set_kept:
  assumes "app_ok d" "host_belongs_to t h d"
  shows "\<exists>changed d'. bulk_set now t h sets before d = (Inr changed, d') \<and> (before \<longrightarrow> changed) \<and> app_ok d' \<and> tenants d' = tenants d
    \<and> hosts d' = hosts d \<and> (\<forall>i. read_input i d' = read_input i d \<or> changed \<and> host_input t h i)"
  using assms
proof (induction now t h sets before d rule: bulk_set.induct)
  case (2 now t h key val sets before d)
  obtain c d1 where d1: "upsert_manual_tag now t h key val d = Inr (c, d1)" "hosts d1 = hosts d"
    using manual_tag_stored [OF 2(2,3)] .
  note kept = manual_tag_kept [OF 2(2,3) d1(1)]
  from 2(1) [OF d1(1) refl kept(1)] host_belongs_cong [OF d1(2)] 2(3) obtain changed d' where
    rest: "bulk_set now t h sets (before \<or> c) d1 = (Inr changed, d')" "before \<or> c \<longrightarrow> changed" "app_ok d'" "tenants d' = tenants d1"
      "hosts d' = hosts d1" "\<forall>i. read_input i d' = read_input i d1 \<or> changed \<and> host_input t h i" by auto
  moreover have "\<forall>i. read_input i d' = read_input i d \<or> changed \<and> host_input t h i"
    using rest(2,6) kept(3) by metis
  ultimately show ?case using d1 kept(2) by auto
qed auto

lemma bulk_remove_kept:
  assumes "app_ok d"
  shows "\<exists>changed d'. bulk_remove t h keys before d = (changed, d') \<and> (before \<longrightarrow> changed) \<and> app_ok d' \<and> tenants d' = tenants d
    \<and> hosts d' = hosts d \<and> (\<forall>i. read_input i d' = read_input i d \<or> changed \<and> host_input t h i)"
  using assms
proof (induction t h keys before d rule: bulk_remove.induct)
  case (2 t h key keys before d)
  obtain c d1 where d1: "delete_manual_tag t h key d = (c, d1)" by fastforce
  then have hosts: "hosts d1 = hosts d" by (auto simp: delete_manual_tag_def Let_def)
  note kept = deleted_tag_kept [OF 2(2) d1]
  from 2(1) [OF d1 [symmetric] kept(1)] obtain changed d' where
    rest: "bulk_remove t h keys (before \<or> c) d1 = (changed, d')" "before \<or> c \<longrightarrow> changed" "app_ok d'" "tenants d' = tenants d1"
      "hosts d' = hosts d1" "\<forall>i. read_input i d' = read_input i d1 \<or> changed \<and> host_input t h i" by auto
  moreover have "\<forall>i. read_input i d' = read_input i d \<or> changed \<and> host_input t h i"
    using rest(2,6) kept(3) by metis
  ultimately show ?case using d1 kept(2) hosts by auto
qed auto

lemma bulk_tags_each_kept:
  assumes "app_ok d"
  shows "\<exists>r' touched' d'. bulk_tags_each now t sets removes hs r touched d = (Inr (r', touched'), d') \<and> set touched \<subseteq> set touched'
    \<and> app_ok d' \<and> tenants d' = tenants d \<and> hosts d' = hosts d
    \<and> (\<forall>i. read_input i d' = read_input i d \<or> (\<exists>h \<in> set touched'. host_input t h i))"
  using assms
proof (induction hs arbitrary: r touched d)
  case (Cons h hs)
  show ?case
  proof (cases "host_get t h d")
    case None
    then show ?thesis using Cons by simp
  next
    case (Some host)
    then have host: "host_belongs_to t h d" by (simp add: host_belongs_to_def)
    obtain c1 d1 where one: "bulk_set now t h sets False d = (Inr c1, d1)" "app_ok d1" "tenants d1 = tenants d" "hosts d1 = hosts d"
      "\<forall>i. read_input i d1 = read_input i d \<or> c1 \<and> host_input t h i"
      using bulk_set_kept [OF Cons.prems host] by metis
    obtain c2 d2 where two: "bulk_remove t h removes c1 d1 = (c2, d2)" "c1 \<longrightarrow> c2" "app_ok d2" "tenants d2 = tenants d1" "hosts d2 = hosts d1"
      "\<forall>i. read_input i d2 = read_input i d1 \<or> c2 \<and> host_input t h i"
      using bulk_remove_kept [OF one(2)] by metis
    let ?touched = "if c2 then touched @ [h] else touched"
    obtain r' touched' d' where rest: "bulk_tags_each now t sets removes hs (r\<lparr>br_updated := br_updated r + 1\<rparr>) ?touched d2 = (Inr (r', touched'), d')"
      "set ?touched \<subseteq> set touched'" "app_ok d'" "tenants d' = tenants d2" "hosts d' = hosts d2"
      "\<forall>i. read_input i d' = read_input i d2 \<or> (\<exists>h \<in> set touched'. host_input t h i)"
      using Cons.IH [OF two(3)] by metis
    have "c2 \<longrightarrow> h \<in> set touched'" using rest(2) by auto
    then have "\<forall>i. read_input i d' = read_input i d \<or> (\<exists>h \<in> set touched'. host_input t h i)"
      using one(5) two(2,6) rest(6) by metis
    moreover have "bulk_tags_each now t sets removes (h # hs) r touched d = (Inr (r', touched'), d')"
      using Some one(1) two(1) rest(1) by simp
    moreover have "set touched \<subseteq> set touched'" using rest(2) by (auto split: if_splits)
    ultimately show ?thesis using rest(3-5) one(3,4) two(4,5) by (intro exI [of _ r'] exI [of _ touched'] exI [of _ d']) simp
  qed
qed auto

lemma bulk_tags_informs: "fx_informs app_ok G c s (snd (bulk_tags l now who host_ids sets removes s))"
proof (cases "app_ok (fx_db s)")
  case True
  show ?thesis
  proof (cases "validate_bulk_ids host_ids")
    case (Some ids)
    obtain r touched d where each: "bulk_tags_each now (who_tenant who) sets removes ids \<lparr>br_updated = 0, br_not_found = []\<rparr> [] (fx_db s)
        = (Inr (r, touched), d)" and kept: "app_ok d" "tenants d = tenants (fx_db s)"
      "\<And>i. read_input i d = read_input i (fx_db s) \<or> (\<exists>h \<in> set touched. host_input (who_tenant who) h i)"
      using bulk_tags_each_kept [OF True] by metis
    have "informs G c (fx_db s) (fx_cache s) d (fold (invalidate_host now (who_tenant who)) touched (fx_cache s))"
      by (rule informs_hosts) (use kept(3) version_of_cong [OF kept(2)] in auto)
    from this audited_informs [OF this] show ?thesis
      using kept(1) by (auto simp: bulk_tags_def Some each fx_informs_def informs_refl Let_def)
  qed (simp add: bulk_tags_def ai.fx_informs_refl)
qed (simp add: fx_informs_def)

lemma bulk_delete_informs:
  assumes "{who_tenant who} \<times> set host_ids \<subseteq> G"
  shows "fx_informs app_ok G c s (snd (bulk_delete l now who host_ids s))"
proof (cases "validate_bulk_ids host_ids")
  case (Some ids)
  then have ids: "set ids = set host_ids" by (auto simp: validate_bulk_ids_def Let_def split: if_splits)
  obtain r s1 where r: "bulk_delete_each l now who ids \<lparr>br_updated = 0, br_not_found = []\<rparr> s = (r, s1)" by fastforce
  from bulk_delete_each_informs [where l = l and s = s and c = c and now = now, of who ids G "\<lparr>br_updated = 0, br_not_found = []\<rparr>"] r ids assms
  have "fx_informs app_ok G c s s1" by simp
  then show ?thesis using r Some by (cases r) (simp_all add: bulk_delete_def fx_informs_def informs_refl)
qed (simp add: bulk_delete_def ai.fx_informs_refl)

section \<open>The limit on hosts\<close>

text \<open>Adding a host stays within the tier; a refusal for the limit changes nothing.\<close>

lemma provision_within_limit:
  assumes ten: "tenant_get (who_tenant who) (fx_db s) = Some tenant"
    and limit: "limit = max_hosts (effective (fl_overrides l) (te_tier tenant) (te_tier_overrides_json tenant))"
  shows "unat limit \<le> count_active now (te_id tenant) (fx_db s) \<Longrightarrow> snd (host_provision l cfg new_id nonce now who s) = s"
    and "fst (host_provision l cfg new_id nonce now who s) = Inr r \<Longrightarrow> count_active now (te_id tenant) (fx_db s) < unat limit"
  using ten limit by (auto simp: host_provision_def Let_def split: if_splits option.splits sum.splits)

text \<open>
  Revoking is not held to it: a host added more than a day ago stops counting when its certificates
  are revoked, while its new token enrolls it again. A tenant at its limit that revokes one, adds
  another and enrolls both is above its limit.
\<close>

lemma revoked_not_counted:
  assumes ok: "facts_ok d" and r: "r \<in> set (hosts d)" "is_host t h r" "h_enrolled_at r \<noteq> None" "h_created_at r \<le> now - 86400"
    and revoked: "revoke_certs_and_reset_to_pending now t h nonce_hash expires d = (Some n, d')" and alive: "now < expires"
  shows "count_active now t d' + 1 = count_active now t d \<and> bootstrap_pending now t h nonce_hash d'"
proof -
  define f where "f = (\<lambda>r :: host_row. r\<lparr>h_enrolled_at := None, h_nonce_hash := Some nonce_hash, h_bootstrap_expires_at := Some expires\<rparr>)"
  have d': "hosts d' = update_where (is_host t h) f (hosts d)"
    using revoked by (auto simp: revoke_certs_and_reset_to_pending_def Let_def f_def split: if_splits)
  obtain xs ys where split: "hosts d = xs @ r # ys" using r(1) by (meson split_list)
  have "h_id r \<notin> h_id ` (set xs \<union> set ys)" using ok by (simp add: facts_ok_def split image_Un)
  then have others: "\<forall>x \<in> set xs \<union> set ys. \<not> is_host t h x"
    using r(2) unfolding is_host_def by (metis imageI)
  have same: "update_where (is_host t h) f zs = zs" if "\<forall>x \<in> set zs. \<not> is_host t h x" for zs
    using that by (induction zs) (auto simp: update_where_def)
  have "update_where (is_host t h) f (hosts d) = xs @ f r # ys"
    using others r(2) same [of xs] same [of ys] by (simp add: split update_where_def)
  with d' have after: "hosts d' = xs @ f r # ys" by simp
  have "count_active now t d' + 1 = count_active now t d"
    using r(2-4) by (auto simp: count_active_def after split affected_def f_def is_host_def)
  moreover have "awaits now t h nonce_hash (f r)"
    using r(2) alive by (simp add: awaits_def f_def is_host_def)
  then have "bootstrap_pending now t h nonce_hash d'"
    by (auto simp: bootstrap_pending_def fetch_optional_def find_None_iff after)
  ultimately show ?thesis by blast
qed

section \<open>The list and the page of a host agree\<close>

text \<open>In a world that agrees, what a host would be served is what would be computed for it now.\<close>

definition desired_now :: "codec \<Rightarrow> int \<Rightarrow> host \<Rightarrow> db \<Rightarrow> nat + str option" where
  "desired_now c t host d =
     (if enrolled_at host = None then Inr None
      else case compute_uncached c t (hid host) d of Inl _ \<Rightarrow> Inl 500 | Inr ds \<Rightarrow> Inr (Some (state_hash ds)))"

lemma desired_hash_now:
  assumes "reachable_world c w" "w_db w = d" "w_cache w = m" "w_pending w = {}" "informs {} c d m d m'"
    and v: "tenant_get t d = Some tenant"
  shows "fst (desired_hash_at c now t (te_config_version tenant) host d m') = desired_now c t host d"
  using informs_poll [OF assms(1-5), of t "hid host" now] v current_version [OF v]
  by (auto simp: desired_hash_at_def desired_now_def compute_desired_state_def split: prod.splits sum.splits)

lemma host_views_now:
  assumes w: "reachable_world c w" "w_db w = d" "w_cache w = m" "w_pending w = {}" and v: "tenant_get t d = Some tenant"
  shows "informs {} c d m d m1 \<Longrightarrow> distinct (map hid hs) \<Longrightarrow>
    host_views c now t (te_config_version tenant) thresholds d hs tags m1 = (Inr views, m2) \<Longrightarrow>
    \<exists>desired. (\<forall>host \<in> set hs. desired_now c t host d = Inr (desired host))
      \<and> views = map (\<lambda>host. view_host host now thresholds (desired host) (tags (hid host))) hs"
proof (induction hs arbitrary: m1 tags views)
  case (Cons host rest)
  obtain r m' where r: "desired_hash_at c now t (te_config_version tenant) host d m1 = (r, m')" by fastforce
  have now: "desired_now c t host d = r" using desired_hash_now [OF w Cons.prems(1) v, of now host] r by simp
  obtain x where x: "r = Inr x" using Cons.prems(3) r by (cases r) simp_all
  obtain rest_views where rest: "host_views c now t (te_config_version tenant) thresholds d rest (tags(hid host := [])) m' = (Inr rest_views, m2)"
    and views: "views = view_host host now thresholds x (tags (hid host)) # rest_views"
    using Cons.prems(3) r x by (auto split: prod.splits sum.splits)
  have "informs {} c d m d m'"
    using informs_trans [OF Cons.prems(1) desired_hash_informs [OF current_version [OF v]]] r by (metis snd_conv)
  from Cons.IH [OF this _ rest] Cons.prems(2) obtain desired where
    desired: "\<forall>host \<in> set rest. desired_now c t host d = Inr (desired host)"
    "rest_views = map (\<lambda>h. view_host h now thresholds (desired h) ((tags(hid host := [])) (hid h))) rest" by auto
  have "hid host \<notin> hid ` set rest" using Cons.prems(2) by simp
  then have "hid h \<noteq> hid host" if "h \<in> set rest" for h using that by (metis imageI)
  then have "rest_views = map (\<lambda>h. view_host h now thresholds ((desired(host := x)) h) (tags (hid h))) rest"
    using desired(2) by (auto simp: fun_upd_def)
  moreover have "\<forall>h \<in> set (host # rest). desired_now c t h d = Inr ((desired(host := x)) h)"
    using desired(1) now x by auto
  ultimately show ?case using views by (intro exI [of _ "desired(host := x)"]) simp
qed simp

text \<open>The tags shown on both.\<close>

lemma tag_views_by_host:
  "tag_views_by_host rows h = map (\<lambda>(j, key, val, source). \<lparr>tv_key = key, tv_value = val, tv_source = source\<rparr>) (filter (\<lambda>(j, _). j = h) rows)"
proof -
  have "fold (\<lambda>(j, key, val, source) m. m(j := m j @ [\<lparr>tv_key = key, tv_value = val, tv_source = source\<rparr>])) rows m h =
      m h @ map (\<lambda>(j, key, val, source). \<lparr>tv_key = key, tv_value = val, tv_source = source\<rparr>) (filter (\<lambda>(j, _). j = h) rows)" for m
    by (induction rows arbitrary: m) auto
  then show ?thesis by (simp add: tag_views_by_host_def)
qed

lemma filter_order_asc: "filter p (order_asc f rows) = order_asc f (filter p rows)"
  by (simp add: order_asc_def filter_sort)

lemma order_asc_const: "(\<And>r. r \<in> set rows \<Longrightarrow> f r = x) \<Longrightarrow> order_asc f rows = rows"
proof -
  assume "\<And>r. r \<in> set rows \<Longrightarrow> f r = x"
  then have "sorted (map f rows)" by (auto simp: sorted_map sorted_wrt_iff_nth_less)
  then show ?thesis by (simp add: order_asc_def sort_key_id_if_sorted)
qed

lemma same_tags:
  "tag_views_by_host (list_for_tenant t d) h =
    map (\<lambda>(key, val, source). \<lparr>tv_key = key, tv_value = val, tv_source = source\<rparr>) (list_for_host t h d)"
proof -
  have "filter (\<lambda>r. tg_host r = h) (order_asc tg_host (order_asc tg_key (filter (\<lambda>r. tg_tenant r = t) (host_tags d))))
      = order_asc tg_key (filter (\<lambda>r. tg_tenant r = t \<and> tg_host r = h) (host_tags d))"
    by (simp add: filter_order_asc conj_commute) (rule order_asc_const, auto simp: order_asc_def)
  moreover have "filter (\<lambda>(j, _). j = h) (list_for_tenant t d) = map (\<lambda>r. (tg_host r, tg_key r, tg_value r, tg_source r))
      (filter (\<lambda>r. tg_host r = h) (order_asc tg_host (order_asc tg_key (filter (\<lambda>r. tg_tenant r = t) (host_tags d)))))"
    by (simp add: list_for_tenant_def filter_map comp_def)
  ultimately show ?thesis by (simp add: tag_views_by_host list_for_host_def comp_def)
qed

lemma host_get_listed: "host_get t h d = Some host \<Longrightarrow> host \<in> set (host_list t d) \<and> hid host = h"
  by (auto simp: host_get_def host_list_def order_desc_def fetch_optional_def is_host_def map_host_def dest!: find_SomeD)

lemma hosts_listed_once: "facts_ok d \<Longrightarrow> distinct (map hid (host_list t d))"
proof -
  assume "facts_ok d"
  then have "distinct (map h_id (filter (\<lambda>r. h_tenant r = t) (hosts d)))" by (simp add: facts_ok_def distinct_map_filter)
  moreover have "mset (map h_id (order_desc h_created_at rows)) = mset (map h_id rows)" for rows :: "host_row list"
    by (simp add: order_desc_def)
  ultimately have "distinct (map h_id (order_desc h_created_at (filter (\<lambda>r. h_tenant r = t) (hosts d))))"
    by (metis mset_eq_imp_distinct_iff)
  then show ?thesis by (simp add: host_list_def comp_def map_host_def)
qed


definition sample_jwt :: "bootstrap_claims \<Rightarrow> jwt_lib" where
  "sample_jwt claims = \<lparr>jwt_encode = (\<lambda>secret x. ''token''),
     jwt_decode = (\<lambda>secret req auds now token. if bc_aud claims \<in> set auds \<and> now < bc_exp claims then Some claims else None)\<rparr>"

lemma sample_jwt_laws: "jwt_laws (sample_jwt claims) {claims}"
  by (simp add: jwt_laws_def sample_jwt_def)

definition fleet_sample_lib :: fleet_lib where
  "fleet_sample_lib = \<lparr>fl_ops = cfg_sample_lib, fl_hash = sample_lib, fl_overrides = (\<lambda>_. None),
     fl_jwt = sample_jwt \<lparr>bc_host_id = ''h'', bc_tenant_id = 1, bc_nonce = ''n'', bc_exp = 3610, bc_iat = 10, bc_aud = AUDIENCE\<rparr>,
     fl_x509 = sample_x509, fl_governor = open_governor\<rparr>"

definition fleet_sample_config :: fleet_config where
  "fleet_sample_config = \<lparr>cfg_bootstrap_ttl_secs = 3600, cfg_bootstrap_jwt_secret = ''k'', cfg_base_url = ''https://f/'',
     cfg_host_lost_after_secs = 0, cfg_client_cert_lifetime_days = 90, cfg_agent_mtls_url = ''https://m'',
     cfg_mtls_server_cert_pem = ''web'', cfg_mtls_server_key_pem = ''k''\<rparr>"

definition one_enrolled :: db where
  "one_enrolled = sample_hosts\<lparr>hosts := [(new_host_row ''h'' 1 0)\<lparr>h_enrolled_at := Some 10\<rparr>]\<rparr>"

lemma one_enrolled_ok: "facts_ok one_enrolled"
  by (simp add: facts_ok_def one_enrolled_def sample_hosts_def empty_db_def)


end
