(* ===== verification/Spec2Isabelle.thy ===== *)
theory Spec2Isabelle
  imports Canonical Merge Facts Accounts Tier Crypto Facts_Exchange Preview Hosts_Api
begin

text \<open>
  A verification library of the fleet server. Skeleton header.
\<close>

end
